(* ===== verification/Sos_Prelude.thy ===== *)
theory Sos_Prelude
  imports Main "HOL-Library.Word" "HOL-Library.Monad_Syntax"
begin

text \<open>
  Shared vocabulary of the development.

  Every C function is a HOL function into \<^typ>\<open>'a option\<close>: the value \<^const>\<open>None\<close> is a run in
  which an \<^verbatim>\<open>assert\<close> fails or an array is read or written out of bounds; error codes of the
  source are ordinary result values. C's 32-bit unsigned \<^verbatim>\<open>seL4_Word\<close> is \<open>32 word\<close>, its
  \<^verbatim>\<open>char\<close> (unsigned on ARM, the configured architecture) is \<open>8 word\<close>. Helper functions model
  \<^verbatim>\<open>assert\<close>, array subscripts and the counting loops the source uses everywhere.
\<close>

unbundle bit_operations_syntax

type_synonym u8 = "8 word"
type_synonym u32 = "32 word"
type_synonym u64 = "64 word"

named_theorems sos_defs \<open>definitions that proofs of a component unfold\<close>
named_theorems sos_bounds \<open>range facts used as simplification rules\<close>

section \<open>Assertions and array subscripts\<close>

definition c_assert :: "bool \<Rightarrow> unit option" where
  "c_assert b = (if b then Some () else None)"

definition arr_get :: "'a list \<Rightarrow> int \<Rightarrow> 'a option" where
  "arr_get xs i = (if 0 \<le> i \<and> nat i < length xs then Some (xs ! nat i) else None)"

definition arr_set :: "'a list \<Rightarrow> int \<Rightarrow> 'a \<Rightarrow> 'a list option" where
  "arr_set xs i v = (if 0 \<le> i \<and> nat i < length xs then Some (xs[nat i := v]) else None)"

lemma c_assert_bind [simp]: "(c_assert b \<bind> f) = (if b then f () else None)"
  by (simp add: c_assert_def)

lemma c_assert_Some [simp]: "c_assert b = Some u \<longleftrightarrow> b"
  by (simp add: c_assert_def)

lemma c_assert_True [simp]: "c_assert True = Some ()"
  by (simp add: c_assert_def)

lemma arr_get_Some: "arr_get xs i = Some v \<longleftrightarrow> 0 \<le> i \<and> nat i < length xs \<and> xs ! nat i = v"
  by (auto simp: arr_get_def)

lemma arr_set_Some: "arr_set xs i v = Some ys \<longleftrightarrow> 0 \<le> i \<and> nat i < length xs \<and> ys = xs[nat i := v]"
  by (auto simp: arr_set_def)

lemma arr_get_nat [simp]: "arr_get xs (int i) = (if i < length xs then Some (xs ! i) else None)"
  by (simp add: arr_get_def)

lemma arr_set_nat [simp]: "arr_set xs (int i) v = (if i < length xs then Some (xs[i := v]) else None)"
  by (simp add: arr_set_def)

section \<open>Counting loops\<close>

text \<open>
  \<open>for_loop body n i s\<close> is \<^verbatim>\<open>for (k = i; k < i + n; k++) s = body(k, s)\<close>, stopping with
  \<^const>\<open>None\<close> at the first aborting iteration.
\<close>

fun for_loop :: "(nat \<Rightarrow> 's \<Rightarrow> 's option) \<Rightarrow> nat \<Rightarrow> nat \<Rightarrow> 's \<Rightarrow> 's option" where
  "for_loop body 0 i s = Some s"
| "for_loop body (Suc n) i s = (body i s \<bind> for_loop body n (Suc i))"

lemma for_loop_add:
  "for_loop body (m + n) i s = (for_loop body m i s \<bind> for_loop body n (i + m))"
  by (induction m arbitrary: i s) (auto split: Option.bind_split)

text \<open>
  The loop rule: an invariant indexed by the loop counter that holds at the start and that
  every iteration keeps (without aborting) holds after the loop, and the loop does not abort.
\<close>

lemma for_loop_inv:
  assumes "P i s"
    and "\<And>k t. i \<le> k \<Longrightarrow> k < i + n \<Longrightarrow> P k t \<Longrightarrow> \<exists>t'. body k t = Some t' \<and> P (Suc k) t'"
  shows "\<exists>t. for_loop body n i s = Some t \<and> P (i + n) t"
  using assms
proof (induction n arbitrary: i s)
  case 0
  then show ?case by simp
next
  case (Suc n)
  from Suc.prems(2)[of i s] Suc.prems(1) obtain t' where t': "body i s = Some t'" "P (Suc i) t'"
    by auto
  have "\<exists>t. for_loop body n (Suc i) t' = Some t \<and> P (Suc i + n) t"
  proof (rule Suc.IH)
    show "P (Suc i) t'" by (rule t'(2))
    fix k t
    assume "Suc i \<le> k" "k < Suc i + n" "P k t"
    then show "\<exists>t'. body k t = Some t' \<and> P (Suc k) t'"
      using Suc.prems(2)[of k t] by simp
  qed
  with t'(1) show ?case by simp
qed

text \<open>Partial version: whatever the loop returns satisfies the invariant.\<close>

lemma for_loop_partial:
  assumes "for_loop body n i s = Some t" and "P i s"
    and "\<And>k u u'. i \<le> k \<Longrightarrow> k < i + n \<Longrightarrow> P k u \<Longrightarrow> body k u = Some u' \<Longrightarrow> P (Suc k) u'"
  shows "P (i + n) t"
  using assms
proof (induction n arbitrary: i s)
  case 0
  then show ?case by simp
next
  case (Suc n)
  from Suc.prems(1) obtain s' where s': "body i s = Some s'" "for_loop body n (Suc i) s' = Some t"
    by (auto simp: bind_eq_Some_conv)
  from Suc.prems(2) s'(1) have "P (Suc i) s'"
    using Suc.prems(3)[of i s s'] by simp
  moreover have "\<And>k u u'. Suc i \<le> k \<Longrightarrow> k < Suc i + n \<Longrightarrow> P k u \<Longrightarrow> body k u = Some u' \<Longrightarrow> P (Suc k) u'"
    using Suc.prems(3) by simp
  ultimately show ?case
    using Suc.IH[OF s'(2)] by simp
qed

section \<open>Facts about numbers and words\<close>

lemma nat_int_mult_exp [simp]: "nat (int n * 2 ^ k) = n * 2 ^ k"
  by (metis nat_int of_nat_mult of_nat_numeral of_nat_power)

lemma unat_bound: "unat (x :: u32) < 2 ^ 32"
proof -
  have "unat x < 2 ^ LENGTH(32)" by (rule unsigned_less)
  then show ?thesis by simp
qed

lemma unat_push_bit_1:
  assumes "k < 32"
  shows "unat (push_bit k (1 :: u32)) = 2 ^ k"
proof -
  have "push_bit k (1 :: u32) = of_nat (2 ^ k)" by (simp add: push_bit_eq_mult)
  moreover have "(2 :: nat) ^ k < 2 ^ 32" using assms by (intro power_strict_increasing) auto
  moreover from this have "unat (of_nat (2 ^ k) :: u32) = 2 ^ k"
    by (simp only: unat_of_nat) simp
  ultimately show ?thesis by (simp only:)
qed

lemma unat_two_exp: "k < 32 \<Longrightarrow> unat ((2 :: u32) ^ k) = 2 ^ k"
  using unat_push_bit_1 [of k] by (simp add: push_bit_eq_mult)

lemma unat_word_plus_nat:
  fixes b :: u32
  assumes "unat b + m < 2 ^ 32"
  shows "unat (word_of_int (int m) + b) = unat b + m"
proof -
  have "unat (word_of_int (int m) + b) = (m + unat b) mod 2 ^ 32"
    by (simp add: unat_word_ariths unat_of_nat take_bit_eq_mod mod_add_left_eq)
  with assms show ?thesis by (simp add: add.commute)
qed

lemma word_not_max_iff:
  fixes x :: "'a::len word"
  shows "x \<noteq> - 1 \<longleftrightarrow> (\<exists>k<LENGTH('a). \<not> bit x k)"
  by (auto simp: bit_eq_iff bit_minus_1_iff)

lemma and_not_mask_shift: "(a::'a::ring_bit_operations) AND NOT (mask n) = push_bit n (drop_bit n a)"
  by (rule bit_eqI) (auto simp: bit_simps)

lemma int_align: "int i AND NOT (2 ^ n - 1) = int (i div 2 ^ n * 2 ^ n)"
  using and_not_mask_shift [of "int i" n]
  by (simp add: mask_eq_exp_minus_1 push_bit_eq_mult drop_bit_eq_div zdiv_int)

lemma word_align: "(x::u32) AND NOT (push_bit n 1 - 1) = push_bit n (drop_bit n x)"
  using and_not_mask_shift [of x n]
  by (simp add: mask_eq_exp_minus_1 push_bit_eq_mult)

lemma unat_word_align:
  "unat ((x::u32) AND NOT (push_bit n 1 - 1)) = unat x div 2 ^ n * 2 ^ n"
proof -
  have "unat (push_bit n (drop_bit n x)) = push_bit n (drop_bit n (unat x))"
    by (rule bit_eqI) (auto simp: bit_simps dest: bit_imp_le_length)
  then show ?thesis
    unfolding word_align by (simp only:) (simp add: push_bit_eq_mult drop_bit_eq_div)
qed

lemma word_and_mask: "unat ((x::u32) AND (push_bit n 1 - 1)) = unat x mod 2 ^ n"
proof -
  have "(push_bit n 1 - 1 :: u32) = mask n"
    by (simp add: mask_eq_exp_minus_1 push_bit_eq_mult)
  then have "x AND (push_bit n 1 - 1) = take_bit n x" by (simp add: take_bit_eq_mask)
  then have "unat (x AND (push_bit n 1 - 1)) = take_bit n (unat x)"
    by (simp only: unsigned_take_bit_eq)
  then show ?thesis by (simp only: take_bit_eq_mod)
qed

lemma word_and_mask_0: "(x::u32) AND (push_bit n 1 - 1) = 0 \<longleftrightarrow> unat x mod 2 ^ n = 0"
  using word_and_mask [of x n] by (metis unat_eq_zero)

end
