(* ===== verification/Bitfield.thy ===== *)
theory Bitfield
  imports Sos_Prelude
begin

text \<open>
  The bitfield of \<^verbatim>\<open>ut_manager/bitfield.c\<close>: an allocation bitmap with a count of clear bits and
  a search hint. The array \<^verbatim>\<open>b\<close> is a list of bytes; \<^verbatim>\<open>int\<close> fields are \<^typ>\<open>int\<close> (a bitfield of
  the whole 4 GB address space in 1 KB units has \<open>2 ^ 22\<close> bits, so no field overflows).
\<close>

section \<open>Definitions\<close>

record bitfield_t =
  next_free :: int
  available :: int
  bf_size :: int
  bf_b :: "u8 list"

datatype bf_init_state = BITFIELD_INIT_FILLED | BITFIELD_INIT_EMPTY

definition FLOOR :: "int \<Rightarrow> int" where
  "FLOOR x = x AND NOT (8 - 1)"

definition CEILING :: "int \<Rightarrow> int" where
  "CEILING x = FLOOR (x + (8 - 1))"

text \<open>\<^verbatim>\<open>while (bit-- > 0) *bitmask <<= 1\<close>\<close>

fun shift_mask :: "nat \<Rightarrow> int \<Rightarrow> int" where
  "shift_mask 0 m = m"
| "shift_mask (Suc n) m = shift_mask n (push_bit 1 m)"

definition bf_decode :: "int \<Rightarrow> int \<times> int" where
  "bf_decode offset = (drop_bit 3 offset, shift_mask (nat (offset AND 7)) 1)"

definition bf_get :: "bitfield_t \<Rightarrow> int \<Rightarrow> bool option" where
  "bf_get bf offset = (let (byte, bitmask) = bf_decode offset in do {
     c_assert (byte < CEILING (bf_size bf) div 8);
     v \<leftarrow> arr_get (bf_b bf) byte;
     Some (v AND word_of_int bitmask \<noteq> 0) })"

definition bf_set :: "bitfield_t \<Rightarrow> int \<Rightarrow> bitfield_t option" where
  "bf_set bf offset = do {
     g \<leftarrow> bf_get bf offset;
     c_assert (\<not> g);
     let (byte, bitmask) = bf_decode offset;
     c_assert (byte < CEILING (bf_size bf) div 8);
     v \<leftarrow> arr_get (bf_b bf) byte;
     b' \<leftarrow> arr_set (bf_b bf) byte (v OR word_of_int bitmask);
     Some (bf\<lparr>bf_b := b', available := available bf - 1\<rparr>) }"

definition bf_clr :: "bitfield_t \<Rightarrow> int \<Rightarrow> bitfield_t option" where
  "bf_clr bf offset = do {
     g \<leftarrow> bf_get bf offset;
     c_assert g;
     let (byte, bitmask) = bf_decode offset;
     c_assert (byte < CEILING (bf_size bf) div 8);
     v \<leftarrow> arr_get (bf_b bf) byte;
     b' \<leftarrow> arr_set (bf_b bf) byte (v AND NOT (word_of_int bitmask));
     Some (bf\<lparr>bf_b := b', available := available bf + 1\<rparr>) }"

text \<open>
  The constructor; its argument says whether each of the two \<^verbatim>\<open>malloc\<close> calls succeeds, and the
  result \<open>Some None\<close> is the returned \<^verbatim>\<open>NULL\<close>. The loop marks the bits of the last byte that lie
  beyond \<open>size\<close>.
\<close>

definition new_bitfield :: "bool \<Rightarrow> bool \<Rightarrow> int \<Rightarrow> bf_init_state \<Rightarrow> bitfield_t option option" where
  "new_bitfield malloc1 malloc2 sz state =
     (if \<not> malloc1 then Some None
      else let bytes = CEILING sz div 8 in
      if \<not> malloc2 then Some None
      else case state of
        BITFIELD_INIT_FILLED \<Rightarrow>
          Some (Some \<lparr>next_free = 0, available = 0, bf_size = sz,
                      bf_b = replicate (nat bytes) 0xff\<rparr>)
      | BITFIELD_INIT_EMPTY \<Rightarrow> do {
          bf \<leftarrow> for_loop (\<lambda>i bf. bf_set bf (int i)) (nat (bytes * 8 - sz)) (nat sz)
                 \<lparr>next_free = 0, available = sz, bf_size = sz,
                  bf_b = replicate (nat bytes) 0\<rparr>;
          Some (Some bf) })"

text \<open>One of the two scanning loops of \<^verbatim>\<open>_bf_find_next_free_byte\<close>; \<open>-1\<close> when it falls through.\<close>

function bf_scan :: "u8 list \<Rightarrow> int \<Rightarrow> int \<Rightarrow> int option" where
  "bf_scan field current limit =
     (if current < limit then do {
        v \<leftarrow> arr_get field current;
        if v \<noteq> 0xff then Some current else bf_scan field (current + 1) limit }
      else Some (- 1))"
  by pat_completeness auto
termination
  by (relation "measure (\<lambda>(field, current, limit). nat (limit - current))") auto

declare bf_scan.simps [simp del]

definition bf_find_next_free_byte :: "u8 list \<Rightarrow> int \<Rightarrow> int \<Rightarrow> int option" where
  "bf_find_next_free_byte field next0 sz0 =
     (let next = FLOOR next0 div 8; sz = CEILING sz0 div 8 in do {
        r \<leftarrow> bf_scan field next sz;
        if r \<noteq> - 1 then Some r else bf_scan field 0 next })"

fun bf_bit_scan :: "u8 \<Rightarrow> nat \<Rightarrow> nat \<Rightarrow> int" where
  "bf_bit_scan field 0 i = - 1"
| "bf_bit_scan field (Suc n) i =
     (if field AND push_bit i 1 = 0 then int i else bf_bit_scan field n (Suc i))"

definition bf_find_next_free_bit :: "u8 \<Rightarrow> int option" where
  "bf_find_next_free_bit field = do {
     c_assert (field \<noteq> 0xff);
     Some (bf_bit_scan field 8 0) }"

definition bf_set_next_free :: "bitfield_t \<Rightarrow> (int \<times> bitfield_t) option" where
  "bf_set_next_free bf =
     (if available bf \<noteq> 0 then do {
        byte \<leftarrow> bf_find_next_free_byte (bf_b bf) (next_free bf) (bf_size bf);
        if byte \<noteq> - 1 then do {
          v \<leftarrow> arr_get (bf_b bf) byte;
          bit \<leftarrow> bf_find_next_free_bit v;
          let offset = byte * 8 + bit;
          bf' \<leftarrow> bf_set bf offset;
          let nf = offset + 1;
          Some (offset, bf'\<lparr>next_free := (if nf > bf_size bf then 0 else nf)\<rparr>) }
        else Some (- 1, bf) }
      else Some (- 1, bf))"

section \<open>Invariant and abstraction\<close>

text \<open>Bit \<open>i\<close> of the map, and the set of clear bits below \<open>size\<close>.\<close>

definition bf_bit :: "bitfield_t \<Rightarrow> nat \<Rightarrow> bool" where
  "bf_bit bf i = bit (bf_b bf ! (i div 8)) (i mod 8)"

definition bf_free :: "bitfield_t \<Rightarrow> nat set" where
  "bf_free bf = {i. i < nat (bf_size bf) \<and> \<not> bf_bit bf i}"

text \<open>
  The invariant: the byte array has exactly the rounded-up length, the padding bits are set,
  and \<open>available\<close> counts the clear bits.
\<close>

definition wf_bf :: "bitfield_t \<Rightarrow> bool" where
  "wf_bf bf \<longleftrightarrow> 0 \<le> bf_size bf \<and> length (bf_b bf) = (nat (bf_size bf) + 7) div 8 \<and>
     (\<forall>i. nat (bf_size bf) \<le> i \<and> i < 8 * length (bf_b bf) \<longrightarrow> bf_bit bf i) \<and>
     available bf = int (card (bf_free bf))"

text \<open>The search hint is usable when it lies in \<open>[0, size]\<close>.\<close>

definition hint_ok :: "bitfield_t \<Rightarrow> bool" where
  "hint_ok bf \<longleftrightarrow> 0 \<le> next_free bf \<and> next_free bf \<le> bf_size bf"

section \<open>Lemmas\<close>

subsection \<open>Rounding and decoding\<close>

lemma FLOOR_div [simp]: "FLOOR x div 8 = x div 8"
proof -
  have "drop_bit 3 (x AND NOT 7) = drop_bit 3 x AND drop_bit 3 (NOT 7)"
    by (rule drop_bit_and)
  then show ?thesis
    by (simp add: FLOOR_def drop_bit_eq_div)
qed

lemma CEILING_div [simp]: "CEILING x div 8 = (x + 7) div 8"
  by (simp add: CEILING_def)

lemma shift_mask_eq: "shift_mask n m = m * 2 ^ n"
  by (induction n arbitrary: m) (simp_all add: push_bit_eq_mult)

lemma bf_decode_nat: "bf_decode (int i) = (int (i div 8), 2 ^ (i mod 8))"
proof -
  have "int i AND 7 = take_bit 3 (int i)"
    by (simp add: take_bit_eq_mask mask_eq_exp_minus_1)
  then have "int i AND 7 = int (i mod 8)"
    by (simp add: take_bit_eq_mod zmod_int)
  then show ?thesis
    by (simp add: bf_decode_def shift_mask_eq drop_bit_eq_div zdiv_int)
qed

subsection \<open>Single-bit operations\<close>

definition bf_len_ok :: "bitfield_t \<Rightarrow> bool" where
  "bf_len_ok bf \<longleftrightarrow> 0 \<le> bf_size bf \<and> length (bf_b bf) = (nat (bf_size bf) + 7) div 8"

lemma bf_len_ok_bytes: "bf_len_ok bf \<Longrightarrow> (bf_size bf + 7) div 8 = int (length (bf_b bf))"
  by (simp add: bf_len_ok_def zdiv_int)

lemma bf_byte_in_range: "i < 8 * length (bf_b bf) \<Longrightarrow> i div 8 < length (bf_b bf)"
  by linarith

lemma bf_len_ok_size: "bf_len_ok bf \<Longrightarrow> i < nat (bf_size bf) \<Longrightarrow> i < 8 * length (bf_b bf)"
  by (simp add: bf_len_ok_def)

lemma bf_get_eq:
  assumes "bf_len_ok bf" and "i < 8 * length (bf_b bf)"
  shows "bf_get bf (int i) = Some (bf_bit bf i)"
  using assms bf_byte_in_range [OF assms(2)]
  by (simp add: bf_get_def bf_decode_nat bf_len_ok_bytes bf_bit_def and_exp_eq_0_iff_not_bit)

definition bf_upd :: "bitfield_t \<Rightarrow> nat \<Rightarrow> (nat \<Rightarrow> u8 \<Rightarrow> u8) \<Rightarrow> u8 list" where
  "bf_upd bf i f = (bf_b bf)[i div 8 := f (i mod 8) (bf_b bf ! (i div 8))]"

lemma bf_set_eq:
  assumes "bf_len_ok bf" and "i < 8 * length (bf_b bf)" and "\<not> bf_bit bf i"
  shows "bf_set bf (int i) = Some (bf\<lparr>bf_b := bf_upd bf i set_bit, available := available bf - 1\<rparr>)"
  using assms bf_byte_in_range [OF assms(2)]
  by (simp add: bf_set_def bf_get_eq bf_decode_nat bf_len_ok_bytes bf_upd_def set_bit_eq_or
      push_bit_eq_mult)

lemma bf_clr_eq:
  assumes "bf_len_ok bf" and "i < 8 * length (bf_b bf)" and "bf_bit bf i"
  shows "bf_clr bf (int i) = Some (bf\<lparr>bf_b := bf_upd bf i unset_bit, available := available bf + 1\<rparr>)"
  using assms bf_byte_in_range [OF assms(2)]
  by (simp add: bf_clr_def bf_get_eq bf_decode_nat bf_len_ok_bytes bf_upd_def unset_bit_eq_and_not
      push_bit_eq_mult)

lemma bf_bit_frame [simp]:
  "bf_bit (bf\<lparr>available := a\<rparr>) = bf_bit bf" "bf_bit (bf\<lparr>next_free := n\<rparr>) = bf_bit bf"
  by (simp_all add: bf_bit_def fun_eq_iff)

lemma bf_free_frame [simp]:
  "bf_free (bf\<lparr>available := a\<rparr>) = bf_free bf" "bf_free (bf\<lparr>next_free := n\<rparr>) = bf_free bf"
  by (simp_all add: bf_free_def)

lemma length_bf_upd [simp]: "length (bf_upd bf i f) = length (bf_b bf)"
  by (simp add: bf_upd_def)

lemma same_byte_bit: "i div 8 = j div 8 \<Longrightarrow> i mod 8 = j mod 8 \<Longrightarrow> i = (j::nat)"
  by (metis div_mult_mod_eq)

lemma bf_bit_set:
  assumes "i < 8 * length (bf_b bf)"
  shows "bf_bit (bf\<lparr>bf_b := bf_upd bf i set_bit\<rparr>) j \<longleftrightarrow> j = i \<or> bf_bit bf j"
  using bf_byte_in_range [OF assms]
  by (cases "i div 8 = j div 8")
    (auto simp: bf_bit_def bf_upd_def bit_set_bit_iff dest: same_byte_bit)

lemma bf_bit_clr:
  assumes "i < 8 * length (bf_b bf)"
  shows "bf_bit (bf\<lparr>bf_b := bf_upd bf i unset_bit\<rparr>) j \<longleftrightarrow> j \<noteq> i \<and> bf_bit bf j"
  using bf_byte_in_range [OF assms]
  by (cases "i div 8 = j div 8")
    (auto simp: bf_bit_def bf_upd_def bit_unset_bit_iff dest: same_byte_bit)

lemma wf_bf_len_ok: "wf_bf bf \<Longrightarrow> bf_len_ok bf"
  by (simp add: wf_bf_def bf_len_ok_def)

lemma finite_bf_free [simp]: "finite (bf_free bf)"
  by (simp add: bf_free_def)

lemma wf_bf_next_free [simp]: "wf_bf (bf\<lparr>next_free := n\<rparr>) = wf_bf bf"
  by (simp add: wf_bf_def)

lemma wf_bf_set:
  assumes "wf_bf bf" and "i \<in> bf_free bf"
  obtains bf' where "bf_set bf (int i) = Some bf'" "wf_bf bf'" "bf_free bf' = bf_free bf - {i}"
    "bf_size bf' = bf_size bf" "next_free bf' = next_free bf"
proof
  let ?bf = "bf\<lparr>bf_b := bf_upd bf i set_bit, available := available bf - 1\<rparr>"
  have i: "i < nat (bf_size bf)" "\<not> bf_bit bf i" and l: "bf_len_ok bf"
    using assms by (auto simp: bf_free_def wf_bf_len_ok)
  then have i8: "i < 8 * length (bf_b bf)" by (simp add: bf_len_ok_size)
  show "bf_set bf (int i) = Some ?bf"
    using l i8 i(2) by (rule bf_set_eq)
  show f: "bf_free ?bf = bf_free bf - {i}"
    using i8 by (auto simp: bf_free_def bf_bit_set)
  have "card (bf_free bf) > 0"
    using assms(2) by (auto simp: card_gt_0_iff)
  then have "available bf - 1 = int (card (bf_free bf - {i}))"
    using assms by (simp add: wf_bf_def card_Diff_singleton of_nat_diff)
  then have "available ?bf = int (card (bf_free ?bf))"
    using f by simp
  with assms(1) i8 show "wf_bf ?bf"
    by (auto simp: wf_bf_def bf_bit_set)
qed simp_all

lemma wf_bf_clr:
  assumes "wf_bf bf" and "i < nat (bf_size bf)" and "i \<notin> bf_free bf"
  obtains bf' where "bf_clr bf (int i) = Some bf'" "wf_bf bf'" "bf_free bf' = insert i (bf_free bf)"
    "bf_size bf' = bf_size bf" "next_free bf' = next_free bf"
proof
  let ?bf = "bf\<lparr>bf_b := bf_upd bf i unset_bit, available := available bf + 1\<rparr>"
  have i: "bf_bit bf i" and l: "bf_len_ok bf"
    using assms by (auto simp: bf_free_def wf_bf_len_ok)
  then have i8: "i < 8 * length (bf_b bf)" using assms(2) by (simp add: bf_len_ok_size)
  show "bf_clr bf (int i) = Some ?bf"
    using l i8 i by (rule bf_clr_eq)
  show f: "bf_free ?bf = insert i (bf_free bf)"
    using i8 assms(2) by (auto simp: bf_free_def bf_bit_clr)
  have "available bf + 1 = int (card (insert i (bf_free bf)))"
    using assms by (simp add: wf_bf_def)
  then have "available ?bf = int (card (bf_free ?bf))"
    using f by simp
  with assms i8 show "wf_bf ?bf"
    by (auto simp: wf_bf_def bf_bit_clr)
qed simp_all

subsection \<open>The search for a clear bit\<close>

lemma bf_scan_spec:
  assumes "0 \<le> lo" and "hi \<le> int (length field)"
  shows "\<exists>r. bf_scan field lo hi = Some r \<and>
    ((r = - 1 \<and> (\<forall>j. lo \<le> int j \<and> int j < hi \<longrightarrow> field ! j = 0xff)) \<or>
     (lo \<le> r \<and> r < hi \<and> field ! nat r \<noteq> 0xff))"
  using assms
proof (induction field lo hi rule: bf_scan.induct)
  case (1 field current limit)
  show ?case
  proof (cases "current < limit")
    case True
    with "1.prems" have a: "arr_get field current = Some (field ! nat current)"
      by (simp add: arr_get_def)
    show ?thesis
    proof (cases "field ! nat current = 0xff")
      case ff: True
      with "1.IH" [OF True a] "1.prems" obtain r where r: "bf_scan field (current + 1) limit = Some r"
        "(r = - 1 \<and> (\<forall>j. current + 1 \<le> int j \<and> int j < limit \<longrightarrow> field ! j = 0xff)) \<or>
         (current + 1 \<le> r \<and> r < limit \<and> field ! nat r \<noteq> 0xff)"
        by fastforce
      have "field ! j = 0xff"
        if "\<forall>j. current + 1 \<le> int j \<and> int j < limit \<longrightarrow> field ! j = 0xff"
          "current \<le> int j" "int j < limit" for j
        using that ff by (cases "int j = current") auto
      with r True a ff show ?thesis
        by (subst bf_scan.simps) auto
    next
      case False
      with True a show ?thesis by (subst bf_scan.simps) auto
    qed
  next
    case False
    then show ?thesis by (subst bf_scan.simps) auto
  qed
qed

lemma bf_find_next_free_byte_spec:
  assumes "bf_len_ok bf" and "hint_ok bf"
  obtains r where "bf_find_next_free_byte (bf_b bf) (next_free bf) (bf_size bf) = Some r"
    and "r = - 1 \<Longrightarrow> \<forall>j < length (bf_b bf). bf_b bf ! j = 0xff"
    and "r \<noteq> - 1 \<Longrightarrow> 0 \<le> r \<and> nat r < length (bf_b bf) \<and> bf_b bf ! nat r \<noteq> 0xff"
proof -
  let ?n = "next_free bf div 8" and ?l = "int (length (bf_b bf))"
  have sz: "(bf_size bf + 7) div 8 = ?l"
    using assms(1) by (simp add: bf_len_ok_bytes)
  have n: "0 \<le> ?n" "?n \<le> ?l"
    using assms zdiv_mono1 [of "next_free bf" "bf_size bf + 7" 8]
    by (auto simp: hint_ok_def bf_len_ok_bytes [symmetric])
  obtain r1 where r1: "bf_scan (bf_b bf) ?n ?l = Some r1"
    "(r1 = - 1 \<and> (\<forall>j. ?n \<le> int j \<and> int j < ?l \<longrightarrow> bf_b bf ! j = 0xff)) \<or>
     (?n \<le> r1 \<and> r1 < ?l \<and> bf_b bf ! nat r1 \<noteq> 0xff)"
    using bf_scan_spec [OF n(1), of ?l "bf_b bf"] by auto
  obtain r2 where r2: "bf_scan (bf_b bf) 0 ?n = Some r2"
    "(r2 = - 1 \<and> (\<forall>j. 0 \<le> int j \<and> int j < ?n \<longrightarrow> bf_b bf ! j = 0xff)) \<or>
     (0 \<le> r2 \<and> r2 < ?n \<and> bf_b bf ! nat r2 \<noteq> 0xff)"
    using bf_scan_spec [of 0 ?n "bf_b bf"] n by auto
  show thesis
  proof (rule that)
    show "bf_find_next_free_byte (bf_b bf) (next_free bf) (bf_size bf)
        = Some (if r1 \<noteq> - 1 then r1 else r2)"
      by (simp add: bf_find_next_free_byte_def Let_def sz r1(1) r2(1))
    show "\<forall>j < length (bf_b bf). bf_b bf ! j = 0xff" if "(if r1 \<noteq> - 1 then r1 else r2) = - 1"
      using that r1(2) r2(2) n by (force split: if_splits simp: not_less)
  qed (use r1(2) r2(2) n in \<open>auto split: if_splits\<close>)
qed

lemma bf_bit_scan_spec:
  "(bf_bit_scan v n i = - 1 \<and> (\<forall>k. i \<le> k \<and> k < i + n \<longrightarrow> bit v k)) \<or>
   (\<exists>k. bf_bit_scan v n i = int k \<and> i \<le> k \<and> k < i + n \<and> \<not> bit v k)"
proof (induction n arbitrary: i)
  case (Suc n)
  show ?case
  proof (cases "bit v i")
    case True
    then have s: "bf_bit_scan v (Suc n) i = bf_bit_scan v n (Suc i)"
      by (simp add: bit_iff_and_push_bit_not_eq_0)
    have "bit v k" if "\<forall>k. Suc i \<le> k \<and> k < Suc i + n \<longrightarrow> bit v k" "i \<le> k" "k < i + Suc n" for k
      using that True by (cases "k = i") auto
    with Suc.IH [of "Suc i"] s show ?thesis by auto
  next
    case False
    then show ?thesis by (auto simp: bit_iff_and_push_bit_not_eq_0)
  qed
qed auto

lemma bf_find_next_free_bit_spec:
  assumes "v \<noteq> 0xff"
  obtains k where "bf_find_next_free_bit v = Some (int k)" "k < 8" "\<not> bit v k"
proof -
  have "\<exists>k<8. \<not> bit v k"
  proof (rule ccontr)
    assume "\<not> ?thesis"
    then have "v = - 1" by (intro bit_word_eqI) auto
    with assms show False by simp
  qed
  with bf_bit_scan_spec [of v 8 0] assms that show thesis
    by (auto simp: bf_find_next_free_bit_def)
qed

lemma wf_bf_all_ff:
  assumes "wf_bf bf" and "\<forall>j < length (bf_b bf). bf_b bf ! j = 0xff"
  shows "available bf = 0"
proof -
  have "bf_bit bf i" if "i < nat (bf_size bf)" for i
  proof -
    have "i div 8 < length (bf_b bf)"
      using that assms(1) by (intro bf_byte_in_range) (simp add: bf_len_ok_size wf_bf_len_ok)
    then have "bf_b bf ! (i div 8) = - 1" using assms(2) by simp
    then show ?thesis by (simp add: bf_bit_def)
  qed
  then have "bf_free bf = {}" by (auto simp: bf_free_def)
  with assms(1) show ?thesis by (simp add: wf_bf_def)
qed

lemma bf_set_next_free_full:
  "available bf = 0 \<Longrightarrow> bf_set_next_free bf = Some (- 1, bf)"
  by (simp add: bf_set_next_free_def Let_def)

lemma bf_set_next_free_alloc:
  assumes wf: "wf_bf bf" and h: "hint_ok bf" and av: "available bf \<noteq> 0"
  obtains i bf' where "bf_set_next_free bf = Some (int i, bf')" "i \<in> bf_free bf"
    "bf_free bf' = bf_free bf - {i}" "wf_bf bf'" "hint_ok bf'" "bf_size bf' = bf_size bf"
proof -
  obtain r where r: "bf_find_next_free_byte (bf_b bf) (next_free bf) (bf_size bf) = Some r"
    "r = - 1 \<Longrightarrow> \<forall>j < length (bf_b bf). bf_b bf ! j = 0xff"
    "r \<noteq> - 1 \<Longrightarrow> 0 \<le> r \<and> nat r < length (bf_b bf) \<and> bf_b bf ! nat r \<noteq> 0xff"
    using bf_find_next_free_byte_spec [OF wf_bf_len_ok [OF wf] h] by blast
  have r1: "r \<noteq> - 1" using wf_bf_all_ff [OF wf] r(2) av by blast
  define b where "b = nat r"
  have b: "r = int b" "b < length (bf_b bf)" "bf_b bf ! b \<noteq> 0xff"
    using r(3) [OF r1] by (auto simp: b_def)
  obtain k where k: "bf_find_next_free_bit (bf_b bf ! b) = Some (int k)" "k < 8" "\<not> bit (bf_b bf ! b) k"
    using bf_find_next_free_bit_spec [OF b(3)] by blast
  let ?i = "b * 8 + k"
  have "\<not> bf_bit bf ?i" "?i < 8 * length (bf_b bf)"
    using b k by (auto simp: bf_bit_def)
  then have i: "?i \<in> bf_free bf"
    using wf by (auto simp: bf_free_def wf_bf_def not_less [symmetric])
  obtain bf' where bf': "bf_set bf (int ?i) = Some bf'" "wf_bf bf'" "bf_free bf' = bf_free bf - {?i}"
    "bf_size bf' = bf_size bf"
    using wf_bf_set [OF wf i] by blast
  have "int ?i < bf_size bf" using i wf by (auto simp: bf_free_def wf_bf_def)
  moreover have "bf_set_next_free bf = Some (int ?i, bf'\<lparr>next_free := int ?i + 1\<rparr>)"
    using r(1) r1 b k av bf'(1) \<open>int ?i < bf_size bf\<close> by (simp add: bf_set_next_free_def Let_def)
  ultimately show thesis
    using bf' i by (intro that [of ?i "bf'\<lparr>next_free := int ?i + 1\<rparr>"]) (auto simp: hint_ok_def)
qed

subsection \<open>Construction\<close>

lemma new_bitfield_filled:
  assumes "0 \<le> sz"
  shows "\<exists>bf. new_bitfield True True sz BITFIELD_INIT_FILLED = Some (Some bf) \<and> wf_bf bf \<and> hint_ok bf \<and>
    bf_size bf = sz \<and> bf_free bf = {}"
proof -
  let ?bf = "\<lparr>next_free = 0, available = 0, bf_size = sz, bf_b = replicate (nat ((sz + 7) div 8)) 0xff\<rparr>"
  have len: "nat ((sz + 7) div 8) = (nat sz + 7) div 8"
    using assms by (simp add: nat_div_distrib nat_add_distrib)
  have "bf_bit ?bf i" if "i < 8 * ((nat sz + 7) div 8)" for i
  proof -
    have "i div 8 < (nat sz + 7) div 8" using that by linarith
    then have "bf_b ?bf ! (i div 8) = - 1" by (simp add: len)
    then show ?thesis unfolding bf_bit_def by simp
  qed
  moreover from this have "bf_free ?bf = {}"
    by (auto simp: bf_free_def)
  ultimately show ?thesis
    using assms by (auto simp: new_bitfield_def wf_bf_def hint_ok_def len)
qed

text \<open>State of the \<^verbatim>\<open>BITFIELD_INIT_EMPTY\<close> loop after the padding bits below \<open>k\<close> are marked.\<close>

definition empty_loop_inv :: "int \<Rightarrow> nat \<Rightarrow> bitfield_t \<Rightarrow> bool" where
  "empty_loop_inv sz k bf \<longleftrightarrow> bf_len_ok bf \<and> bf_size bf = sz \<and> next_free bf = 0 \<and>
     available bf = sz - (int k - sz) \<and>
     (\<forall>i < 8 * length (bf_b bf). bf_bit bf i \<longleftrightarrow> nat sz \<le> i \<and> i < k)"

lemma empty_loop_step:
  assumes "empty_loop_inv sz k bf" and "nat sz \<le> k" and "k < 8 * ((nat sz + 7) div 8)"
  shows "\<exists>bf'. bf_set bf (int k) = Some bf' \<and> empty_loop_inv sz (Suc k) bf'"
proof -
  have k8: "k < 8 * length (bf_b bf)"
    using assms by (simp add: empty_loop_inv_def bf_len_ok_def)
  then have "\<not> bf_bit bf k" using assms by (auto simp: empty_loop_inv_def)
  with assms(1) k8 have "bf_set bf (int k)
      = Some (bf\<lparr>bf_b := bf_upd bf k set_bit, available := available bf - 1\<rparr>)"
    by (intro bf_set_eq) (auto simp: empty_loop_inv_def)
  moreover have "empty_loop_inv sz (Suc k)
      (bf\<lparr>bf_b := bf_upd bf k set_bit, available := available bf - 1\<rparr>)"
    using assms k8 by (auto simp: empty_loop_inv_def bf_bit_set bf_len_ok_def less_Suc_eq)
  ultimately show ?thesis by simp
qed

lemma new_bitfield_empty:
  assumes "0 \<le> sz"
  shows "\<exists>bf. new_bitfield True True sz BITFIELD_INIT_EMPTY = Some (Some bf) \<and> bf_len_ok bf \<and>
    hint_ok bf \<and> bf_size bf = sz \<and> bf_free bf = {..<nat sz} \<and>
    (\<forall>i. nat sz \<le> i \<and> i < 8 * length (bf_b bf) \<longrightarrow> bf_bit bf i) \<and>
    available bf = sz - (8 * ((sz + 7) div 8) - sz)"
proof -
  let ?bytes = "(nat sz + 7) div 8"
  let ?bf = "\<lparr>next_free = 0, available = sz, bf_size = sz, bf_b = replicate ?bytes 0\<rparr>"
  have len: "nat ((sz + 7) div 8) = ?bytes" "8 * ((sz + 7) div 8) = int (8 * ?bytes)"
    using assms by (simp_all add: nat_div_distrib nat_add_distrib zdiv_int)
  have "nat sz \<le> 8 * ?bytes" by linarith
  moreover have "nat ((sz + 7) div 8 * 8 - sz) = 8 * ?bytes - nat sz"
    using assms len(2) by linarith
  ultimately have n: "nat ((sz + 7) div 8 * 8 - sz) = 8 * ?bytes - nat sz" "nat sz \<le> 8 * ?bytes"
    by simp_all
  have 0: "empty_loop_inv sz (nat sz) ?bf"
    using assms bf_byte_in_range [of _ ?bf]
    by (auto simp: empty_loop_inv_def bf_len_ok_def bf_bit_def)
  obtain bf where bf: "for_loop (\<lambda>i bf. bf_set bf (int i)) (8 * ?bytes - nat sz) (nat sz) ?bf = Some bf"
    "empty_loop_inv sz (8 * ?bytes) bf"
    using for_loop_inv [of "empty_loop_inv sz" "nat sz" ?bf "8 * ?bytes - nat sz"
        "\<lambda>i bf. bf_set bf (int i)", OF 0] empty_loop_step [of sz] n(2)
    by auto
  have "new_bitfield True True sz BITFIELD_INIT_EMPTY = Some (Some bf)"
    using bf(1) by (simp add: new_bitfield_def len n)
  moreover have "length (bf_b bf) = ?bytes" "bf_size bf = sz"
    using bf(2) by (auto simp: empty_loop_inv_def bf_len_ok_def)
  ultimately show ?thesis
    using bf(2) n(2) assms by (auto simp: empty_loop_inv_def bf_free_def hint_ok_def len)
qed

section \<open>The interface to allocators\<close>

text \<open>
  What an allocator built on a bitmap relies on: single-bit reads, sets and clears act on the
  abstract set of clear bits and keep the invariant, the capacity and the search hint. The laws
  give the behaviour of the loops that set or clear a run of bits.
\<close>

locale bit_pool =
  fixes pget :: "'b \<Rightarrow> int \<Rightarrow> bool option"
    and pset :: "'b \<Rightarrow> int \<Rightarrow> 'b option"
    and pclr :: "'b \<Rightarrow> int \<Rightarrow> 'b option"
    and pfree :: "'b \<Rightarrow> nat set"
    and pcap :: "'b \<Rightarrow> nat"
    and pwf :: "'b \<Rightarrow> bool"
    and phint :: "'b \<Rightarrow> int"
  assumes get_law: "pwf b \<Longrightarrow> i < pcap b \<Longrightarrow> pget b (int i) = Some (i \<notin> pfree b)"
    and set_law: "pwf b \<Longrightarrow> i \<in> pfree b \<Longrightarrow>
      \<exists>b'. pset b (int i) = Some b' \<and> pwf b' \<and> pfree b' = pfree b - {i} \<and> pcap b' = pcap b \<and> phint b' = phint b"
    and clr_law: "pwf b \<Longrightarrow> i < pcap b \<Longrightarrow> i \<notin> pfree b \<Longrightarrow>
      \<exists>b'. pclr b (int i) = Some b' \<and> pwf b' \<and> pfree b' = insert i (pfree b) \<and> pcap b' = pcap b \<and> phint b' = phint b"
begin

lemma clr_range:
  assumes "pwf b" and "m + n \<le> pcap b" and "pfree b \<inter> {m..<m + n} = {}"
  shows "\<exists>b'. for_loop (\<lambda>i b. pclr b (int m + int i)) n 0 b = Some b' \<and> pwf b' \<and>
    pfree b' = pfree b \<union> {m..<m + n} \<and> pcap b' = pcap b \<and> phint b' = phint b"
proof -
  define P where "P k t \<longleftrightarrow> pwf t \<and> pfree t = pfree b \<union> {m..<m + k} \<and> pcap t = pcap b \<and> phint t = phint b" for k t
  have "\<exists>t. for_loop (\<lambda>i b. pclr b (int m + int i)) n 0 b = Some t \<and> P (0 + n) t"
  proof (rule for_loop_inv)
    show "P 0 b" using assms by (simp add: P_def)
    fix k t assume k: "k < 0 + n" "P k t"
    then have "m + k \<notin> pfree b" using assms(3) by auto
    with k show "\<exists>t'. pclr t (int m + int k) = Some t' \<and> P (Suc k) t'"
      using clr_law [of t "m + k"] assms by (fastforce simp: P_def atLeastLessThanSuc)
  qed
  then show ?thesis by (simp add: P_def)
qed

lemma set_range:
  assumes "pwf b" and "{m..<m + n} \<subseteq> pfree b"
  shows "\<exists>b'. for_loop (\<lambda>i b. pset b (int m + int i)) n 0 b = Some b' \<and> pwf b' \<and>
    pfree b' = pfree b - {m..<m + n} \<and> pcap b' = pcap b \<and> phint b' = phint b"
proof -
  define P where "P k t \<longleftrightarrow> pwf t \<and> pfree t = pfree b - {m..<m + k} \<and> pcap t = pcap b \<and> phint t = phint b" for k t
  have "\<exists>t. for_loop (\<lambda>i b. pset b (int m + int i)) n 0 b = Some t \<and> P (0 + n) t"
  proof (rule for_loop_inv)
    show "P 0 b" using assms by (simp add: P_def)
    fix k t assume k: "k < 0 + n" "P k t"
    then have "m + k \<in> pfree b" using assms(2) by auto
    with k show "\<exists>t'. pset t (int m + int k) = Some t' \<and> P (Suc k) t'"
      using set_law [of t "m + k"] assms by (fastforce simp: P_def atLeastLessThanSuc)
  qed
  then show ?thesis by (simp add: P_def)
qed

end

interpretation bfp: bit_pool bf_get bf_set bf_clr bf_free "\<lambda>bf. nat (bf_size bf)" wf_bf next_free
proof
  fix b i assume wf: "wf_bf b"
  show "bf_get b (int i) = Some (i \<notin> bf_free b)" if "i < nat (bf_size b)"
    using wf that by (simp add: bf_get_eq wf_bf_len_ok bf_len_ok_size) (simp add: bf_free_def)
  show "\<exists>b'. bf_set b (int i) = Some b' \<and> wf_bf b' \<and> bf_free b' = bf_free b - {i} \<and>
      nat (bf_size b') = nat (bf_size b) \<and> next_free b' = next_free b" if "i \<in> bf_free b"
    by (rule wf_bf_set [OF wf that]) simp
  show "\<exists>b'. bf_clr b (int i) = Some b' \<and> wf_bf b' \<and> bf_free b' = insert i (bf_free b) \<and>
      nat (bf_size b') = nat (bf_size b) \<and> next_free b' = next_free b"
    if "i < nat (bf_size b)" "i \<notin> bf_free b"
    by (rule wf_bf_clr [OF wf that]) simp
qed

subsection \<open>Evaluating the invariant\<close>

lemma bf_free_code [code]: "bf_free bf = set (filter (\<lambda>i. \<not> bf_bit bf i) [0..<nat (bf_size bf)])"
  by (auto simp: bf_free_def)

lemma wf_bf_code [code]:
  "wf_bf bf \<longleftrightarrow> 0 \<le> bf_size bf \<and> length (bf_b bf) = (nat (bf_size bf) + 7) div 8 \<and>
     (\<forall>i \<in> set [nat (bf_size bf)..<8 * length (bf_b bf)]. bf_bit bf i) \<and>
     available bf = int (length (filter (\<lambda>i. \<not> bf_bit bf i) [0..<nat (bf_size bf)]))"
proof -
  have "card (bf_free bf) = length (filter (\<lambda>i. \<not> bf_bit bf i) [0..<nat (bf_size bf)])"
    unfolding bf_free_code by (rule distinct_card) simp
  then show ?thesis by (auto simp: wf_bf_def)
qed

section \<open>Properties\<close>

text \<open>C4: On a well-formed bitfield whose hint lies in the map, \<^verbatim>\<open>bf_set_next_free\<close> never aborts. With no
  clear bit it returns \<open>-1\<close> and changes nothing; otherwise it returns an offset that was clear and
  in range, sets exactly that bit, and keeps the invariant.\<close>

theorem bf_set_next_free_correct:
  assumes "wf_bf bf" and "hint_ok bf"
  shows "if bf_free bf = {} then bf_set_next_free bf = Some (- 1, bf)
    else \<exists>i bf'. bf_set_next_free bf = Some (int i, bf') \<and> i \<in> bf_free bf \<and>
      bf_free bf' = bf_free bf - {i} \<and> wf_bf bf' \<and> hint_ok bf' \<and> bf_size bf' = bf_size bf"
proof -
  have "bf_free bf = {} \<longleftrightarrow> available bf = 0"
    using assms(1) by (auto simp: wf_bf_def)
  moreover have "\<exists>i bf'. bf_set_next_free bf = Some (int i, bf') \<and> i \<in> bf_free bf \<and>
      bf_free bf' = bf_free bf - {i} \<and> wf_bf bf' \<and> hint_ok bf' \<and> bf_size bf' = bf_size bf"
    if "available bf \<noteq> 0"
    by (rule bf_set_next_free_alloc [OF assms that]) blast
  ultimately show ?thesis
    by (simp add: bf_set_next_free_full)
qed

theorem bf_set_next_free_correct_witness:
  "\<exists>i bf'. bf_set_next_free \<lparr>next_free = 8, available = 1, bf_size = 12, bf_b = [0xf7, 0xff]\<rparr> = Some (int i, bf') \<and>
     bf_free bf' = {} \<and> wf_bf bf'"
proof -
  let ?bf = "\<lparr>next_free = 8, available = 1, bf_size = 12, bf_b = [0xf7, 0xff]\<rparr>"
  have "bf_free ?bf = {3}" "wf_bf ?bf" "hint_ok ?bf" by code_simp+
  with bf_set_next_free_correct [of ?bf] show ?thesis by auto
qed

text \<open>C8: A bitfield created filled is well formed and has no clear bit. One created empty has every bit
  below its size clear and every padding bit set, and its count of clear bits is short by the number of
  padding bits (each is marked with \<^verbatim>\<open>bf_set\<close>, which decrements it), so it is exact only for
  sizes that are multiples of eight.\<close>

theorem new_bitfield_correct:
  assumes "0 \<le> sz"
  shows "\<exists>bf. new_bitfield True True sz state = Some (Some bf) \<and> hint_ok bf \<and> bf_size bf = sz \<and>
    bf_free bf = (case state of BITFIELD_INIT_FILLED \<Rightarrow> {} | BITFIELD_INIT_EMPTY \<Rightarrow> {..<nat sz}) \<and>
    (state = BITFIELD_INIT_FILLED \<longrightarrow> wf_bf bf) \<and>
    (state = BITFIELD_INIT_EMPTY \<longrightarrow> available bf = sz - (8 * ((sz + 7) div 8) - sz) \<and> (wf_bf bf \<longleftrightarrow> sz mod 8 = 0))"
proof (cases state)
  case BITFIELD_INIT_FILLED
  then show ?thesis using new_bitfield_filled [OF assms] by auto
next
  case BITFIELD_INIT_EMPTY
  have "8 * ((sz + 7) div 8) = sz \<longleftrightarrow> sz mod 8 = 0" by presburger
  then show ?thesis
    using new_bitfield_empty [OF assms] BITFIELD_INIT_EMPTY assms
    by (force simp: wf_bf_def bf_len_ok_def)
qed

theorem new_bitfield_correct_witness:
  "\<exists>bf. new_bitfield True True 12 BITFIELD_INIT_EMPTY = Some (Some bf) \<and> available bf = 8 \<and> card (bf_free bf) = 12 \<and> \<not> wf_bf bf"
  using new_bitfield_correct [of 12 BITFIELD_INIT_EMPTY] by auto

end
