(* ===== verification/Blocks.thy ===== *)
theory Blocks
  imports Main "HOL-Library.Disjoint_Sets"
begin

text \<open>
  Aligned memory blocks and partitions of an address range into blocks, the vocabulary in which
  the untyped-memory allocator is specified. A block \<open>(a, s)\<close> is the \<open>2 ^ s\<close> bytes from
  address \<open>a\<close>.
\<close>

type_synonym block = "nat \<times> nat"

fun span :: "block \<Rightarrow> nat set" where
  "span (a, s) = {a..<a + 2 ^ s}"

definition partition_of :: "nat set \<Rightarrow> block set \<Rightarrow> bool" where
  "partition_of R B \<longleftrightarrow> disjoint_family_on span B \<and> (\<Union>b\<in>B. span b) = R"

lemma span_nonempty [simp]: "span b \<noteq> {}"
  by (cases b) auto

lemma partition_unique:
  assumes "partition_of R B" "x \<in> B" "y \<in> B" "span x \<inter> span y \<noteq> {}"
  shows "x = y"
  using assms by (auto simp: partition_of_def dest: disjoint_family_onD)

lemma partition_disjoint:
  "partition_of R B \<Longrightarrow> x \<in> B \<Longrightarrow> y \<in> B \<Longrightarrow> x \<noteq> y \<Longrightarrow> span x \<inter> span y = {}"
  using partition_unique by blast

lemma partition_sub:
  "partition_of R B \<Longrightarrow> x \<in> B \<Longrightarrow> span x \<subseteq> R"
  by (auto simp: partition_of_def)

text \<open>A block may be replaced by a partition of it, and back.\<close>

lemma partition_split_new:
  assumes "partition_of R B" "x \<in> B" "partition_of (span x) C" "c \<in> C" "c \<in> B"
  shows "c = x"
proof -
  have "span c \<subseteq> span x" using partition_sub [OF assms(3,4)] .
  then show ?thesis
    using partition_unique [OF assms(1) assms(5,2)] span_nonempty [of c] by blast
qed

lemma partition_split:
  assumes B: "partition_of R B" and x: "x \<in> B" and C: "partition_of (span x) C"
  shows "partition_of R (B - {x} \<union> C)"
proof -
  have CB: "span c \<inter> span b = {}" if "c \<in> C" "b \<in> B" "b \<noteq> x" for b c
  proof -
    have "span c \<subseteq> span x" using partition_sub [OF C that(1)] .
    moreover have "span b \<inter> span x = {}" using partition_disjoint [OF B that(2) x that(3)] .
    ultimately show ?thesis by blast
  qed
  have "disjoint_family_on span (B - {x} \<union> C)"
    unfolding disjoint_family_on_def
  proof (intro ballI impI)
    fix m n assume "m \<in> B - {x} \<union> C" "n \<in> B - {x} \<union> C" "m \<noteq> n"
    then show "span m \<inter> span n = {}"
      using partition_disjoint [OF B] partition_disjoint [OF C] CB
      by (metis DiffE Int_commute UnE singletonI)
  qed
  moreover have "(\<Union>b\<in>B - {x} \<union> C. span b) = R"
    using B C x by (auto simp: partition_of_def)
  ultimately show ?thesis by (simp add: partition_of_def)
qed

lemma partition_merge:
  assumes B: "partition_of R B" and CB: "C \<subseteq> B" and C: "partition_of (span x) C"
  shows "partition_of R (insert x (B - C))"
proof -
  have xb: "span x \<inter> span b = {}" if "b \<in> B - C" for b
  proof -
    have "span c \<inter> span b = {}" if "c \<in> C" for c
      using partition_disjoint [OF B, of c b] CB that \<open>b \<in> B - C\<close> by auto
    moreover have "span x = (\<Union>c\<in>C. span c)" using C by (simp add: partition_of_def)
    ultimately show ?thesis by blast
  qed
  have "disjoint_family_on span (insert x (B - C))"
    unfolding disjoint_family_on_def
  proof (intro ballI impI)
    fix m n assume mn: "m \<in> insert x (B - C)" "n \<in> insert x (B - C)" "m \<noteq> n"
    have "span m \<inter> span n = {}" if "m \<in> B - C" "n \<in> B - C"
      using partition_disjoint [OF B] that mn(3) by simp
    with mn xb show "span m \<inter> span n = {}"
      by (metis Int_commute insertE)
  qed
  moreover have "(\<Union>b\<in>insert x (B - C). span b) = R"
  proof -
    have "(\<Union>b\<in>B. span b) = (\<Union>b\<in>C. span b) \<union> (\<Union>b\<in>B - C. span b)" using CB by blast
    with B C show ?thesis by (simp add: partition_of_def)
  qed
  ultimately show ?thesis by (simp add: partition_of_def)
qed

section \<open>Cutting a range into equal blocks\<close>

definition slices :: "nat \<Rightarrow> nat \<Rightarrow> nat \<Rightarrow> block set" where
  "slices a s n = (\<lambda>i. (a + i * 2 ^ s, s)) ` {..<n}"

lemma slices_iff: "b \<in> slices a s n \<longleftrightarrow> (\<exists>i<n. b = (a + i * 2 ^ s, s))"
  by (auto simp: slices_def)

lemma slices_nonempty [simp]: "slices a s (2 ^ k) \<noteq> {}"
  by (simp add: slices_def lessThan_empty_iff)

lemma block_idx_inj [simp]: "(a + i * 2 ^ s, s) = (a + j * 2 ^ s, s) \<longleftrightarrow> i = (j::nat)"
  by simp

lemma span_idx: "x \<in> span (a + i * 2 ^ s, s) \<longleftrightarrow> a \<le> x \<and> (x - a) div 2 ^ s = i"
proof
  assume "x \<in> span (a + i * 2 ^ s, s)"
  then have "a \<le> x" "i * 2 ^ s \<le> x - a" "x - a < i * 2 ^ s + 2 ^ s" by auto
  then show "a \<le> x \<and> (x - a) div 2 ^ s = i"
    by (auto intro: div_nat_eqI simp: mult.commute)
next
  assume x: "a \<le> x \<and> (x - a) div 2 ^ s = i"
  have "(x - a) div 2 ^ s * 2 ^ s \<le> x - a" by (rule div_times_less_eq_dividend)
  moreover have "x - a < (x - a) div 2 ^ s * 2 ^ s + 2 ^ s"
    by (metis add_diff_cancel_left' div_mult_mod_eq mod_less_divisor nat_add_left_cancel_less zero_less_numeral zero_less_power)
  ultimately show "x \<in> span (a + i * 2 ^ s, s)" using x by (simp del: div_times_less_eq_dividend) linarith
qed

lemma partition_slices: "partition_of {a..<a + n * 2 ^ s} (slices a s n)"
proof -
  have "disjoint_family_on span (slices a s n)"
    by (auto simp: disjoint_family_on_def slices_iff span_idx simp del: span.simps)
  moreover have "(\<Union>b\<in>slices a s n. span b) = {x. a \<le> x \<and> (x - a) div 2 ^ s < n}"
    by (fastforce simp: slices_iff span_idx simp del: span.simps)
  moreover have "\<dots> = {a..<a + n * 2 ^ s}"
    by (auto simp: div_less_iff_less_mult)
  ultimately show ?thesis by (simp add: partition_of_def)
qed

lemma partition_slices_block:
  assumes "s \<le> t"
  shows "partition_of (span (a, t)) (slices a s (2 ^ (t - s)))"
  using partition_slices [of a "2 ^ (t - s)" s] assms by (simp flip: power_add)

end
