(* ===== verification/UtAlloc.thy ===== *)
theory UtAlloc
  imports Bitfield Blocks
begin

text \<open>
  The untyped-memory allocator of \<^verbatim>\<open>ut_manager/ut_allocator.c\<close>: three bitfield pools of 16 KB,
  4 KB and 1 KB blocks and two lists of sub-allocators that cut 16 KB slabs into 512-byte and
  16-byte blocks. A pool that is a null pointer is \<^const>\<open>None\<close>, so dereferencing it aborts. The
  doubly linked lists of sub-allocators are lists of nodes; a node is named by its position.
  An allocation takes \<open>mok\<close>, which says whether the \<open>i\<close>-th \<^verbatim>\<open>malloc\<close> of the call succeeds.
\<close>

section \<open>State\<close>

record suballocator_t =
  sub_base :: u32
  sub_bitfield :: bitfield_t

record ut_allocator =
  pool14 :: "bitfield_t option"
  pool12 :: "bitfield_t option"
  pool10 :: "bitfield_t option"
  pool9 :: "suballocator_t list"
  pool4 :: "suballocator_t list"
  ut_initialised :: bool
  pool_base :: u32

definition FLOOR14 :: "u32 \<Rightarrow> u32" where
  "FLOOR14 x = x AND NOT (push_bit 14 1 - 1)"

definition CEILING14 :: "u32 \<Rightarrow> u32" where
  "CEILING14 x = FLOOR14 (x + push_bit 14 1 - 1)"

text \<open>Selection of a pool by block size; other sizes fail the assertion.\<close>

definition bf_pool :: "nat \<Rightarrow> ut_allocator \<Rightarrow> bitfield_t option" where
  "bf_pool sizebits st =
     (if sizebits = 14 then pool14 st
      else if sizebits = 12 then pool12 st
      else if sizebits = 10 then pool10 st
      else None)"

definition set_bf_pool :: "nat \<Rightarrow> bitfield_t \<Rightarrow> ut_allocator \<Rightarrow> ut_allocator" where
  "set_bf_pool sizebits bf st =
     (if sizebits = 14 then st\<lparr>pool14 := Some bf\<rparr>
      else if sizebits = 12 then st\<lparr>pool12 := Some bf\<rparr>
      else if sizebits = 10 then st\<lparr>pool10 := Some bf\<rparr>
      else st)"

section \<open>Bitfield pools\<close>

definition bitfield_fill_pool :: "nat \<Rightarrow> ut_allocator \<Rightarrow> ut_allocator option" where
  "bitfield_fill_pool sizebits st =
     (if sizebits \<noteq> 14 then do {
        primary \<leftarrow> pool14 st;
        (offset, primary) \<leftarrow> bf_set_next_free primary;
        bf \<leftarrow> bf_pool sizebits st;
        (offset, bf) \<leftarrow>
          (if offset \<noteq> - 1 then do {
             let offset = push_bit (14 - sizebits) offset;
             bf \<leftarrow> for_loop (\<lambda>i bf. bf_clr bf (offset + int i)) (2 ^ (14 - sizebits)) 0 bf;
             Some (offset, bf) }
           else Some (offset, bf));
        Some (set_bf_pool sizebits (bf\<lparr>next_free := offset\<rparr>) (st\<lparr>pool14 := Some primary\<rparr>)) }
      else Some st)"

text \<open>The loop that checks whether \<open>n\<close> bits from \<open>base\<close> are all clear.\<close>

fun all_clear :: "bitfield_t \<Rightarrow> int \<Rightarrow> nat \<Rightarrow> bool option" where
  "all_clear bf base 0 = Some True"
| "all_clear bf base (Suc n) = do {
     g \<leftarrow> bf_get bf base;
     if g then Some False else all_clear bf (base + 1) n }"

definition bitfield_merge_up :: "nat \<Rightarrow> int \<Rightarrow> ut_allocator \<Rightarrow> ut_allocator option" where
  "bitfield_merge_up sizebits offset st =
     (if sizebits \<noteq> 14 then do {
        let sublevel_units = 2 ^ (14 - sizebits);
        let sublevel_base = offset AND NOT (int sublevel_units - 1);
        let primary_base = drop_bit (14 - sizebits) sublevel_base;
        bf \<leftarrow> bf_pool sizebits st;
        mergeable \<leftarrow> all_clear bf sublevel_base sublevel_units;
        if \<not> mergeable then Some st
        else do {
          bf \<leftarrow> for_loop (\<lambda>i bf. bf_set bf (sublevel_base + int i)) sublevel_units 0 bf;
          primary \<leftarrow> pool14 st;
          primary \<leftarrow> bf_clr primary primary_base;
          Some (set_bf_pool sizebits bf (st\<lparr>pool14 := Some primary\<rparr>)) } }
      else Some st)"

definition do_ut_alloc_from_bitfield :: "nat \<Rightarrow> ut_allocator \<Rightarrow> (u32 \<times> ut_allocator) option" where
  "do_ut_alloc_from_bitfield sizebits st = do {
     pool \<leftarrow> bf_pool sizebits st;
     (offset, pool) \<leftarrow> bf_set_next_free pool;
     let st = set_bf_pool sizebits pool st;
     (offset, st) \<leftarrow>
       (if offset = - 1 then do {
          st \<leftarrow> bitfield_fill_pool sizebits st;
          pool \<leftarrow> bf_pool sizebits st;
          (offset, pool) \<leftarrow> bf_set_next_free pool;
          Some (offset, set_bf_pool sizebits pool st) }
        else Some (offset, st));
     let addr = (if offset = - 1 then 0
                 else word_of_int (push_bit sizebits offset) + pool_base st);
     Some (addr, st) }"

definition do_ut_free_from_bitfield :: "u32 \<Rightarrow> nat \<Rightarrow> ut_allocator \<Rightarrow> ut_allocator option" where
  "do_ut_free_from_bitfield addr sizebits st = do {
     pool \<leftarrow> bf_pool sizebits st;
     let offset = uint (drop_bit sizebits (addr - pool_base st));
     pool \<leftarrow> bf_clr pool offset;
     bitfield_merge_up sizebits offset (set_bf_pool sizebits pool st) }"

section \<open>Sub-allocator lists\<close>

definition sub_pool :: "nat \<Rightarrow> ut_allocator \<Rightarrow> suballocator_t list option" where
  "sub_pool sizebits st =
     (if sizebits = 9 then Some (pool9 st)
      else if sizebits = 4 then Some (pool4 st)
      else None)"

definition set_sub_pool :: "nat \<Rightarrow> suballocator_t list \<Rightarrow> ut_allocator \<Rightarrow> ut_allocator" where
  "set_sub_pool sizebits ns st =
     (if sizebits = 9 then st\<lparr>pool9 := ns\<rparr> else if sizebits = 4 then st\<lparr>pool4 := ns\<rparr> else st)"

definition pool_list_detach :: "nat \<Rightarrow> suballocator_t list \<Rightarrow> suballocator_t list" where
  "pool_list_detach i ns = take i ns @ drop (Suc i) ns"

definition pool_list_attach :: "suballocator_t list \<Rightarrow> suballocator_t \<Rightarrow> suballocator_t list" where
  "pool_list_attach ns node = node # ns"

fun pool_list_find_base :: "suballocator_t list \<Rightarrow> u32 \<Rightarrow> nat option" where
  "pool_list_find_base [] base = None"
| "pool_list_find_base (n # ns) base =
     (if sub_base n = base then Some 0 else map_option Suc (pool_list_find_base ns base))"

fun pool_list_find_free :: "suballocator_t list \<Rightarrow> nat option" where
  "pool_list_find_free [] = None"
| "pool_list_find_free (n # ns) =
     (if available (sub_bitfield n) \<noteq> 0 then Some 0 else map_option Suc (pool_list_find_free ns))"

definition new_suballocator ::
  "(nat \<Rightarrow> bool) \<Rightarrow> nat \<Rightarrow> ut_allocator \<Rightarrow> (suballocator_t option \<times> ut_allocator) option" where
  "new_suballocator mok sizebits st = do {
     (primary_addr, st) \<leftarrow> do_ut_alloc_from_bitfield 14 st;
     if primary_addr = 0 then Some (None, st)
     else if \<not> mok 0 then do {
       st \<leftarrow> do_ut_free_from_bitfield primary_addr 14 st;
       Some (None, st) }
     else do {
       bitfield \<leftarrow> new_bitfield (mok 1) (mok 2) (2 ^ (14 - sizebits)) BITFIELD_INIT_EMPTY;
       case bitfield of
         None \<Rightarrow> do {
           st \<leftarrow> do_ut_free_from_bitfield primary_addr 14 st;
           Some (None, st) }
       | Some bf \<Rightarrow> Some (Some \<lparr>sub_base = primary_addr, sub_bitfield = bf\<rparr>, st) } }"

text \<open>The last step of \<^verbatim>\<open>do_ut_alloc_from_list\<close>, once a node is chosen.\<close>

definition ut_alloc_from_node ::
  "nat \<Rightarrow> suballocator_t list \<Rightarrow> nat \<Rightarrow> ut_allocator \<Rightarrow> (u32 \<times> ut_allocator) option" where
  "ut_alloc_from_node sizebits ns i st = do {
     node \<leftarrow> arr_get ns (int i);
     (offset, bf) \<leftarrow> bf_set_next_free (sub_bitfield node);
     c_assert (offset \<noteq> - 1);
     ns \<leftarrow> arr_set ns (int i) (node\<lparr>sub_bitfield := bf\<rparr>);
     Some (word_of_int (push_bit sizebits offset) + sub_base node, set_sub_pool sizebits ns st) }"

definition do_ut_alloc_from_list ::
  "(nat \<Rightarrow> bool) \<Rightarrow> nat \<Rightarrow> ut_allocator \<Rightarrow> (u32 \<times> ut_allocator) option" where
  "do_ut_alloc_from_list mok sizebits st = do {
     ns \<leftarrow> sub_pool sizebits st;
     (found, ns, st) \<leftarrow>
       (case pool_list_find_free ns of
          Some i \<Rightarrow> Some (Some i, ns, st)
        | None \<Rightarrow> do {
            (node, st) \<leftarrow> new_suballocator mok sizebits st;
            case node of
              None \<Rightarrow> Some (None, ns, st)
            | Some n \<Rightarrow> Some (Some 0, pool_list_attach ns n, st) });
     case found of
       None \<Rightarrow> Some (0, st)
     | Some i \<Rightarrow> ut_alloc_from_node sizebits ns i st }"

definition do_ut_free_from_list :: "u32 \<Rightarrow> nat \<Rightarrow> ut_allocator \<Rightarrow> ut_allocator option" where
  "do_ut_free_from_list addr sizebits st = do {
     ns \<leftarrow> sub_pool sizebits st;
     let base = addr AND NOT (push_bit 14 1 - 1);
     let offset = uint (drop_bit sizebits (addr - base));
     let units = 2 ^ (14 - sizebits);
     i \<leftarrow> pool_list_find_base ns base;
     node \<leftarrow> arr_get ns (int i);
     bf \<leftarrow> bf_clr (sub_bitfield node) offset;
     if available bf = units
     then do_ut_free_from_bitfield (sub_base node) 14 (set_sub_pool sizebits (pool_list_detach i ns) st)
     else do {
       ns \<leftarrow> arr_set ns (int i) (node\<lparr>sub_bitfield := bf\<rparr>);
       Some (set_sub_pool sizebits ns st) } }"

section \<open>Exported functions\<close>

definition ut_allocator_init ::
  "(nat \<Rightarrow> bool) \<Rightarrow> u32 \<Rightarrow> u32 \<Rightarrow> ut_allocator \<Rightarrow> ut_allocator option" where
  "ut_allocator_init mok low high st = do {
     c_assert (\<not> ut_initialised st);
     let low = FLOOR14 low;
     let high = CEILING14 high;
     let mem_size = high - low;
     p14 \<leftarrow> new_bitfield (mok 0) (mok 1) (uint (drop_bit 14 mem_size)) BITFIELD_INIT_FILLED;
     p12 \<leftarrow> new_bitfield (mok 2) (mok 3) (uint (drop_bit 12 mem_size)) BITFIELD_INIT_FILLED;
     p10 \<leftarrow> new_bitfield (mok 4) (mok 5) (uint (drop_bit 10 mem_size)) BITFIELD_INIT_FILLED;
     p14 \<leftarrow> (if drop_bit 14 mem_size = 0 then Some p14
            else do {
              bf \<leftarrow> p14;
              bf \<leftarrow> for_loop (\<lambda>i bf. bf_clr bf (int i)) (unat (drop_bit 14 mem_size)) 0 bf;
              Some (Some bf) });
     Some (st\<lparr>pool_base := low, pool14 := p14, pool12 := p12, pool10 := p10, pool9 := [], pool4 := [],
              ut_initialised := True\<rparr>) }"

definition ut_alloc :: "(nat \<Rightarrow> bool) \<Rightarrow> nat \<Rightarrow> ut_allocator \<Rightarrow> (u32 \<times> ut_allocator) option" where
  "ut_alloc mok sizebits st = do {
     c_assert (ut_initialised st);
     c_assert (pool14 st \<noteq> None);
     if sizebits \<in> {4, 9} then do_ut_alloc_from_list mok sizebits st
     else if sizebits \<in> {10, 12, 14} then do_ut_alloc_from_bitfield sizebits st
     else None }"

definition ut_free :: "u32 \<Rightarrow> nat \<Rightarrow> ut_allocator \<Rightarrow> ut_allocator option" where
  "ut_free addr sizebits st = do {
     c_assert (addr \<noteq> 0);
     c_assert (addr AND (push_bit sizebits 1 - 1) = 0);
     if sizebits \<in> {4, 9} then do_ut_free_from_list addr sizebits st
     else if sizebits \<in> {10, 12, 14} then do_ut_free_from_bitfield addr sizebits st
     else None }"

section \<open>Abstraction and invariant\<close>

text \<open>
  The free blocks a state holds. The blocks handed out and not yet freed are not recorded by the
  code; they are the ghost set \<open>L\<close> of the invariant \<open>ut_inv n st L\<close>: the free and the live
  blocks together are a partition of the \<open>n\<close> slabs the allocator manages, so no memory is ever
  in two blocks and none is lost.
\<close>

definition idx_blocks :: "nat \<Rightarrow> nat \<Rightarrow> nat set \<Rightarrow> block set" where
  "idx_blocks a s I = (\<lambda>i. (a + i * 2 ^ s, s)) ` I"

definition bf_blocks :: "nat \<Rightarrow> ut_allocator \<Rightarrow> block set" where
  "bf_blocks s st = (case bf_pool s st of None \<Rightarrow> {}
     | Some bf \<Rightarrow> idx_blocks (unat (pool_base st)) s (bf_free bf))"

definition node_blocks :: "nat \<Rightarrow> suballocator_t \<Rightarrow> block set" where
  "node_blocks s nd = idx_blocks (unat (sub_base nd)) s (bf_free (sub_bitfield nd))"

definition node_used :: "nat \<Rightarrow> suballocator_t \<Rightarrow> block set" where
  "node_used s nd = idx_blocks (unat (sub_base nd)) s ({..<2 ^ (14 - s)} - bf_free (sub_bitfield nd))"

definition sub_blocks :: "nat \<Rightarrow> ut_allocator \<Rightarrow> block set" where
  "sub_blocks s st = (case sub_pool s st of None \<Rightarrow> {} | Some ns \<Rightarrow> (\<Union>nd\<in>set ns. node_blocks s nd))"

definition free_blocks :: "ut_allocator \<Rightarrow> block set" where
  "free_blocks st = (\<Union>s\<in>{10, 12, 14}. bf_blocks s st) \<union> (\<Union>s\<in>{4, 9}. sub_blocks s st)"

definition arena :: "nat \<Rightarrow> ut_allocator \<Rightarrow> nat set" where
  "arena n st = {unat (pool_base st)..<unat (pool_base st) + n * 2 ^ 14}"

definition bf_pool_ok :: "nat \<Rightarrow> nat \<Rightarrow> bitfield_t \<Rightarrow> bool" where
  "bf_pool_ok n s bf \<longleftrightarrow> wf_bf bf \<and> bf_size bf = int (n * 2 ^ (14 - s)) \<and> (s = 14 \<longrightarrow> hint_ok bf)"

definition node_ok :: "nat \<Rightarrow> nat \<Rightarrow> nat \<Rightarrow> suballocator_t \<Rightarrow> bool" where
  "node_ok a n s nd \<longleftrightarrow> wf_bf (sub_bitfield nd) \<and> hint_ok (sub_bitfield nd) \<and>
     bf_size (sub_bitfield nd) = 2 ^ (14 - s) \<and> (\<exists>k<n. unat (sub_base nd) = a + k * 2 ^ 14)"

definition ut_wf :: "nat \<Rightarrow> ut_allocator \<Rightarrow> bool" where
  "ut_wf n st \<longleftrightarrow> ut_initialised st \<and> 0 < unat (pool_base st) \<and> unat (pool_base st) mod 2 ^ 14 = 0 \<and>
     unat (pool_base st) + n * 2 ^ 14 \<le> 2 ^ 32 \<and>
     (\<forall>s\<in>{10, 12, 14}. \<exists>bf. bf_pool s st = Some bf \<and> bf_pool_ok n s bf) \<and>
     (\<forall>s\<in>{4, 9}. \<forall>ns. sub_pool s st = Some ns \<longrightarrow>
        distinct (map sub_base ns) \<and> (\<forall>nd\<in>set ns. node_ok (unat (pool_base st)) n s nd))"

text \<open>Live blocks are aligned blocks of the five sizes; the used bits of the sub-allocators are the
  live 16- and 512-byte blocks.\<close>

definition live_ok :: "ut_allocator \<Rightarrow> block set \<Rightarrow> bool" where
  "live_ok st L \<longleftrightarrow>
     (\<forall>(a, s)\<in>L. s \<in> {4, 9, 10, 12, 14} \<and> (\<exists>i. a = unat (pool_base st) + i * 2 ^ s)) \<and>
     (\<forall>s\<in>{4, 9}. \<forall>ns. sub_pool s st = Some ns \<longrightarrow>
        {b \<in> L. snd b = s} =
        (\<Union>nd\<in>set ns. node_used s nd))"

definition ut_inv :: "nat \<Rightarrow> ut_allocator \<Rightarrow> block set \<Rightarrow> bool" where
  "ut_inv n st L \<longleftrightarrow> ut_wf n st \<and> free_blocks st \<inter> L = {} \<and>
     partition_of (arena n st) (free_blocks st \<union> L) \<and> live_ok st L"

text \<open>The search hints of the two lower bitfield pools, which a failed refill sets to \<open>-1\<close>.\<close>

definition hints_ok :: "ut_allocator \<Rightarrow> bool" where
  "hints_ok st \<longleftrightarrow> (\<forall>s\<in>{10, 12}. \<forall>bf. bf_pool s st = Some bf \<longrightarrow> hint_ok bf)"

section \<open>Pool selection\<close>

lemma bf_pool_set_bf [simp]:
  "bf_pool s (set_bf_pool t bf st) = (if s = t \<and> s \<in> {10, 12, 14} then Some bf else bf_pool s st)"
  by (simp add: bf_pool_def set_bf_pool_def)

lemma sub_pool_set_bf [simp]: "sub_pool s (set_bf_pool t bf st) = sub_pool s st"
  by (simp add: sub_pool_def set_bf_pool_def)

lemma bf_pool_set_sub [simp]: "bf_pool s (set_sub_pool t ns st) = bf_pool s st"
  by (simp add: bf_pool_def set_sub_pool_def)

lemma sub_pool_set_sub [simp]:
  "sub_pool s (set_sub_pool t ns st) = (if s = t \<and> s \<in> {4, 9} then Some ns else sub_pool s st)"
  by (simp add: sub_pool_def set_sub_pool_def)

lemma set_pool_frame [simp]:
  "pool_base (set_bf_pool t bf st) = pool_base st" "pool_base (set_sub_pool t ns st) = pool_base st"
  "ut_initialised (set_bf_pool t bf st) = ut_initialised st"
  "ut_initialised (set_sub_pool t ns st) = ut_initialised st"
  by (simp_all add: set_bf_pool_def set_sub_pool_def)

lemma pool14_as_pool: "pool14 st = bf_pool 14 st" "st\<lparr>pool14 := Some bf\<rparr> = set_bf_pool 14 bf st"
  by (simp_all add: bf_pool_def set_bf_pool_def)

lemma idx_blocks_tag: "b \<in> idx_blocks a s I \<Longrightarrow> snd b = s"
  by (auto simp: idx_blocks_def)

lemma idx_blocks_mem [simp]: "(a + i * 2 ^ s, t) \<in> idx_blocks a s I \<longleftrightarrow> t = s \<and> i \<in> I"
  by (auto simp: idx_blocks_def)

lemma idx_blocks_Un: "idx_blocks a s (I \<union> J) = idx_blocks a s I \<union> idx_blocks a s J"
  by (auto simp: idx_blocks_def)

lemma idx_blocks_Diff: "idx_blocks a s (I - J) = idx_blocks a s I - idx_blocks a s J"
  by (auto simp: idx_blocks_def)

lemma idx_blocks_insert: "idx_blocks a s (insert i I) = insert (a + i * 2 ^ s, s) (idx_blocks a s I)"
  by (auto simp: idx_blocks_def)

lemma idx_blocks_empty [simp]: "idx_blocks a s {} = {}"
  by (simp add: idx_blocks_def)

lemma bf_blocks_tag: "b \<in> bf_blocks s st \<Longrightarrow> snd b = s"
  by (auto simp: bf_blocks_def idx_blocks_tag split: option.splits)

lemma sub_blocks_tag: "b \<in> sub_blocks s st \<Longrightarrow> snd b = s"
  by (auto simp: sub_blocks_def node_blocks_def idx_blocks_tag split: option.splits)

lemma free_blocks_iff:
  "b \<in> free_blocks st \<longleftrightarrow> snd b \<in> {10, 12, 14} \<and> b \<in> bf_blocks (snd b) st \<or>
     snd b \<in> {4, 9} \<and> b \<in> sub_blocks (snd b) st"
proof -
  have "b \<in> bf_blocks s st \<longleftrightarrow> snd b = s \<and> b \<in> bf_blocks (snd b) st"
    "b \<in> sub_blocks s st \<longleftrightarrow> snd b = s \<and> b \<in> sub_blocks (snd b) st" for s
    using bf_blocks_tag [of b s st] sub_blocks_tag [of b s st] by auto
  then show ?thesis unfolding free_blocks_def by blast
qed

lemma free_blocks_sizes: "b \<in> free_blocks st \<Longrightarrow> snd b \<in> {4, 9, 10, 12, 14}"
  by (auto simp: free_blocks_iff)

lemma bf_blocks_set_bf:
  "bf_blocks s (set_bf_pool t bf st) =
    (if s = t \<and> s \<in> {10, 12, 14} then idx_blocks (unat (pool_base st)) s (bf_free bf) else bf_blocks s st)"
  by (auto simp: bf_blocks_def split: option.splits)

lemma sub_blocks_set_bf [simp]: "sub_blocks s (set_bf_pool t bf st) = sub_blocks s st"
  by (simp add: sub_blocks_def)

lemma bf_blocks_set_sub [simp]: "bf_blocks s (set_sub_pool t ns st) = bf_blocks s st"
  by (simp add: bf_blocks_def split: option.splits)

lemma free_blocks_set_bf:
  assumes "s \<in> {10, 12, 14}"
  shows "free_blocks (set_bf_pool s bf st)
    = {b \<in> free_blocks st. snd b \<noteq> s} \<union> idx_blocks (unat (pool_base st)) s (bf_free bf)"
proof (rule set_eqI)
  fix b
  show "b \<in> free_blocks (set_bf_pool s bf st) \<longleftrightarrow>
    b \<in> {b \<in> free_blocks st. snd b \<noteq> s} \<union> idx_blocks (unat (pool_base st)) s (bf_free bf)"
    using assms idx_blocks_tag [of b "unat (pool_base st)" s "bf_free bf"]
    by (cases "snd b = s") (auto simp: free_blocks_iff bf_blocks_set_bf)
qed

lemma sub_blocks_set_sub:
  "t \<in> {4, 9} \<Longrightarrow> sub_blocks s (set_sub_pool t ns st)
    = (if s = t then (\<Union>nd\<in>set ns. node_blocks s nd) else sub_blocks s st)"
  by (auto simp: sub_blocks_def)

lemma free_blocks_set_sub:
  assumes "s \<in> {4, 9}"
  shows "free_blocks (set_sub_pool s ns st)
    = {b \<in> free_blocks st. snd b \<noteq> s} \<union> (\<Union>nd\<in>set ns. node_blocks s nd)"
proof (rule set_eqI)
  fix b
  have "b \<in> node_blocks s nd \<Longrightarrow> snd b = s" for nd
    by (simp add: node_blocks_def idx_blocks_tag)
  then show "b \<in> free_blocks (set_sub_pool s ns st) \<longleftrightarrow>
    b \<in> {b \<in> free_blocks st. snd b \<noteq> s} \<union> (\<Union>nd\<in>set ns. node_blocks s nd)"
    using assms by (cases "snd b = s") (auto simp: free_blocks_iff sub_blocks_set_sub)
qed

lemma free_blocks_of_pool:
  assumes "s \<in> {10, 12, 14}" "bf_pool s st = Some bf"
  shows "{b \<in> free_blocks st. snd b = s} = idx_blocks (unat (pool_base st)) s (bf_free bf)"
  using assms bf_blocks_tag [of _ s st] by (fastforce simp: free_blocks_iff bf_blocks_def)

lemma free_blocks_mem_pool:
  assumes "s \<in> {10, 12, 14}" "bf_pool s st = Some bf"
  shows "(unat (pool_base st) + i * 2 ^ s, s) \<in> free_blocks st \<longleftrightarrow> i \<in> bf_free bf"
  using arg_cong [OF free_blocks_of_pool [OF assms], of "\<lambda>B. (unat (pool_base st) + i * 2 ^ s, s) \<in> B"]
  by simp

text \<open>Moving a set \<open>J\<close> of indices into or out of a bitfield pool.\<close>

lemma free_blocks_add:
  assumes "s \<in> {10, 12, 14}" "bf_pool s st = Some bf" "bf_free bf' = bf_free bf \<union> J"
  shows "free_blocks (set_bf_pool s bf' st) = free_blocks st \<union> idx_blocks (unat (pool_base st)) s J"
  unfolding free_blocks_set_bf [OF assms(1)] assms(3) idx_blocks_Un
  using free_blocks_of_pool [OF assms(1,2)] by auto

lemma free_blocks_remove:
  assumes "s \<in> {10, 12, 14}" "bf_pool s st = Some bf" "bf_free bf' = bf_free bf - J"
  shows "free_blocks (set_bf_pool s bf' st) = free_blocks st - idx_blocks (unat (pool_base st)) s J"
  unfolding free_blocks_set_bf [OF assms(1)] assms(3) idx_blocks_Diff
  using free_blocks_of_pool [OF assms(1,2)] by (auto dest: idx_blocks_tag)

lemma ut_wf_pool:
  assumes "ut_wf n st" "s \<in> {10, 12, 14}"
  obtains bf where "bf_pool s st = Some bf" "bf_pool_ok n s bf"
  using assms by (auto simp: ut_wf_def)

lemma ut_wf_set_bf:
  "ut_wf n st \<Longrightarrow> bf_pool_ok n s bf \<Longrightarrow> ut_wf n (set_bf_pool s bf st)"
  by (auto simp: ut_wf_def)

lemma arena_set_bf [simp]: "arena n (set_bf_pool s bf st) = arena n st"
  and arena_set_sub [simp]: "arena n (set_sub_pool s ns st) = arena n st"
  by (simp_all add: arena_def)

lemma live_ok_set_bf [simp]: "live_ok (set_bf_pool s bf st) L = live_ok st L"
  by (simp add: live_ok_def)

lemma tag_other:
  assumes "snd x \<noteq> t"
  shows "{b \<in> insert x L. snd b = t} = {b \<in> L. snd b = t}" "{b \<in> L - {x}. snd b = t} = {b \<in> L. snd b = t}"
  using assms by auto

lemma live_ok_change_bf:
  assumes "live_ok st L" "s \<in> {10, 12, 14}"
  shows "live_ok st (insert (unat (pool_base st) + i * 2 ^ s, s) L)" "live_ok st (L - {(a, s)})"
proof -
  have "{b \<in> insert (x, s) L. snd b = t} = {b \<in> L. snd b = t}"
    "{b \<in> L - {(x, s)}. snd b = t} = {b \<in> L. snd b = t}" if "t \<in> {4, 9}" for t x
    using that assms(2) by auto
  then show "live_ok st (insert (unat (pool_base st) + i * 2 ^ s, s) L)" "live_ok st (L - {(a, s)})"
    using assms by (auto simp: live_ok_def)
qed

section \<open>Moves that keep the invariant\<close>

lemma ut_invD:
  assumes "ut_inv n st L"
  shows "ut_wf n st" "free_blocks st \<inter> L = {}" "partition_of (arena n st) (free_blocks st \<union> L)" "live_ok st L"
  using assms by (simp_all add: ut_inv_def)

lemma ut_inv_move:
  assumes "ut_inv n st L" "ut_wf n st'" "arena n st' = arena n st" "live_ok st' L'"
    "free_blocks st' \<inter> L' = {}" "free_blocks st' \<union> L' = free_blocks st \<union> L"
  shows "ut_inv n st' L'"
  using assms by (simp add: ut_inv_def)

lemma ut_inv_take:
  assumes inv: "ut_inv n st L" and s: "s \<in> {10, 12, 14}" and bf: "bf_pool s st = Some bf"
    and i: "i \<in> bf_free bf" and bf': "bf_free bf' = bf_free bf - {i}" "bf_pool_ok n s bf'"
  shows "ut_inv n (set_bf_pool s bf' st) (insert (unat (pool_base st) + i * 2 ^ s, s) L)"
proof -
  let ?b = "(unat (pool_base st) + i * 2 ^ s, s)"
  have b: "?b \<in> free_blocks st" using free_blocks_mem_pool [OF s bf] i by simp
  have f: "free_blocks (set_bf_pool s bf' st) = free_blocks st - {?b}"
    using free_blocks_remove [OF s bf bf'(1)] by (simp add: idx_blocks_insert)
  show ?thesis
  proof (rule ut_inv_move [OF inv])
    show "free_blocks (set_bf_pool s bf' st) \<inter> insert ?b L = {}"
      "free_blocks (set_bf_pool s bf' st) \<union> insert ?b L = free_blocks st \<union> L"
      using f b ut_invD(2) [OF inv] by auto
  qed (simp_all add: ut_wf_set_bf ut_invD [OF inv] bf'(2) live_ok_change_bf [OF _ s])
qed

lemma ut_inv_give:
  assumes inv: "ut_inv n st L" and s: "s \<in> {10, 12, 14}" and bf: "bf_pool s st = Some bf"
    and i: "(unat (pool_base st) + i * 2 ^ s, s) \<in> L" and bf': "bf_free bf' = insert i (bf_free bf)" "bf_pool_ok n s bf'"
  shows "ut_inv n (set_bf_pool s bf' st) (L - {(unat (pool_base st) + i * 2 ^ s, s)})"
proof -
  let ?b = "(unat (pool_base st) + i * 2 ^ s, s)"
  have f: "free_blocks (set_bf_pool s bf' st) = free_blocks st \<union> {?b}"
    using free_blocks_add [OF s bf, of bf' "{i}"] bf'(1) by (simp add: idx_blocks_insert)
  show ?thesis
  proof (rule ut_inv_move [OF inv])
    show "free_blocks (set_bf_pool s bf' st) \<inter> (L - {?b}) = {}"
      "free_blocks (set_bf_pool s bf' st) \<union> (L - {?b}) = free_blocks st \<union> L"
      using f i ut_invD(2) [OF inv] by auto
  qed (simp_all add: ut_wf_set_bf ut_invD [OF inv] bf'(2) live_ok_change_bf [OF _ s])
qed

lemma slab_slices:
  assumes "s \<le> 14"
  shows "idx_blocks a s {k * 2 ^ (14 - s)..<k * 2 ^ (14 - s) + 2 ^ (14 - s)} = slices (a + k * 2 ^ 14) s (2 ^ (14 - s))"
proof -
  have e: "(2::nat) ^ 14 = 2 ^ (14 - s) * 2 ^ s" using assms by (simp flip: power_add)
  have "(a + (k * 2 ^ (14 - s) + i) * 2 ^ s, s) = (a + k * 2 ^ 14 + i * 2 ^ s, s)" for i
    by (simp only: e) (simp add: algebra_simps)
  moreover have "{k * 2 ^ (14 - s)..<k * 2 ^ (14 - s) + 2 ^ (14 - s)}
      = (\<lambda>i. k * 2 ^ (14 - s) + i) ` {..<2 ^ (14 - s)}"
    by (simp add: lessThan_atLeast0 image_add_atLeastLessThan add.commute)
  ultimately show ?thesis
    by (simp add: idx_blocks_def slices_def image_image add.assoc)
qed

lemma slab_excl:
  assumes "ut_inv n st L" "s < 14" "(a, 14) \<in> free_blocks st \<union> L" "b \<in> slices a s (2 ^ (14 - s))"
  shows "b \<notin> free_blocks st \<union> L"
proof
  assume "b \<in> free_blocks st \<union> L"
  with assms have "b = (a, 14)"
    by (intro partition_split_new [OF ut_invD(3) [OF assms(1)] assms(3) partition_slices_block [of s]]) auto
  with assms(2,4) show False by (auto simp: slices_iff)
qed

lemma slab_excl_pool:
  assumes "ut_inv n st L" "s \<in> {10, 12}" "bf_pool s st = Some bf"
    "(unat (pool_base st) + k * 2 ^ 14, 14) \<in> free_blocks st \<union> L"
  shows "bf_free bf \<inter> {k * 2 ^ (14 - s)..<k * 2 ^ (14 - s) + 2 ^ (14 - s)} = {}"
proof -
  let ?a = "unat (pool_base st)"
  have s: "s < 14" "s \<le> 14" "s \<in> {10, 12, 14}" using assms(2) by auto
  have "i \<notin> bf_free bf" if "i \<in> {k * 2 ^ (14 - s)..<k * 2 ^ (14 - s) + 2 ^ (14 - s)}" for i
  proof -
    have "(?a + i * 2 ^ s, s) \<in> slices (?a + k * 2 ^ 14) s (2 ^ (14 - s))"
      using that unfolding slab_slices [OF s(2), symmetric] by simp
    then have "(?a + i * 2 ^ s, s) \<notin> free_blocks st"
      using slab_excl [OF assms(1) s(1) assms(4)] by blast
    then show ?thesis using free_blocks_mem_pool [OF s(3) assms(3)] by blast
  qed
  then show ?thesis by blast
qed

lemma ut_inv_split:
  assumes inv: "ut_inv n st L" and s: "s \<in> {10, 12}" and bf: "bf_pool s st = Some bf"
    and p: "bf_pool 14 st = Some p" and k: "k \<in> bf_free p"
    and p': "bf_free p' = bf_free p - {k}" "bf_pool_ok n 14 p'"
    and bf': "bf_free bf' = bf_free bf \<union> {k * 2 ^ (14 - s)..<k * 2 ^ (14 - s) + 2 ^ (14 - s)}" "bf_pool_ok n s bf'"
  shows "ut_inv n (set_bf_pool s bf' (set_bf_pool 14 p' st)) L"
proof -
  let ?a = "unat (pool_base st)" and ?st = "set_bf_pool s bf' (set_bf_pool 14 p' st)"
  let ?x = "(?a + k * 2 ^ 14, 14)" and ?C = "slices (?a + k * 2 ^ 14) s (2 ^ (14 - s))"
  have s14: "s < 14" "s \<noteq> 14" "s \<le> 14" "s \<in> {10, 12, 14}" using s by auto
  have x: "?x \<in> free_blocks st" using free_blocks_mem_pool [OF _ p] k by simp
  have f: "free_blocks ?st = free_blocks st - {?x} \<union> ?C"
    using free_blocks_add [OF s14(4), of "set_bf_pool 14 p' st" bf bf'] free_blocks_remove [OF _ p p'(1)] bf bf'(1) s14(2)
    by (simp add: idx_blocks_insert slab_slices [OF s14(3)])
  have "\<And>c. c \<in> ?C \<Longrightarrow> c \<notin> free_blocks st \<union> L"
    using slab_excl [OF inv s14(1)] x by blast
  then have "free_blocks ?st \<inter> L = {}" unfolding f using ut_invD(2) [OF inv] by blast
  moreover have "free_blocks ?st \<union> L = (free_blocks st \<union> L) - {?x} \<union> ?C"
    unfolding f using x ut_invD(2) [OF inv] by blast
  then have "partition_of (arena n ?st) (free_blocks ?st \<union> L)"
    using partition_split [OF ut_invD(3) [OF inv], of ?x ?C] partition_slices_block [OF s14(3)] x by simp
  ultimately show ?thesis
    unfolding ut_inv_def using inv bf'(2) p'(2) by (simp add: ut_wf_set_bf ut_invD)
qed

lemma ut_inv_merge:
  assumes inv: "ut_inv n st L" and s: "s \<in> {10, 12}" and bf: "bf_pool s st = Some bf"
    and p: "bf_pool 14 st = Some p" and p': "bf_free p' = insert k (bf_free p)" "bf_pool_ok n 14 p'"
    and k: "{k * 2 ^ (14 - s)..<k * 2 ^ (14 - s) + 2 ^ (14 - s)} \<subseteq> bf_free bf"
    and bf': "bf_free bf' = bf_free bf - {k * 2 ^ (14 - s)..<k * 2 ^ (14 - s) + 2 ^ (14 - s)}" "bf_pool_ok n s bf'"
  shows "ut_inv n (set_bf_pool s bf' (set_bf_pool 14 p' st)) L"
proof -
  let ?a = "unat (pool_base st)" and ?st = "set_bf_pool s bf' (set_bf_pool 14 p' st)"
  let ?x = "(?a + k * 2 ^ 14, 14)" and ?C = "slices (?a + k * 2 ^ 14) s (2 ^ (14 - s))"
  have s14: "s < 14" "s \<noteq> 14" "s \<le> 14" "s \<in> {10, 12, 14}" using s by auto
  have C: "?C \<subseteq> free_blocks st"
    using k free_blocks_of_pool [OF s14(4) bf] unfolding slab_slices [OF s14(3), symmetric]
    by (force simp: idx_blocks_def)
  have xC: "?x \<notin> ?C" using s14 by (auto simp: slices_iff)
  have x: "?x \<notin> free_blocks st \<union> L"
    using slab_excl [OF inv s14(1), of "?a + k * 2 ^ 14"] C slices_nonempty by blast
  have f: "free_blocks ?st = insert ?x (free_blocks st - ?C)"
    using free_blocks_remove [OF s14(4), of "set_bf_pool 14 p' st" bf bf'] free_blocks_add [OF _ p, of p' "{k}"]
      p'(1) bf bf'(1) s14(2) xC
    by (auto simp: idx_blocks_insert slab_slices [OF s14(3)])
  have "free_blocks ?st \<inter> L = {}" unfolding f using x ut_invD(2) [OF inv] by blast
  moreover have "free_blocks ?st \<union> L = insert ?x ((free_blocks st \<union> L) - ?C)"
    unfolding f using C ut_invD(2) [OF inv] by blast
  then have "partition_of (arena n ?st) (free_blocks ?st \<union> L)"
    using partition_merge [OF ut_invD(3) [OF inv], of ?C ?x] partition_slices_block [OF s14(3)] C by (simp add: le_supI1)
  ultimately show ?thesis
    unfolding ut_inv_def using inv bf'(2) p'(2) by (simp add: ut_wf_set_bf ut_invD)
qed

section \<open>The bitfield pools\<close>

lemma pool_next_free_cases:
  assumes "bf_pool_ok n s bf" and "hint_ok bf"
  obtains (full) "bf_set_next_free bf = Some (- 1, bf)" "bf_free bf = {}"
  | (taken) i bf' where "bf_set_next_free bf = Some (int i, bf')" "i \<in> bf_free bf" "i < n * 2 ^ (14 - s)"
      "bf_free bf' = bf_free bf - {i}" "bf_pool_ok n s bf'" "hint_ok bf'"
proof (cases "available bf = 0")
  case True
  then show thesis using assms by (intro full) (auto simp: bf_set_next_free_full bf_pool_ok_def wf_bf_def)
next
  case False
  have wf: "wf_bf bf" "bf_size bf = int (n * 2 ^ (14 - s))" using assms by (simp_all add: bf_pool_ok_def)
  obtain i bf' where i: "bf_set_next_free bf = Some (int i, bf')" "i \<in> bf_free bf"
    "bf_free bf' = bf_free bf - {i}" "wf_bf bf'" "hint_ok bf'" "bf_size bf' = bf_size bf"
    using bf_set_next_free_alloc [OF wf(1) assms(2) False] by blast
  moreover have "i < n * 2 ^ (14 - s)"
    using i(2) wf(2) by (simp add: bf_free_def)
  ultimately show thesis using wf by (intro taken) (auto simp: bf_pool_ok_def)
qed

lemma bf_pool_ok_cap: "bf_pool_ok n s bf \<Longrightarrow> nat (bf_size bf) = n * 2 ^ (14 - s)"
  by (simp add: bf_pool_ok_def)

lemma bf_pool_ok_wf: "bf_pool_ok n s bf \<Longrightarrow> wf_bf bf"
  by (simp add: bf_pool_ok_def)

lemma bf_pool_okI:
  assumes "bf_pool_ok n s bf" "wf_bf bf'" "nat (bf_size bf') = nat (bf_size bf)" "next_free bf' = next_free bf"
  shows "bf_pool_ok n s bf'" "hint_ok bf' = hint_ok bf"
proof -
  have "bf_size bf' = bf_size bf"
    using assms(1-3) eq_nat_nat_iff [of "bf_size bf'" "bf_size bf"] by (simp add: bf_pool_ok_def wf_bf_def)
  with assms show "bf_pool_ok n s bf'" "hint_ok bf' = hint_ok bf"
    by (auto simp: bf_pool_ok_def hint_ok_def)
qed

lemma bitfield_fill_pool_spec:
  assumes inv: "ut_inv n st L" and s: "s \<in> {10, 12}" and bf: "bf_pool s st = Some bf"
    and p: "bf_pool 14 st = Some p"
  obtains (none) "bitfield_fill_pool s st = Some (set_bf_pool s (bf\<lparr>next_free := - 1\<rparr>) st)" "bf_free p = {}"
  | (filled) bf' p' where "bitfield_fill_pool s st = Some (set_bf_pool s bf' (set_bf_pool 14 p' st))"
      "ut_inv n (set_bf_pool s bf' (set_bf_pool 14 p' st)) L" "bf_free bf' \<noteq> {}" "hint_ok bf'" "bf_pool_ok n s bf'"
proof -
  have s14: "s \<noteq> 14" using s by auto
  have pok: "bf_pool_ok n 14 p" and bok: "bf_pool_ok n s bf"
    using ut_wf_pool [OF ut_invD(1) [OF inv], of 14] ut_wf_pool [OF ut_invD(1) [OF inv], of s] p bf s by auto
  then have "hint_ok p" by (simp add: bf_pool_ok_def)
  with pok show thesis
  proof (cases rule: pool_next_free_cases)
    case full
    have "st\<lparr>pool14 := Some p\<rparr> = st" using p by (simp add: bf_pool_def)
    with full s14 p bf show thesis
      by (intro none) (simp_all add: bitfield_fill_pool_def pool14_as_pool)
  next
    case (taken k p')
    let ?u = "2 ^ (14 - s) :: nat"
    have kn: "k < n" using taken(3) by simp
    have "(unat (pool_base st) + k * 2 ^ 14, 14) \<in> free_blocks st \<union> L"
      using free_blocks_mem_pool [OF _ p, of k] taken(2) by simp
    then have "bf_free bf \<inter> {k * ?u..<k * ?u + ?u} = {}"
      by (rule slab_excl_pool [OF inv s bf])
    moreover have "k * ?u + ?u \<le> n * ?u"
      using mult_le_mono1 [of "Suc k" n ?u] kn by simp
    ultimately obtain b1 where b1: "for_loop (\<lambda>i b. bf_clr b (int (k * ?u) + int i)) ?u 0 bf = Some b1"
      "wf_bf b1" "bf_free b1 = bf_free bf \<union> {k * ?u..<k * ?u + ?u}" "nat (bf_size b1) = nat (bf_size bf)"
      "next_free b1 = next_free bf"
      using bfp.clr_range [OF bf_pool_ok_wf [OF bok], of "k * ?u" ?u] bf_pool_ok_cap [OF bok] by auto
    define b2 where "b2 = b1\<lparr>next_free := int (k * ?u)\<rparr>"
    have b1ok: "bf_pool_ok n s b1" using bf_pool_okI [OF bok b1(2,4,5)] by simp
    then have b2: "bf_pool_ok n s b2" "hint_ok b2" "bf_free b2 = bf_free b1"
      using s14 kn by (simp_all add: b2_def bf_pool_ok_def hint_ok_def)
    have "bitfield_fill_pool s st = Some (set_bf_pool s b2 (set_bf_pool 14 p' st))"
      using s14 p bf taken(1) b1(1)
      by (simp add: bitfield_fill_pool_def pool14_as_pool b2_def push_bit_eq_mult Let_def)
    moreover have "ut_inv n (set_bf_pool s b2 (set_bf_pool 14 p' st)) L"
      using ut_inv_split [OF inv s bf p taken(2,4,5)] b2 b1(3) by simp
    moreover have "bf_free b2 \<noteq> {}" using b2(3) b1(3) by auto
    ultimately show thesis using b2 by (intro filled)
  qed
qed

lemma ut_block_addr:
  assumes "ut_wf n st" "s \<le> 14" "i < n * 2 ^ (14 - s)"
  shows "unat (word_of_int (push_bit s (int i)) + pool_base st) = unat (pool_base st) + i * 2 ^ s"
    and "unat (pool_base st) + i * 2 ^ s < unat (pool_base st) + n * 2 ^ 14"
proof -
  have "i * 2 ^ s < n * 2 ^ (14 - s) * 2 ^ s" using assms(3) by simp
  also have "\<dots> = n * 2 ^ 14" using assms(2) by (simp add: mult.assoc flip: power_add)
  finally show lt: "unat (pool_base st) + i * 2 ^ s < unat (pool_base st) + n * 2 ^ 14" by simp
  moreover have "unat (pool_base st) + n * 2 ^ 14 \<le> 2 ^ 32" using assms(1) by (simp add: ut_wf_def)
  ultimately have "unat (pool_base st) + i * 2 ^ s < 2 ^ 32" by linarith
  moreover have "push_bit s (int i) = int (i * 2 ^ s)" by (simp add: push_bit_eq_mult)
  ultimately show "unat (word_of_int (push_bit s (int i)) + pool_base st) = unat (pool_base st) + i * 2 ^ s"
    by (metis unat_word_plus_nat)
qed

lemma hints_ok_set_bf:
  "hints_ok st \<Longrightarrow> s = 14 \<or> hint_ok bf \<Longrightarrow> hints_ok (set_bf_pool s bf st)"
  by (auto simp: hints_ok_def)

lemma set_bf_pool_same: "bf_pool s st = Some bf \<Longrightarrow> set_bf_pool s bf st = st"
  by (auto simp: bf_pool_def set_bf_pool_def split: if_splits)

lemma ut_inv_hint:
  assumes "ut_inv n st L" "s \<in> {10, 12}" "bf_pool s st = Some bf"
  shows "ut_inv n (set_bf_pool s (bf\<lparr>next_free := h\<rparr>) st) L"
proof -
  have s: "s \<in> {10, 12, 14}" "s \<noteq> 14" using assms(2) by auto
  obtain bf1 where "bf_pool s st = Some bf1" "bf_pool_ok n s bf1"
    using ut_wf_pool [OF ut_invD(1) [OF assms(1)] s(1)] by blast
  then have "bf_pool_ok n s (bf\<lparr>next_free := h\<rparr>)"
    using assms(3) s(2) by (simp add: bf_pool_ok_def)
  then show ?thesis
    using assms(1) free_blocks_add [OF s(1) assms(3), of "bf\<lparr>next_free := h\<rparr>" "{}"]
    by (simp add: ut_inv_def ut_wf_set_bf)
qed

lemma ut_alloc_take:
  assumes inv: "ut_inv n st L" and s: "s \<in> {10, 12, 14}" and bf: "bf_pool s st = Some bf"
    and i: "i \<in> bf_free bf" "i < n * 2 ^ (14 - s)" and bf': "bf_free bf' = bf_free bf - {i}" "bf_pool_ok n s bf'"
    and addr: "addr = word_of_int (push_bit s (int i)) + pool_base st"
  shows "unat addr = unat (pool_base st) + i * 2 ^ s"
    and "ut_inv n (set_bf_pool s bf' st) (insert (unat addr, s) L)" and "(unat addr, s) \<notin> L"
proof -
  have s14: "s \<le> 14" using s by auto
  show a: "unat addr = unat (pool_base st) + i * 2 ^ s"
    unfolding addr by (rule ut_block_addr(1) [OF ut_invD(1) [OF inv] s14 i(2)])
  show "ut_inv n (set_bf_pool s bf' st) (insert (unat addr, s) L)"
    unfolding a by (rule ut_inv_take [OF inv s bf i(1) bf'])
  have "(unat (pool_base st) + i * 2 ^ s, s) \<in> free_blocks st"
    using free_blocks_mem_pool [OF s bf] i(1) by simp
  then show "(unat addr, s) \<notin> L" using ut_invD(2) [OF inv] a by auto
qed

text \<open>
  Allocation from a bitfield pool whose hint is usable: it fails only when neither the pool nor
  the slab pool has a free block, and then changes no free block; otherwise the returned block
  becomes live.
\<close>

lemma alloc_from_bitfield_spec:
  assumes inv: "ut_inv n st L" and s: "s \<in> {10, 12, 14}" and bf: "bf_pool s st = Some bf"
    and p: "bf_pool 14 st = Some p" and h: "hint_ok bf"
  obtains (none) st' where "do_ut_alloc_from_bitfield s st = Some (0, st')" "ut_inv n st' L"
      "free_blocks st' = free_blocks st" "bf_free bf = {}" "bf_free p = {}" "s = 14 \<Longrightarrow> st' = st"
  | (got) i addr st' where "do_ut_alloc_from_bitfield s st = Some (addr, st')" "i < n * 2 ^ (14 - s)"
      "unat addr = unat (pool_base st) + i * 2 ^ s" "ut_inv n st' (insert (unat addr, s) L)"
      "(unat addr, s) \<notin> L" "hints_ok st \<Longrightarrow> hints_ok st'" "pool_base st' = pool_base st"
      "\<And>t. sub_pool t st' = sub_pool t st"
proof -
  have bok: "bf_pool_ok n s bf" using ut_wf_pool [OF ut_invD(1) [OF inv] s] bf by auto
  from bok h show thesis
  proof (cases rule: pool_next_free_cases)
    case (taken i b')
    note t = ut_alloc_take [OF inv s bf taken(2-5) refl]
    show thesis
      by (rule got [OF _ taken(3) t])
        (use bf taken in \<open>simp_all add: do_ut_alloc_from_bitfield_def Let_def hints_ok_set_bf\<close>)
  next
    case full
    show thesis
    proof (cases "s = 14")
      case True
      with full bf p show thesis
        by (intro none [of st]) (simp_all add: do_ut_alloc_from_bitfield_def bitfield_fill_pool_def set_bf_pool_same inv)
    next
      case False
      then have s': "s \<in> {10, 12}" using s by auto
      from inv s' bf p show thesis
      proof (cases rule: bitfield_fill_pool_spec)
        case none': none
        let ?b = "bf\<lparr>next_free := - 1\<rparr>"
        have av: "available ?b = 0" using full(2) bok by (simp add: bf_pool_ok_def wf_bf_def)
        show thesis
        proof (rule none)
          show "do_ut_alloc_from_bitfield s st = Some (0, set_bf_pool s ?b st)"
            using bf full(1) none'(1) s bf_set_next_free_full [OF av]
            by (simp add: do_ut_alloc_from_bitfield_def set_bf_pool_same)
          show "ut_inv n (set_bf_pool s ?b st) L" by (rule ut_inv_hint [OF inv s' bf])
          show "free_blocks (set_bf_pool s ?b st) = free_blocks st"
            using free_blocks_add [OF s bf, of ?b "{}"] by simp
        qed (use full(2) none'(2) False in simp_all)
      next
        case (filled b1 p1)
        let ?st = "set_bf_pool s b1 (set_bf_pool 14 p1 st)"
        have b1: "bf_pool s ?st = Some b1" using s by simp
        from filled(5,4) show thesis
        proof (cases rule: pool_next_free_cases)
          case (taken i b2)
          note t = ut_alloc_take [OF filled(2) s b1 taken(2-5) refl]
          show thesis
            by (rule got [OF _ taken(3) _ t(2,3)])
              (use filled full(1) bf taken s t(1) in \<open>auto simp: do_ut_alloc_from_bitfield_def set_bf_pool_same Let_def intro!: hints_ok_set_bf\<close>)
        qed (use filled(3) in simp)
      qed
    qed
  qed
qed

lemma all_clear_eq:
  assumes "wf_bf bf" "m + n \<le> nat (bf_size bf)"
  shows "all_clear bf (int m) n = Some ({m..<m + n} \<subseteq> bf_free bf)"
  using assms(2)
proof (induction n arbitrary: m)
  case (Suc n)
  have "all_clear bf (int (Suc m)) n = Some ({Suc m..<Suc m + n} \<subseteq> bf_free bf)"
    using Suc.prems by (intro Suc.IH) simp
  moreover have "{m..<m + Suc n} = insert m {Suc m..<Suc m + n}" by auto
  moreover have "bf_get bf (int m) = Some (m \<notin> bf_free bf)"
    using bfp.get_law [OF assms(1)] Suc.prems by simp
  ultimately show ?case by (simp add: add.commute)
qed simp

lemma merge_up_offsets:
  fixes i :: nat
  assumes "s < 14"
  shows "int i AND NOT (int (2 ^ (14 - s)) - 1) = int (i div 2 ^ (14 - s) * 2 ^ (14 - s))"
    and "drop_bit (14 - s) (int (k * 2 ^ (14 - s))) = int k"
  using int_align [of i "14 - s"] by (simp_all add: drop_bit_eq_div)

lemma bitfield_merge_up_eq:
  assumes "s < 14"
  shows "bitfield_merge_up s (int i) st = do {
     let k = i div 2 ^ (14 - s);
     let u = 2 ^ (14 - s);
     bf \<leftarrow> bf_pool s st;
     mergeable \<leftarrow> all_clear bf (int (k * u)) u;
     if \<not> mergeable then Some st
     else do {
       bf \<leftarrow> for_loop (\<lambda>j bf. bf_set bf (int (k * u) + int j)) u 0 bf;
       primary \<leftarrow> bf_pool 14 st;
       primary \<leftarrow> bf_clr primary (int k);
       Some (set_bf_pool s bf (set_bf_pool 14 primary st)) } }"
  unfolding bitfield_merge_up_def Let_def merge_up_offsets [OF assms] pool14_as_pool
  using assms by simp

lemma bitfield_merge_up_spec:
  assumes inv: "ut_inv n st L" and s: "s \<in> {10, 12}" and i: "i < n * 2 ^ (14 - s)"
  obtains st' where "bitfield_merge_up s (int i) st = Some st'" "ut_inv n st' L"
    "hints_ok st' = hints_ok st" "pool_base st' = pool_base st" "\<And>t. sub_pool t st' = sub_pool t st"
proof -
  let ?u = "2 ^ (14 - s) :: nat" and ?k = "i div 2 ^ (14 - s)"
  note wf = ut_invD(1) [OF inv]
  have s14: "s < 14" "s \<noteq> 14" "s \<in> {10, 12, 14}" using s by auto
  obtain bf where bf: "bf_pool s st = Some bf" and bok: "bf_pool_ok n s bf"
    using ut_wf_pool [OF wf s14(3)] by blast
  obtain p where p: "bf_pool 14 st = Some p" and pok: "bf_pool_ok n 14 p"
    using ut_wf_pool [OF wf, of 14] by auto
  have k: "?k < n" using i by (simp add: less_mult_imp_div_less)
  then have k': "?k * ?u + ?u \<le> nat (bf_size bf)"
    using mult_le_mono1 [of "Suc ?k" n ?u] by (simp add: bf_pool_ok_cap [OF bok])
  note eq = bitfield_merge_up_eq [OF s14(1)] all_clear_eq [OF bf_pool_ok_wf [OF bok] k']
  show thesis
  proof (cases "{?k * ?u..<?k * ?u + ?u} \<subseteq> bf_free bf")
    case False
    then show thesis
      using s14 bf inv by (intro that [of st]) (simp_all add: eq Let_def del: of_nat_mult of_nat_power)
  next
    case True
    obtain b1 where b1: "for_loop (\<lambda>j b. bf_set b (int (?k * ?u) + int j)) ?u 0 bf = Some b1" "wf_bf b1"
      "bf_free b1 = bf_free bf - {?k * ?u..<?k * ?u + ?u}" "nat (bf_size b1) = nat (bf_size bf)" "next_free b1 = next_free bf"
      using bfp.set_range [OF bf_pool_ok_wf [OF bok] True] by blast
    have b1ok: "bf_pool_ok n s b1" "hint_ok b1 = hint_ok bf" using bf_pool_okI [OF bok b1(2,4,5)] by simp_all
    have "?k \<notin> bf_free p"
    proof
      assume "?k \<in> bf_free p"
      then have "(unat (pool_base st) + ?k * 2 ^ 14, 14) \<in> free_blocks st \<union> L"
        using free_blocks_mem_pool [OF _ p, of ?k] by simp
      from slab_excl_pool [OF inv s bf this] True
      have "{?k * ?u..<?k * ?u + ?u} = {}" by blast
      then show False by simp
    qed
    then obtain p1 where p1: "bf_clr p (int ?k) = Some p1" "wf_bf p1" "bf_free p1 = insert ?k (bf_free p)"
      "nat (bf_size p1) = nat (bf_size p)" "next_free p1 = next_free p"
      using bfp.clr_law [OF bf_pool_ok_wf [OF pok], of ?k] k bf_pool_ok_cap [OF pok] by auto
    have p1ok: "bf_pool_ok n 14 p1" using bf_pool_okI [OF pok p1(2,4,5)] by simp
    show thesis
    proof (rule that)
      show "bitfield_merge_up s (int i) st = Some (set_bf_pool s b1 (set_bf_pool 14 p1 st))"
        using s14 bf p True b1(1) p1(1) by (simp add: eq Let_def del: of_nat_mult of_nat_power)
      show "ut_inv n (set_bf_pool s b1 (set_bf_pool 14 p1 st)) L"
        by (rule ut_inv_merge [OF inv s bf p p1(3) p1ok True b1(3) b1ok(1)])
      show "hints_ok (set_bf_pool s b1 (set_bf_pool 14 p1 st)) = hints_ok st"
        using bf s b1ok(2) by (auto simp: hints_ok_def)
    qed simp_all
  qed
qed

lemma ut_block_offset:
  assumes "unat addr = unat (b::u32) + i * 2 ^ s"
  shows "uint (drop_bit s (addr - b)) = int i"
proof -
  have "b \<le> addr" using assms by (simp add: word_le_nat_alt)
  then have "unat (addr - b) = i * 2 ^ s" using assms by (simp add: unat_sub)
  then have "unat (drop_bit s (addr - b)) = i"
    by (simp only: unat_drop_bit_eq) (simp add: drop_bit_eq_div)
  then show ?thesis by (metis uint_nat)
qed

lemma free_from_bitfield_spec:
  assumes inv: "ut_inv n st L" and s: "s \<in> {10, 12, 14}" and live: "(unat addr, s) \<in> L"
  obtains st' where "do_ut_free_from_bitfield addr s st = Some st'" "ut_inv n st' (L - {(unat addr, s)})"
    "hints_ok st' = hints_ok st" "pool_base st' = pool_base st" "\<And>t. sub_pool t st' = sub_pool t st"
proof -
  note wf = ut_invD(1) [OF inv]
  obtain bf where bf: "bf_pool s st = Some bf" and bok: "bf_pool_ok n s bf" using ut_wf_pool [OF wf s] by blast
  have s14: "s \<le> 14" using s by auto
  obtain i where i: "unat addr = unat (pool_base st) + i * 2 ^ s"
    using ut_invD(4) [OF inv] live by (auto simp: live_ok_def)
  note off = ut_block_offset [OF i]
  have "span (unat addr, s) \<subseteq> arena n st"
    using partition_sub [OF ut_invD(3) [OF inv]] live by blast
  then have "i * 2 ^ s + 2 ^ s \<le> n * 2 ^ 14" by (auto simp: arena_def i)
  then have "i * 2 ^ s < n * 2 ^ 14"
    using zero_less_power [of "2::nat" s] by linarith
  moreover have "n * 2 ^ 14 = n * 2 ^ (14 - s) * 2 ^ s" using s14 by (simp add: mult.assoc flip: power_add)
  ultimately have "i * 2 ^ s < n * 2 ^ (14 - s) * 2 ^ s" by (simp only:)
  then have lt: "i < n * 2 ^ (14 - s)" by simp
  have "i \<notin> bf_free bf"
    using free_blocks_mem_pool [OF s bf, of i] ut_invD(2) [OF inv] live by (auto simp flip: i)
  then obtain b1 where b1: "bf_clr bf (int i) = Some b1" "wf_bf b1" "bf_free b1 = insert i (bf_free bf)"
    "nat (bf_size b1) = nat (bf_size bf)" "next_free b1 = next_free bf"
    using bfp.clr_law [OF bf_pool_ok_wf [OF bok]] lt bf_pool_ok_cap [OF bok] by auto
  have b1ok: "bf_pool_ok n s b1" "hint_ok b1 = hint_ok bf" using bf_pool_okI [OF bok b1(2,4,5)] by simp_all
  let ?st = "set_bf_pool s b1 st"
  have inv1: "ut_inv n ?st (L - {(unat addr, s)})"
    using ut_inv_give [OF inv s bf _ b1(3) b1ok(1)] live by (simp add: i)
  have h1: "hints_ok ?st = hints_ok st" using bf s b1ok(2) by (auto simp: hints_ok_def)
  have run: "do_ut_free_from_bitfield addr s st = bitfield_merge_up s (int i) ?st"
    using bf b1(1) by (simp add: do_ut_free_from_bitfield_def off)
  show thesis
  proof (cases "s = 14")
    case True
    then show thesis using run inv1 h1 by (intro that [of ?st]) (simp_all add: bitfield_merge_up_def)
  next
    case False
    then have "s \<in> {10, 12}" using s by auto
    then show thesis
      using bitfield_merge_up_spec [OF inv1 _ lt] run h1 that by auto
  qed
qed

section \<open>The sub-allocators\<close>

lemma node_free_bound: "node_ok a n s nd \<Longrightarrow> bf_free (sub_bitfield nd) \<subseteq> {..<2 ^ (14 - s)}"
  by (auto simp: node_ok_def bf_free_def nat_power_eq)

lemma node_all_blocks:
  assumes "node_ok a n s nd"
  shows "node_blocks s nd \<union> node_used s nd = slices (unat (sub_base nd)) s (2 ^ (14 - s))"
  using node_free_bound [OF assms]
  by (auto simp: node_blocks_def node_used_def idx_blocks_def slices_def)

lemma node_slab_div:
  assumes "s \<le> 14" "i < (2::nat) ^ (14 - s)"
  shows "(k * 2 ^ 14 + i * 2 ^ s) div 2 ^ 14 = k"
proof -
  have "i * 2 ^ s < 2 ^ (14 - s) * 2 ^ s" using assms(2) by simp
  also have "\<dots> = 2 ^ 14" using assms(1) by (simp flip: power_add)
  finally show ?thesis by simp
qed

lemma node_blocks_apart:
  assumes "s \<le> 14" "node_ok a n s x" "node_ok a n s y" "b \<in> slices (unat (sub_base x)) s (2 ^ (14 - s))"
    "b \<in> slices (unat (sub_base y)) s (2 ^ (14 - s))"
  shows "sub_base x = sub_base y"
proof -
  obtain kx ky where k: "unat (sub_base x) = a + kx * 2 ^ 14" "unat (sub_base y) = a + ky * 2 ^ 14"
    using assms(2,3) by (auto simp: node_ok_def)
  obtain i j where ij: "i < 2 ^ (14 - s)" "j < 2 ^ (14 - s)" "kx * 2 ^ 14 + i * 2 ^ s = ky * 2 ^ 14 + j * 2 ^ s"
    using assms(4,5) by (auto simp: slices_iff k)
  then have "kx = ky" using node_slab_div [OF assms(1)] by metis
  then show ?thesis using k by (simp add: word_unat_eq_iff)
qed

lemma ut_wf_nodes:
  assumes "ut_wf n st" "s \<in> {4, 9}" "sub_pool s st = Some ns"
  shows "distinct (map sub_base ns)" "nd \<in> set ns \<Longrightarrow> node_ok (unat (pool_base st)) n s nd"
  using assms by (auto simp: ut_wf_def)

lemma ut_wf_set_sub:
  assumes "ut_wf n st" "s \<in> {4, 9}" "distinct (map sub_base ns)"
    "\<And>nd. nd \<in> set ns \<Longrightarrow> node_ok (unat (pool_base st)) n s nd"
  shows "ut_wf n (set_sub_pool s ns st)"
  using assms by (auto simp: ut_wf_def)

lemma hints_ok_set_sub [simp]: "hints_ok (set_sub_pool s ns st) = hints_ok st"
  by (simp add: hints_ok_def)

lemma free_blocks_of_sub:
  assumes "s \<in> {4, 9}" "sub_pool s st = Some ns"
  shows "{b \<in> free_blocks st. snd b = s} = (\<Union>nd\<in>set ns. node_blocks s nd)"
  using assms sub_blocks_tag [of _ s st] by (fastforce simp: free_blocks_iff sub_blocks_def)

lemma live_ok_set_sub:
  assumes "live_ok st L" "s \<in> {4, 9}"
    "\<And>b. b \<in> L' \<Longrightarrow> snd b \<in> {4, 9, 10, 12, 14} \<and> (\<exists>i. fst b = unat (pool_base st) + i * 2 ^ snd b)"
    "\<And>t. t \<in> {4, 9} \<Longrightarrow> t \<noteq> s \<Longrightarrow> {b \<in> L'. snd b = t} = {b \<in> L. snd b = t}"
    "{b \<in> L'. snd b = s} = (\<Union>nd\<in>set ns. node_used s nd)"
  shows "live_ok (set_sub_pool s ns st) L'"
proof -
  have "{b \<in> L'. snd b = t} = (\<Union>nd\<in>set ms. node_used t nd)"
    if "t \<in> {4, 9}" "sub_pool t (set_sub_pool s ns st) = Some ms" for t ms
  proof (cases "t = s")
    case True
    then show ?thesis using that assms(2,5) by simp
  next
    case False
    then have "sub_pool t st = Some ms" using that(2) by simp
    then show ?thesis
      using assms(1,4) False that(1) unfolding live_ok_def by blast
  qed
  then show ?thesis
    using assms(3) unfolding live_ok_def by (force simp del: insert_iff)
qed

lemma live_okD:
  assumes "live_ok st L"
  shows "b \<in> L \<Longrightarrow> snd b \<in> {4, 9, 10, 12, 14} \<and> (\<exists>i. fst b = unat (pool_base st) + i * 2 ^ snd b)"
    "s \<in> {4, 9} \<Longrightarrow> sub_pool s st = Some ns \<Longrightarrow> {b \<in> L. snd b = s} = (\<Union>nd\<in>set ns. node_used s nd)"
  using assms unfolding live_ok_def by (fastforce, blast)

text \<open>A live slab becomes a sub-allocator with every block free, and back.\<close>

lemma ut_inv_attach:
  assumes inv: "ut_inv n st L" and s: "s \<in> {4, 9}" and ns: "sub_pool s st = Some ns"
    and live: "(unat (sub_base nd), 14) \<in> L" and ok: "node_ok (unat (pool_base st)) n s nd"
    and free: "bf_free (sub_bitfield nd) = {..<2 ^ (14 - s)}"
  shows "ut_inv n (set_sub_pool s (nd # ns) st) (L - {(unat (sub_base nd), 14)})"
proof -
  let ?x = "(unat (sub_base nd), 14)" and ?C = "slices (unat (sub_base nd)) s (2 ^ (14 - s))"
  let ?st = "set_sub_pool s (nd # ns) st"
  note wf = ut_invD(1) [OF inv] and lo = live_okD [OF ut_invD(4) [OF inv]]
  have s14: "s < 14" "s \<le> 14" "s \<noteq> 14" using s by auto
  have x: "?x \<in> free_blocks st \<union> L" using live by simp
  have excl: "c \<notin> free_blocks st \<union> L" if "c \<in> ?C" for c by (rule slab_excl [OF inv s14(1) x that])
  have C: "node_blocks s nd = ?C" "node_used s nd = {}"
    by (auto simp: node_blocks_def node_used_def free idx_blocks_def slices_def)
  have f: "free_blocks ?st = free_blocks st \<union> ?C"
    unfolding free_blocks_set_sub [OF s] using C free_blocks_of_sub [OF s ns] by auto
  have "sub_base nd \<notin> sub_base ` set ns"
  proof
    assume "sub_base nd \<in> sub_base ` set ns"
    then obtain y where y: "y \<in> set ns" "sub_base y = sub_base nd" by auto
    have "node_blocks s y \<union> node_used s y = ?C"
      using node_all_blocks [OF ut_wf_nodes(2) [OF wf s ns y(1)]] y(2) by simp
    moreover have "node_blocks s y \<union> node_used s y \<subseteq> free_blocks st \<union> L"
      using free_blocks_of_sub [OF s ns] live_okD(2) [OF ut_invD(4) [OF inv] s ns] y(1) by blast
    ultimately show False using excl slices_nonempty by blast
  qed
  then have wf': "ut_wf n ?st"
    using ut_wf_set_sub [OF wf s, of "nd # ns"] ut_wf_nodes [OF wf s ns] ok by auto
  have live': "live_ok ?st (L - {?x})"
  proof (rule live_ok_set_sub [OF ut_invD(4) [OF inv] s])
    show "snd b \<in> {4, 9, 10, 12, 14} \<and> (\<exists>i. fst b = unat (pool_base st) + i * 2 ^ snd b)" if "b \<in> L - {?x}" for b
      using lo(1) that by blast
    show "{b \<in> L - {?x}. snd b = t} = {b \<in> L. snd b = t}" if "t \<in> {4, 9}" for t
      using that by (intro tag_other) auto
    have "{b \<in> L - {?x}. snd b = s} = {b \<in> L. snd b = s}" using s14(3) by (intro tag_other) simp
    then show "{b \<in> L - {?x}. snd b = s} = (\<Union>nd\<in>set (nd # ns). node_used s nd)"
      using lo(2) [OF s ns] C(2) by simp
  qed
  have part: "partition_of (arena n ?st) (free_blocks ?st \<union> (L - {?x}))"
  proof -
    have "free_blocks ?st \<union> (L - {?x}) = (free_blocks st \<union> L) - {?x} \<union> ?C"
      unfolding f using live ut_invD(2) [OF inv] by blast
    then show ?thesis
      using partition_split [OF ut_invD(3) [OF inv] x] partition_slices_block [OF s14(2)] by simp
  qed
  moreover have "free_blocks ?st \<inter> (L - {?x}) = {}"
    unfolding f using excl ut_invD(2) [OF inv] by blast
  ultimately show ?thesis using wf' live' by (simp add: ut_inv_def)
qed

lemma set_detach:
  assumes "distinct (map sub_base ns)" "i < length ns"
  shows "set (pool_list_detach i ns) = set ns - {ns ! i}" "distinct (map sub_base (pool_list_detach i ns))"
proof -
  have e: "ns = take i ns @ ns ! i # drop (Suc i) ns" using assms(2) by (rule id_take_nth_drop)
  have "distinct ns" using assms(1) by (simp add: distinct_map)
  then have "distinct (take i ns @ ns ! i # drop (Suc i) ns)" using e by simp
  moreover have "set ns = set (take i ns @ ns ! i # drop (Suc i) ns)" using e by simp
  ultimately show "set (pool_list_detach i ns) = set ns - {ns ! i}"
    unfolding pool_list_detach_def by auto
  have "distinct (map sub_base (take i ns @ ns ! i # drop (Suc i) ns))" using assms(1) e by simp
  then show "distinct (map sub_base (pool_list_detach i ns))"
    by (simp add: pool_list_detach_def)
qed

lemma node_blocks_others:
  assumes "ut_wf n st" "s \<in> {4, 9}" "sub_pool s st = Some ns" "x \<in> set ns" "y \<in> set ns" "x \<noteq> y"
    "b \<in> slices (unat (sub_base x)) s (2 ^ (14 - s))"
  shows "b \<notin> node_blocks s y" "b \<notin> node_used s y"
proof -
  note ok = ut_wf_nodes [OF assms(1-3)]
  have "sub_base x \<noteq> sub_base y"
    using ok(1) assms(4-6) by (auto simp: distinct_map dest: inj_onD)
  moreover have "s \<le> 14" using assms(2) by auto
  ultimately have "b \<notin> slices (unat (sub_base y)) s (2 ^ (14 - s))"
    using node_blocks_apart [OF _ ok(2) ok(2) assms(7)] assms(4,5) by blast
  then show "b \<notin> node_blocks s y" "b \<notin> node_used s y"
    using node_all_blocks [OF ok(2) [OF assms(5)]] by blast+
qed

lemma ut_inv_detach:
  assumes inv: "ut_inv n st L" and s: "s \<in> {4, 9}" and ns: "sub_pool s st = Some ns" and i: "i < length ns"
    and free: "bf_free (sub_bitfield (ns ! i)) = {..<2 ^ (14 - s)}"
  shows "ut_inv n (set_sub_pool s (pool_list_detach i ns) st) (insert (unat (sub_base (ns ! i)), 14) L)"
proof -
  let ?nd = "ns ! i" and ?st = "set_sub_pool s (pool_list_detach i ns) st"
  let ?x = "(unat (sub_base ?nd), 14)" and ?C = "slices (unat (sub_base ?nd)) s (2 ^ (14 - s))"
  note wf = ut_invD(1) [OF inv] and lo = live_okD [OF ut_invD(4) [OF inv]]
  note nodes = ut_wf_nodes [OF wf s ns]
  note det = set_detach [OF nodes(1) i]
  have nd: "?nd \<in> set ns" using i by simp
  have s14: "s < 14" "s \<le> 14" "s \<noteq> 14" using s by auto
  have C: "node_blocks s ?nd = ?C" "node_used s ?nd = {}"
    by (auto simp: node_blocks_def node_used_def free idx_blocks_def slices_def)
  have CF: "?C \<subseteq> free_blocks st" using free_blocks_of_sub [OF s ns] nd C(1) by blast
  have tag: "b \<in> ?C \<Longrightarrow> snd b = s" for b by (auto simp: slices_iff)
  have x: "?x \<notin> free_blocks st \<union> L"
    using slab_excl [OF inv s14(1)] CF slices_nonempty by blast
  have f: "free_blocks ?st = free_blocks st - ?C"
  proof -
    have "(\<Union>nd\<in>set ns - {?nd}. node_blocks s nd) = (\<Union>nd\<in>set ns. node_blocks s nd) - ?C"
      using node_blocks_others(1) [OF wf s ns nd] C(1) by blast
    then have e: "(\<Union>nd\<in>set ns - {?nd}. node_blocks s nd) = {b \<in> free_blocks st. snd b = s} - ?C"
      unfolding free_blocks_of_sub [OF s ns] .
    show ?thesis
      unfolding free_blocks_set_sub [OF s] det(1) e using tag by auto
  qed
  have wf': "ut_wf n ?st" using ut_wf_set_sub [OF wf s det(2)] nodes(2) det(1) by simp
  have "\<exists>k. unat (sub_base ?nd) = unat (pool_base st) + k * 2 ^ 14"
    using nodes(2) [OF nd] by (auto simp: node_ok_def)
  then have live': "live_ok ?st (insert ?x L)"
  proof (intro live_ok_set_sub [OF ut_invD(4) [OF inv] s])
    assume "\<exists>k. unat (sub_base ?nd) = unat (pool_base st) + k * 2 ^ 14"
    then show "snd b \<in> {4, 9, 10, 12, 14} \<and> (\<exists>i. fst b = unat (pool_base st) + i * 2 ^ snd b)" if "b \<in> insert ?x L" for b
      using lo(1) that by (cases "b = ?x") (simp_all add: conj_commute)
    show "{b \<in> insert ?x L. snd b = t} = {b \<in> L. snd b = t}" if "t \<in> {4, 9}" for t
      using that by (intro tag_other) auto
    have "{b \<in> insert ?x L. snd b = s} = {b \<in> L. snd b = s}" using s14(3) by (intro tag_other) simp
    then show "{b \<in> insert ?x L. snd b = s} = (\<Union>nd\<in>set (pool_list_detach i ns). node_used s nd)"
      unfolding det(1) using lo(2) [OF s ns] C(2) by auto
  qed
  have "free_blocks ?st \<union> insert ?x L = insert ?x ((free_blocks st \<union> L) - ?C)"
    unfolding f using CF ut_invD(2) [OF inv] by blast
  then have "partition_of (arena n ?st) (free_blocks ?st \<union> insert ?x L)"
    using partition_merge [OF ut_invD(3) [OF inv], of ?C ?x] partition_slices_block [OF s14(2)] CF
    by (simp add: le_supI1)
  moreover have "free_blocks ?st \<inter> insert ?x L = {}" unfolding f using x ut_invD(2) [OF inv] by blast
  ultimately show ?thesis using wf' live' by (simp add: ut_inv_def)
qed

end
