(* ===== verification/UtAlloc_Sub.thy ===== *)
theory UtAlloc_Sub
  imports UtAlloc
begin

text \<open>
  The sub-allocator lists and the exported functions of the untyped-memory allocator: allocation
  and release keep the partition invariant of \<^verbatim>\<open>UtAlloc\<close>.
\<close>

section \<open>Changing one node\<close>

lemma nodes_update:
  assumes wf: "ut_wf n st" and s: "s \<in> {4, 9}" and ns: "sub_pool s st = Some ns" and i: "i < length ns"
    and b: "sub_base nd = sub_base (ns ! i)" and ok: "node_ok (unat (pool_base st)) n s nd"
  shows "ut_wf n (set_sub_pool s (ns[i := nd]) st)"
    and "set (ns[i := nd]) = insert nd (set ns - {ns ! i})"
proof -
  note nodes = ut_wf_nodes [OF wf s ns]
  have "map sub_base (ns[i := nd]) = map sub_base ns"
    using i b by (simp add: map_update list_update_same_conv)
  moreover have "distinct ns" using nodes(1) by (simp add: distinct_map)
  then show e: "set (ns[i := nd]) = insert nd (set ns - {ns ! i})" using i by (rule set_update_distinct)
  ultimately show "ut_wf n (set_sub_pool s (ns[i := nd]) st)"
    using nodes ok e by (intro ut_wf_set_sub [OF wf s]) auto
qed

lemma ut_inv_node_take:
  assumes inv: "ut_inv n st L" and s: "s \<in> {4, 9}" and ns: "sub_pool s st = Some ns" and i: "i < length ns"
    and b: "sub_base nd = sub_base (ns ! i)" and ok: "node_ok (unat (pool_base st)) n s nd"
    and j: "j \<in> bf_free (sub_bitfield (ns ! i))"
    and free: "bf_free (sub_bitfield nd) = bf_free (sub_bitfield (ns ! i)) - {j}"
  shows "ut_inv n (set_sub_pool s (ns[i := nd]) st) (insert (unat (sub_base nd) + j * 2 ^ s, s) L)"
    and "(unat (sub_base nd) + j * 2 ^ s, s) \<in> free_blocks st"
proof -
  let ?nd = "ns ! i" and ?st = "set_sub_pool s (ns[i := nd]) st" and ?b = "(unat (sub_base nd) + j * 2 ^ s, s)"
  note wf = ut_invD(1) [OF inv] and lo = live_okD [OF ut_invD(4) [OF inv]]
  note nodes = ut_wf_nodes [OF wf s ns] and upd = nodes_update [OF wf s ns i b ok]
  have nd: "?nd \<in> set ns" using i by simp
  have ju: "j < 2 ^ (14 - s)" using node_free_bound [OF nodes(2) [OF nd]] j by auto
  have nb: "node_blocks s nd = node_blocks s ?nd - {?b}" "node_used s nd = insert ?b (node_used s ?nd)"
    "?b \<in> node_blocks s ?nd"
    using j ju by (auto simp: node_blocks_def node_used_def b free idx_blocks_def)
  have sl: "?b \<in> slices (unat (sub_base ?nd)) s (2 ^ (14 - s))" using ju by (auto simp: slices_iff b)
  note others = node_blocks_others [OF wf s ns nd _ _ sl]
  have "(\<Union>x\<in>set (ns[i := nd]). node_blocks s x) = (\<Union>x\<in>set ns. node_blocks s x) - {?b}"
    unfolding upd(2) using nb(1) nd others(1) by auto
  then have e: "(\<Union>x\<in>set (ns[i := nd]). node_blocks s x) = {b \<in> free_blocks st. snd b = s} - {?b}"
    unfolding free_blocks_of_sub [OF s ns] .
  have f: "free_blocks ?st = free_blocks st - {?b}"
    unfolding free_blocks_set_sub [OF s] e by auto
  have "?b \<in> {b \<in> free_blocks st. snd b = s}" unfolding free_blocks_of_sub [OF s ns] using nb(3) nd by blast
  then show bf: "?b \<in> free_blocks st" by simp
  have u: "(\<Union>x\<in>set (ns[i := nd]). node_used s x) = insert ?b {b \<in> L. snd b = s}"
    unfolding upd(2) lo(2) [OF s ns] using nb(2) nd by auto
  obtain k where "unat (sub_base nd) = unat (pool_base st) + k * 2 ^ 14"
    using ok by (auto simp: node_ok_def)
  moreover have "(2::nat) ^ 14 = 2 ^ (14 - s) * 2 ^ s" using s by auto
  ultimately have al: "fst ?b = unat (pool_base st) + (k * 2 ^ (14 - s) + j) * 2 ^ s"
    by (simp add: algebra_simps)
  show "ut_inv n ?st (insert ?b L)"
  proof (rule ut_inv_move [OF inv upd(1)])
    show "live_ok ?st (insert ?b L)"
    proof (rule live_ok_set_sub [OF ut_invD(4) [OF inv] s])
      show "snd c \<in> {4, 9, 10, 12, 14} \<and> (\<exists>i. fst c = unat (pool_base st) + i * 2 ^ snd c)" if "c \<in> insert ?b L" for c
      proof (cases "c = ?b")
        case True
        then show ?thesis using s al by auto
      qed (use lo(1) that in blast)
      show "{b \<in> insert ?b L. snd b = t} = {b \<in> L. snd b = t}" if "t \<noteq> s" for t
        using that by (intro tag_other) auto
      show "{b \<in> insert ?b L. snd b = s} = (\<Union>x\<in>set (ns[i := nd]). node_used s x)"
        unfolding u by auto
    qed
    show "free_blocks ?st \<inter> insert ?b L = {}" "free_blocks ?st \<union> insert ?b L = free_blocks st \<union> L"
      unfolding f using bf ut_invD(2) [OF inv] by auto
  qed simp
qed

lemma ut_inv_node_give:
  assumes inv: "ut_inv n st L" and s: "s \<in> {4, 9}" and ns: "sub_pool s st = Some ns" and i: "i < length ns"
    and b: "sub_base nd = sub_base (ns ! i)" and ok: "node_ok (unat (pool_base st)) n s nd"
    and j: "(unat (sub_base nd) + j * 2 ^ s, s) \<in> L" "j < 2 ^ (14 - s)"
    and free: "bf_free (sub_bitfield nd) = insert j (bf_free (sub_bitfield (ns ! i)))"
  shows "ut_inv n (set_sub_pool s (ns[i := nd]) st) (L - {(unat (sub_base nd) + j * 2 ^ s, s)})"
proof -
  let ?nd = "ns ! i" and ?st = "set_sub_pool s (ns[i := nd]) st" and ?b = "(unat (sub_base nd) + j * 2 ^ s, s)"
  note wf = ut_invD(1) [OF inv] and lo = live_okD [OF ut_invD(4) [OF inv]]
  note nodes = ut_wf_nodes [OF wf s ns] and upd = nodes_update [OF wf s ns i b ok]
  have nd: "?nd \<in> set ns" using i by simp
  have nb: "node_blocks s nd = insert ?b (node_blocks s ?nd)" "node_used s nd = node_used s ?nd - {?b}"
    using j by (auto simp: node_blocks_def node_used_def b free idx_blocks_def)
  have sl: "?b \<in> slices (unat (sub_base ?nd)) s (2 ^ (14 - s))" using j(2) by (auto simp: slices_iff b)
  note others = node_blocks_others [OF wf s ns nd _ _ sl]
  have e: "(\<Union>x\<in>set (ns[i := nd]). node_blocks s x) = insert ?b {b \<in> free_blocks st. snd b = s}"
    unfolding upd(2) free_blocks_of_sub [OF s ns] using nb(1) nd by auto
  have f: "free_blocks ?st = insert ?b (free_blocks st)"
    unfolding free_blocks_set_sub [OF s] e by auto
  have "(\<Union>x\<in>set (ns[i := nd]). node_used s x) = (\<Union>x\<in>set ns. node_used s x) - {?b}"
    unfolding upd(2) using nb(2) nd others(2) by auto
  then have u: "(\<Union>x\<in>set (ns[i := nd]). node_used s x) = {b \<in> L. snd b = s} - {?b}"
    unfolding lo(2) [OF s ns] .
  show "ut_inv n ?st (L - {?b})"
  proof (rule ut_inv_move [OF inv upd(1)])
    show "live_ok ?st (L - {?b})"
    proof (rule live_ok_set_sub [OF ut_invD(4) [OF inv] s])
      show "snd c \<in> {4, 9, 10, 12, 14} \<and> (\<exists>i. fst c = unat (pool_base st) + i * 2 ^ snd c)" if "c \<in> L - {?b}" for c
        using lo(1) that by blast
      show "{b \<in> L - {?b}. snd b = t} = {b \<in> L. snd b = t}" if "t \<noteq> s" for t
        using that by (intro tag_other) auto
      show "{b \<in> L - {?b}. snd b = s} = (\<Union>x\<in>set (ns[i := nd]). node_used s x)"
        unfolding u by auto
    qed
    show "free_blocks ?st \<inter> (L - {?b}) = {}" "free_blocks ?st \<union> (L - {?b}) = free_blocks st \<union> L"
      unfolding f using j(1) ut_invD(2) [OF inv] by auto
  qed simp
qed

section \<open>List operations\<close>

lemma find_free_Some:
  "pool_list_find_free ns = Some i \<Longrightarrow> i < length ns \<and> available (sub_bitfield (ns ! i)) \<noteq> 0"
  by (induction ns arbitrary: i) (auto split: if_splits)

lemma find_free_None:
  "pool_list_find_free ns = None \<Longrightarrow> nd \<in> set ns \<Longrightarrow> available (sub_bitfield nd) = 0"
  by (induction ns) (auto split: if_splits)

lemma find_base_Some:
  assumes "nd \<in> set ns" "sub_base nd = base" "distinct (map sub_base ns)"
  obtains i where "pool_list_find_base ns base = Some i" "i < length ns" "ns ! i = nd"
  using assms
proof (induction ns arbitrary: thesis)
  case (Cons n ns)
  show ?case
  proof (cases "sub_base n = base")
    case True
    then have "n = nd" using Cons.prems imageI [of nd "set ns" sub_base] by auto
    with True show ?thesis using Cons.prems(1) [of 0] by simp
  next
    case False
    then have "nd \<in> set ns" using Cons.prems by auto
    with Cons obtain i where "pool_list_find_base ns base = Some i" "i < length ns" "ns ! i = nd" by auto
    with False show ?thesis using Cons.prems(1) [of "Suc i"] by simp
  qed
qed simp

lemma set_sub_pool_twice [simp]: "set_sub_pool s ns (set_sub_pool s ms st) = set_sub_pool s ns st"
  by (simp add: set_sub_pool_def)

lemma new_node_bitfield:
  assumes "s \<in> {4, 9}"
  obtains bf where "new_bitfield True True (2 ^ (14 - s)) BITFIELD_INIT_EMPTY = Some (Some bf)"
    "wf_bf bf" "hint_ok bf" "bf_size bf = 2 ^ (14 - s)" "bf_free bf = {..<2 ^ (14 - s)}"
proof -
  let ?z = "2 ^ (14 - s) :: int"
  obtain bf where bf: "new_bitfield True True ?z BITFIELD_INIT_EMPTY = Some (Some bf)" "bf_len_ok bf"
    "hint_ok bf" "bf_size bf = ?z" "bf_free bf = {..<nat ?z}"
    "\<forall>i. nat ?z \<le> i \<and> i < 8 * length (bf_b bf) \<longrightarrow> bf_bit bf i"
    "available bf = ?z - (8 * ((?z + 7) div 8) - ?z)"
    using new_bitfield_empty [of ?z] by auto
  have "8 * ((?z + 7) div 8) = ?z" using assms by auto
  then have "wf_bf bf" using bf by (simp add: wf_bf_def bf_len_ok_def)
  then show thesis using bf by (intro that [of bf]) (simp_all add: nat_power_eq)
qed

lemma new_suballocator_spec:
  assumes inv: "ut_inv n st L" and s: "s \<in> {4, 9}" and p: "bf_pool 14 st = Some p"
  obtains (none) st' where "new_suballocator mok s st = Some (None, st')" "ut_inv n st' L"
      "hints_ok st \<Longrightarrow> hints_ok st'" "bf_free p = {} \<or> \<not> (mok 0 \<and> mok 1 \<and> mok 2)"
  | (got) nd st' where "new_suballocator mok s st = Some (Some nd, st')"
      "ut_inv n st' (insert (unat (sub_base nd), 14) L)" "(unat (sub_base nd), 14) \<notin> L"
      "node_ok (unat (pool_base st)) n s nd" "bf_free (sub_bitfield nd) = {..<2 ^ (14 - s)}"
      "hints_ok st \<Longrightarrow> hints_ok st'" "pool_base st' = pool_base st" "\<And>t. sub_pool t st' = sub_pool t st"
proof -
  have h: "hint_ok p" using ut_wf_pool [OF ut_invD(1) [OF inv], of 14] p by (auto simp: bf_pool_ok_def)
  have s14: "14 \<in> {10, 12, 14::nat}" by simp
  from inv s14 p p h show thesis
  proof (cases rule: alloc_from_bitfield_spec)
    case (none st')
    then show thesis using inv by (intro that(1) [of st]) (simp_all add: new_suballocator_def)
  next
    case (got i addr st1)
    have "0 < unat (pool_base st)" using ut_invD(1) [OF inv] by (simp add: ut_wf_def)
    then have a0: "addr \<noteq> 0" using got(3) by auto
    have live: "(unat addr, 14) \<in> insert (unat addr, 14) L" by simp
    obtain st2 where st2: "do_ut_free_from_bitfield addr 14 st1 = Some st2" "ut_inv n st2 L" "hints_ok st2 = hints_ok st1"
      using free_from_bitfield_spec [OF got(4) s14 live] got(5) by (metis Diff_insert_absorb)
    show thesis
    proof (cases "mok 0 \<and> mok 1 \<and> mok 2")
      case False
      then show thesis
        using got(1,6) a0 st2 by (intro that(1) [of st2]) (auto simp: new_suballocator_def new_bitfield_def)
    next
      case True
      obtain bf where bf: "new_bitfield True True (2 ^ (14 - s)) BITFIELD_INIT_EMPTY = Some (Some bf)"
        "wf_bf bf" "hint_ok bf" "bf_size bf = 2 ^ (14 - s)" "bf_free bf = {..<2 ^ (14 - s)}"
        by (rule new_node_bitfield [OF s])
      have "\<exists>k<n. unat addr = unat (pool_base st) + k * 2 ^ 14" using got(2,3) by auto
      then show thesis
        using True got(1,4-8) a0 bf
        by (intro that(2) [of "\<lparr>sub_base = addr, sub_bitfield = bf\<rparr>" st1])
          (simp_all add: new_suballocator_def node_ok_def)
    qed
  qed
qed

lemma node_next_free:
  assumes "node_ok a n s nd" "available (sub_bitfield nd) \<noteq> 0"
  obtains j bf where "bf_set_next_free (sub_bitfield nd) = Some (int j, bf)" "j \<in> bf_free (sub_bitfield nd)"
    "j < 2 ^ (14 - s)" "bf_free bf = bf_free (sub_bitfield nd) - {j}" "node_ok a n s (nd\<lparr>sub_bitfield := bf\<rparr>)"
proof -
  have wf: "wf_bf (sub_bitfield nd)" "hint_ok (sub_bitfield nd)" using assms(1) by (simp_all add: node_ok_def)
  obtain j bf where j: "bf_set_next_free (sub_bitfield nd) = Some (int j, bf)" "j \<in> bf_free (sub_bitfield nd)"
    "bf_free bf = bf_free (sub_bitfield nd) - {j}" "wf_bf bf" "hint_ok bf" "bf_size bf = bf_size (sub_bitfield nd)"
    using bf_set_next_free_alloc [OF wf assms(2)] by blast
  moreover have "j < 2 ^ (14 - s)" using node_free_bound [OF assms(1)] j(2) by auto
  ultimately show thesis using assms(1) by (intro that) (auto simp: node_ok_def)
qed

lemma node_addr:
  assumes "ut_wf n st" "node_ok (unat (pool_base st)) n s nd" "s \<le> 14" "j < 2 ^ (14 - s)"
  shows "unat (word_of_int (push_bit s (int j)) + sub_base nd) = unat (sub_base nd) + j * 2 ^ s"
proof -
  obtain k where k: "k < n" "unat (sub_base nd) = unat (pool_base st) + k * 2 ^ 14"
    using assms(2) by (auto simp: node_ok_def)
  have "j * 2 ^ s < 2 ^ (14 - s) * 2 ^ s" using assms(4) by simp
  also have "\<dots> = 2 ^ 14" using assms(3) by (simp flip: power_add)
  finally have "unat (sub_base nd) + j * 2 ^ s < unat (pool_base st) + Suc k * 2 ^ 14" using k(2) by simp
  also have "\<dots> \<le> unat (pool_base st) + n * 2 ^ 14" using k(1) by simp
  also have "\<dots> \<le> 2 ^ 32" using assms(1) by (simp add: ut_wf_def)
  finally have "unat (sub_base nd) + j * 2 ^ s < 2 ^ 32" .
  moreover have "push_bit s (int j) = int (j * 2 ^ s)" by (simp add: push_bit_eq_mult)
  ultimately show ?thesis by (metis unat_word_plus_nat)
qed

text \<open>Taking a block from a node with a free bit, the common end of both ways to find one.\<close>

lemma alloc_from_node:
  assumes inv: "ut_inv n st L" and s: "s \<in> {4, 9}" and ns: "sub_pool s st = Some ns"
    and i: "i < length ns" and av: "available (sub_bitfield (ns ! i)) \<noteq> 0"
  obtains addr st' where "ut_alloc_from_node s ns i st = Some (addr, st')"
    "ut_inv n st' (insert (unat addr, s) L)" "(unat addr, s) \<notin> L" "hints_ok st' = hints_ok st" "addr \<noteq> 0"
    "pool_base st' = pool_base st"
proof -
  note wf = ut_invD(1) [OF inv]
  have ok: "node_ok (unat (pool_base st)) n s (ns ! i)" using ut_wf_nodes(2) [OF wf s ns] i by simp
  obtain j bf where j: "bf_set_next_free (sub_bitfield (ns ! i)) = Some (int j, bf)" "j \<in> bf_free (sub_bitfield (ns ! i))"
    "j < 2 ^ (14 - s)" "bf_free bf = bf_free (sub_bitfield (ns ! i)) - {j}"
    "node_ok (unat (pool_base st)) n s ((ns ! i)\<lparr>sub_bitfield := bf\<rparr>)"
    using node_next_free [OF ok av] by blast
  have "s \<le> 14" using s by auto
  note a = node_addr [OF wf ok this j(3)]
  have "0 < unat (pool_base st)" using wf by (simp add: ut_wf_def)
  then have "0 < unat (sub_base (ns ! i))" using ok by (auto simp: node_ok_def)
  then have "unat (word_of_int (push_bit s (int j)) + sub_base (ns ! i)) \<noteq> 0" unfolding a by simp
  then have nz: "word_of_int (push_bit s (int j)) + sub_base (ns ! i) \<noteq> 0" by (metis unat_0)
  note t = ut_inv_node_take [OF inv s ns i _ j(5) j(2)]
  show thesis
  proof (rule that [OF _ _ _ _ nz])
    show "ut_inv n (set_sub_pool s (ns[i := (ns ! i)\<lparr>sub_bitfield := bf\<rparr>]) st)
      (insert (unat (word_of_int (push_bit s (int j)) + sub_base (ns ! i)), s) L)"
      unfolding a using t(1) j(4) by simp
    show "(unat (word_of_int (push_bit s (int j)) + sub_base (ns ! i)), s) \<notin> L"
      unfolding a using t(2) j(4) ut_invD(2) [OF inv] by auto
  qed (use i j(1) in \<open>simp_all add: ut_alloc_from_node_def\<close>)
qed

lemma alloc_from_list_spec:
  assumes inv: "ut_inv n st L" and s: "s \<in> {4, 9}" and ns: "sub_pool s st = Some ns" and p: "bf_pool 14 st = Some p"
  obtains (none) st' where "do_ut_alloc_from_list mok s st = Some (0, st')" "ut_inv n st' L"
      "hints_ok st \<Longrightarrow> hints_ok st'" "\<And>nd. nd \<in> set ns \<Longrightarrow> bf_free (sub_bitfield nd) = {}"
      "bf_free p = {} \<or> \<not> (mok 0 \<and> mok 1 \<and> mok 2)"
  | (got) addr st' where "do_ut_alloc_from_list mok s st = Some (addr, st')" "addr \<noteq> 0"
      "ut_inv n st' (insert (unat addr, s) L)" "(unat addr, s) \<notin> L" "hints_ok st \<Longrightarrow> hints_ok st'"
      "pool_base st' = pool_base st"
proof (cases "pool_list_find_free ns")
  case (Some i)
  then have i: "i < length ns" "available (sub_bitfield (ns ! i)) \<noteq> 0" using find_free_Some by auto
  obtain addr st' where r: "ut_alloc_from_node s ns i st = Some (addr, st')"
    "ut_inv n st' (insert (unat addr, s) L)" "(unat addr, s) \<notin> L" "hints_ok st' = hints_ok st" "addr \<noteq> 0"
    "pool_base st' = pool_base st"
    by (rule alloc_from_node [OF inv s ns i])
  then show thesis using Some ns by (intro got [of addr st']) (simp_all add: do_ut_alloc_from_list_def)
next
  case None
  have empty: "bf_free (sub_bitfield nd) = {}" if "nd \<in> set ns" for nd
    using find_free_None [OF None that] ut_wf_nodes(2) [OF ut_invD(1) [OF inv] s ns that]
    by (auto simp: node_ok_def wf_bf_def)
  from inv s p show thesis
  proof (cases rule: new_suballocator_spec [where mok = mok])
    case none': (none st')
    then show thesis
      using None ns empty by (intro none [of st']) (simp_all add: do_ut_alloc_from_list_def)
  next
    case got': (got nd st1)
    let ?st = "set_sub_pool s (nd # ns) st1" and ?x = "(unat (sub_base nd), 14)"
    have "ut_inv n ?st (insert ?x L - {?x})"
      by (rule ut_inv_attach [OF got'(2) s]) (use got' ns in simp_all)
    then have inv1: "ut_inv n ?st L" using got'(3) by simp
    have ns1: "sub_pool s ?st = Some (nd # ns)" using s by simp
    have "card (bf_free (sub_bitfield nd)) \<noteq> 0" using got'(5) by simp
    then have av: "available (sub_bitfield ((nd # ns) ! 0)) \<noteq> 0" using got'(4) by (auto simp: node_ok_def wf_bf_def)
    obtain addr st' where r: "ut_alloc_from_node s (nd # ns) 0 ?st = Some (addr, st')"
      "ut_inv n st' (insert (unat addr, s) L)" "(unat addr, s) \<notin> L" "hints_ok st' = hints_ok ?st" "addr \<noteq> 0"
      "pool_base st' = pool_base ?st"
      using alloc_from_node [OF inv1 s ns1 _ av] by auto
    have "ut_alloc_from_node s (nd # ns) 0 st1 = ut_alloc_from_node s (nd # ns) 0 ?st"
      by (simp add: ut_alloc_from_node_def set_sub_pool_twice)
    then have "do_ut_alloc_from_list mok s st = Some (addr, st')"
      using None ns got'(1) r(1) by (simp add: do_ut_alloc_from_list_def pool_list_attach_def)
    then show thesis using r got'(6,7) by (intro got [of addr st']) simp_all
  qed
qed

lemma live_node:
  assumes inv: "ut_inv n st L" and s: "s \<in> {4, 9}" and ns: "sub_pool s st = Some ns" and live: "(unat addr, s) \<in> L"
  obtains i j where "i < length ns" "pool_list_find_base ns (addr AND NOT (push_bit 14 1 - 1)) = Some i"
    "addr AND NOT (push_bit 14 1 - 1) = sub_base (ns ! i)" "unat addr = unat (sub_base (ns ! i)) + j * 2 ^ s"
    "j < 2 ^ (14 - s)" "j \<notin> bf_free (sub_bitfield (ns ! i))"
proof -
  note wf = ut_invD(1) [OF inv]
  have "(unat addr, s) \<in> {b \<in> L. snd b = s}" using live by simp
  then obtain nd j where nd: "nd \<in> set ns" and j: "unat addr = unat (sub_base nd) + j * 2 ^ s"
    "j < 2 ^ (14 - s)" "j \<notin> bf_free (sub_bitfield nd)"
    unfolding live_okD(2) [OF ut_invD(4) [OF inv] s ns] by (auto simp: node_used_def idx_blocks_def)
  obtain k where k: "unat (sub_base nd) = unat (pool_base st) + k * 2 ^ 14"
    using ut_wf_nodes(2) [OF wf s ns nd] by (auto simp: node_ok_def)
  have "unat (pool_base st) mod 2 ^ 14 = 0" using wf by (simp add: ut_wf_def)
  then obtain m where m: "unat (pool_base st) = m * 2 ^ 14" by (metis dvd_def mod_0_imp_dvd mult.commute)
  have "s \<le> 14" using s by auto
  from node_slab_div [OF this j(2), of "m + k"]
  have "((m + k) * 2 ^ 14 + j * 2 ^ s) div 2 ^ 14 * 2 ^ 14 = (m + k) * 2 ^ 14" by (simp only:)
  then have "unat addr div 2 ^ 14 * 2 ^ 14 = unat (sub_base nd)"
    by (simp only: j(1) k m add_mult_distrib)
  then have base: "addr AND NOT (push_bit 14 1 - 1) = sub_base nd"
    using unat_word_align [of addr 14] by (simp add: word_unat_eq_iff)
  obtain i where "pool_list_find_base ns (sub_base nd) = Some i" "i < length ns" "ns ! i = nd"
    by (rule find_base_Some [OF nd refl ut_wf_nodes(1) [OF wf s ns]])
  with base j show thesis by (intro that [of i j]) simp_all
qed

lemma node_clr:
  assumes "node_ok a n s nd" "j < 2 ^ (14 - s)" "j \<notin> bf_free (sub_bitfield nd)"
  obtains bf where "bf_clr (sub_bitfield nd) (int j) = Some bf" "node_ok a n s (nd\<lparr>sub_bitfield := bf\<rparr>)"
    "bf_free bf = insert j (bf_free (sub_bitfield nd))" "available bf = 2 ^ (14 - s) \<longleftrightarrow> bf_free bf = {..<2 ^ (14 - s)}"
proof -
  let ?u = "2 ^ (14 - s) :: nat"
  have ok: "wf_bf (sub_bitfield nd)" "nat (bf_size (sub_bitfield nd)) = ?u" "0 \<le> bf_size (sub_bitfield nd)"
    using assms(1) by (simp_all add: node_ok_def nat_power_eq)
  obtain bf where bf: "bf_clr (sub_bitfield nd) (int j) = Some bf" "wf_bf bf"
    "bf_free bf = insert j (bf_free (sub_bitfield nd))" "nat (bf_size bf) = nat (bf_size (sub_bitfield nd))"
    "next_free bf = next_free (sub_bitfield nd)"
    using bfp.clr_law [OF ok(1), of j] assms(2,3) ok(2) by auto
  have "bf_size bf = bf_size (sub_bitfield nd)"
    using bf(2,4) ok(3) eq_nat_nat_iff by (simp add: wf_bf_def)
  then have ok': "node_ok a n s (nd\<lparr>sub_bitfield := bf\<rparr>)"
    using assms(1) bf(2,5) by (simp add: node_ok_def hint_ok_def)
  have sub: "bf_free bf \<subseteq> {..<?u}" using node_free_bound [OF ok'] by simp
  have "available bf = int (card (bf_free bf))" using bf(2) by (simp add: wf_bf_def)
  then have "available bf = 2 ^ (14 - s) \<longleftrightarrow> card (bf_free bf) = card {..<?u}"
    by (metis card_lessThan of_nat_eq_iff of_nat_numeral of_nat_power)
  also have "\<dots> \<longleftrightarrow> bf_free bf = {..<?u}"
    using card_subset_eq [OF finite_lessThan sub] by metis
  finally show thesis using bf ok' by (intro that)
qed

lemma detach_update [simp]: "pool_list_detach i (ns[i := x]) = pool_list_detach i ns"
  by (simp add: pool_list_detach_def)

lemma free_from_list_spec:
  assumes inv: "ut_inv n st L" and s: "s \<in> {4, 9}" and ns: "sub_pool s st = Some ns" and live: "(unat addr, s) \<in> L"
  obtains st' where "do_ut_free_from_list addr s st = Some st'" "ut_inv n st' (L - {(unat addr, s)})"
    "hints_ok st' = hints_ok st"
proof -
  note wf = ut_invD(1) [OF inv]
  have s14: "s < 14" using s by auto
  obtain i j where i: "i < length ns" "pool_list_find_base ns (addr AND NOT (push_bit 14 1 - 1)) = Some i"
    and base: "addr AND NOT (push_bit 14 1 - 1) = sub_base (ns ! i)"
    and j: "unat addr = unat (sub_base (ns ! i)) + j * 2 ^ s" "j < 2 ^ (14 - s)" "j \<notin> bf_free (sub_bitfield (ns ! i))"
    by (rule live_node [OF inv s ns live])
  have ok: "node_ok (unat (pool_base st)) n s (ns ! i)" using ut_wf_nodes(2) [OF wf s ns] i(1) by simp
  obtain bf where bf: "bf_clr (sub_bitfield (ns ! i)) (int j) = Some bf"
    "node_ok (unat (pool_base st)) n s ((ns ! i)\<lparr>sub_bitfield := bf\<rparr>)"
    "bf_free bf = insert j (bf_free (sub_bitfield (ns ! i)))" "available bf = 2 ^ (14 - s) \<longleftrightarrow> bf_free bf = {..<2 ^ (14 - s)}"
    by (rule node_clr [OF ok j(2,3)])
  let ?ns = "ns[i := (ns ! i)\<lparr>sub_bitfield := bf\<rparr>]"
  let ?st = "set_sub_pool s ?ns st" and ?L = "L - {(unat addr, s)}" and ?x = "(unat (sub_base (ns ! i)), 14)"
  have inv1: "ut_inv n ?st ?L"
    using ut_inv_node_give [OF inv s ns i(1) _ bf(2)] j live bf(3) by simp
  have run: "do_ut_free_from_list addr s st =
      (if available bf = 2 ^ (14 - s) then do_ut_free_from_bitfield (sub_base (ns ! i)) 14 (set_sub_pool s (pool_list_detach i ns) st)
       else Some ?st)"
    unfolding do_ut_free_from_list_def Let_def base
    using ns i base bf(1) ut_block_offset [OF j(1)] by simp
  show thesis
  proof (cases "available bf = 2 ^ (14 - s)")
    case False
    then show thesis using run inv1 by (intro that [of ?st]) simp_all
  next
    case True
    have "(unat addr, s) \<in> slices (unat (sub_base (ns ! i))) s (2 ^ (14 - s))"
      using j(1,2) by (auto simp: slices_iff)
    then have "?x \<notin> L" using slab_excl [OF inv s14, of "unat (sub_base (ns ! i))"] live by blast
    then have L: "insert ?x ?L - {?x} = ?L" by blast
    have inv2: "ut_inv n (set_sub_pool s (pool_list_detach i ns) st) (insert ?x ?L)"
      using ut_inv_detach [OF inv1 s, of ?ns i] s i(1) True bf(4) by simp
    have "?x \<in> insert ?x ?L" "14 \<in> {10, 12, 14::nat}" by simp_all
    from free_from_bitfield_spec [OF inv2 this(2,1)] obtain st' where
      "do_ut_free_from_bitfield (sub_base (ns ! i)) 14 (set_sub_pool s (pool_list_detach i ns) st) = Some st'"
      "ut_inv n st' ?L" "hints_ok st' = hints_ok st"
      unfolding L hints_ok_set_sub by metis
    then show thesis using True run by (intro that [of st']) simp_all
  qed
qed

section \<open>Exported functions\<close>

definition ut_sizes :: "nat set" where
  "ut_sizes = {4, 9, 10, 12, 14}"

lemma ut_inv_live_block:
  assumes "ut_inv n st L" "(a, s) \<in> L"
  shows "a mod 2 ^ s = 0" "span (a, s) \<subseteq> arena n st" "0 < a"
    "\<And>b. b \<in> L \<Longrightarrow> b \<noteq> (a, s) \<Longrightarrow> span b \<inter> span (a, s) = {}"
proof -
  note wf = ut_invD(1) [OF assms(1)] and part = ut_invD(3) [OF assms(1)]
  obtain i where i: "a = unat (pool_base st) + i * 2 ^ s" "s \<in> {4, 9, 10, 12, 14}"
    using live_okD(1) [OF ut_invD(4) [OF assms(1)] assms(2)] by auto
  then have "(2::nat) ^ s dvd 2 ^ 14" by (intro le_imp_power_dvd) auto
  moreover have "2 ^ 14 dvd unat (pool_base st)" using wf unfolding ut_wf_def by (simp only: mod_0_imp_dvd)
  ultimately have "2 ^ s dvd a" unfolding i(1) by (intro dvd_add) (auto intro: dvd_trans)
  then show "a mod 2 ^ s = 0" by simp
  show "span (a, s) \<subseteq> arena n st" using partition_sub [OF part] assms(2) by blast
  show "0 < a" using wf i(1) by (simp add: ut_wf_def)
  show "span b \<inter> span (a, s) = {}" if "b \<in> L" "b \<noteq> (a, s)" for b
    using partition_disjoint [OF part] that assms(2) by blast
qed

text \<open>The two ways an allocation can end, over all sizes.\<close>

lemma ut_alloc_spec:
  assumes inv: "ut_inv n st L" and h: "hints_ok st" and s: "s \<in> ut_sizes"
  obtains (none) st' where "ut_alloc mok s st = Some (0, st')" "ut_inv n st' L"
      "mok 0 \<and> mok 1 \<and> mok 2 \<Longrightarrow> \<forall>b\<in>free_blocks st. snd b \<noteq> s \<and> snd b \<noteq> 14"
  | (got) addr st' where "ut_alloc mok s st = Some (addr, st')" "addr \<noteq> 0"
      "ut_inv n st' (insert (unat addr, s) L)" "(unat addr, s) \<notin> L" "hints_ok st'" "pool_base st' = pool_base st"
proof -
  note wf = ut_invD(1) [OF inv]
  obtain p where p: "bf_pool 14 st = Some p" and pok: "bf_pool_ok n 14 p" using ut_wf_pool [OF wf, of 14] by auto
  have init: "ut_initialised st" "pool14 st \<noteq> None" using wf p by (simp_all add: ut_wf_def pool14_as_pool)
  have base: "0 < unat (pool_base st)" using wf by (simp add: ut_wf_def)
  have "{b \<in> free_blocks st. snd b = 14} = {}" if "bf_free p = {}"
    unfolding free_blocks_of_pool [OF _ p, simplified] that by simp
  then have nofree: "\<forall>b\<in>free_blocks st. snd b \<noteq> s \<and> snd b \<noteq> 14"
    if "{b \<in> free_blocks st. snd b = s} = {}" "bf_free p = {}"
    using that by blast
  show thesis
  proof (cases "s \<in> {4, 9}")
    case True
    then obtain ns where ns: "sub_pool s st = Some ns" by (auto simp: sub_pool_def)
    have run: "ut_alloc mok s st = do_ut_alloc_from_list mok s st"
      using True init by (simp add: ut_alloc_def)
    from inv True ns p show thesis
    proof (cases rule: alloc_from_list_spec [where mok = mok])
      case none': (none st')
      have "{b \<in> free_blocks st. snd b = s} = {}"
        unfolding free_blocks_of_sub [OF True ns] using none'(4) by (simp add: node_blocks_def)
      with none'(5) have "mok 0 \<and> mok 1 \<and> mok 2 \<Longrightarrow> \<forall>b\<in>free_blocks st. snd b \<noteq> s \<and> snd b \<noteq> 14"
        using nofree by blast
      with run none'(1,2) show thesis by (intro none [of st']) simp_all
    next
      case got': (got addr st')
      then show thesis using run h by (intro got [of addr st']) simp_all
    qed
  next
    case False
    then have s': "s \<in> {10, 12, 14}" using s by (auto simp: ut_sizes_def)
    obtain bf where bf: "bf_pool s st = Some bf" "bf_pool_ok n s bf" using ut_wf_pool [OF wf s'] by blast
    have hb: "hint_ok bf" using h bf s' by (auto simp: hints_ok_def bf_pool_ok_def)
    have run: "ut_alloc mok s st = do_ut_alloc_from_bitfield s st"
      using False s' init by (simp add: ut_alloc_def)
    from inv s' bf(1) p hb show thesis
    proof (cases rule: alloc_from_bitfield_spec)
      case none': (none st')
      have "{b \<in> free_blocks st. snd b = s} = {}"
        unfolding free_blocks_of_pool [OF s' bf(1)] none'(4) by simp
      then have "\<forall>b\<in>free_blocks st. snd b \<noteq> s \<and> snd b \<noteq> 14" using none'(5) by (rule nofree)
      with run none'(1,2) show thesis by (intro none [of st']) simp_all
    next
      case got': (got i addr st')
      then have "addr \<noteq> 0" using base by auto
      then show thesis using got' run h by (intro got [of addr st']) simp_all
    qed
  qed
qed

lemma ut_free_spec:
  assumes inv: "ut_inv n st L" and live: "(unat addr, s) \<in> L"
  obtains st' where "ut_free addr s st = Some st'" "ut_inv n st' (L - {(unat addr, s)})" "hints_ok st' = hints_ok st"
proof -
  note blk = ut_inv_live_block [OF inv live]
  have nz: "addr \<noteq> 0" using blk(3) by auto
  have al: "addr AND (push_bit s 1 - 1) = 0" using blk(1) by (simp only: word_and_mask_0)
  have s: "s \<in> {4, 9} \<or> s \<in> {10, 12, 14}"
    using live_okD(1) [OF ut_invD(4) [OF inv] live] by auto
  then show thesis
  proof
    assume s: "s \<in> {4, 9}"
    then obtain ns where ns: "sub_pool s st = Some ns" by (auto simp: sub_pool_def)
    have run: "ut_free addr s st = do_ut_free_from_list addr s st"
      unfolding ut_free_def al using s nz by simp
    from inv s ns live show thesis
      by (rule free_from_list_spec) (use run that in simp)
  next
    assume s: "s \<in> {10, 12, 14}"
    then have "s \<notin> {4, 9}" by auto
    then have run: "ut_free addr s st = do_ut_free_from_bitfield addr s st"
      unfolding ut_free_def al using s nz by simp
    from inv s live show thesis
      by (rule free_from_bitfield_spec) (use run that in simp)
  qed
qed

section \<open>Initialisation\<close>

lemma unat_FLOOR14: "unat (FLOOR14 x) = unat x div 2 ^ 14 * 2 ^ 14"
  unfolding FLOOR14_def by (rule unat_word_align)

lemma unat_CEILING14:
  assumes "unat x + 2 ^ 14 \<le> 2 ^ 32"
  shows "unat (CEILING14 x) = (unat x + (2 ^ 14 - 1)) div 2 ^ 14 * 2 ^ 14"
proof -
  have "x + push_bit 14 1 - 1 = word_of_int (int (2 ^ 14 - 1)) + x" by (simp add: push_bit_eq_mult)
  also have "unat \<dots> = unat x + (2 ^ 14 - 1)" by (rule unat_word_plus_nat) (use assms in simp)
  finally show ?thesis unfolding CEILING14_def unat_FLOOR14 by (simp only:)
qed

lemma init_pool14:
  obtains bf where "new_bitfield True True (int n) BITFIELD_INIT_FILLED = Some (Some bf)"
    "wf_bf bf" "hint_ok bf" "bf_size bf = int n" "bf_free bf = {}"
  using new_bitfield_filled [of "int n"] by auto

lemma init_clear_all:
  assumes "wf_bf bf" "bf_size bf = int n" "bf_free bf = {}" "hint_ok bf"
  obtains bf' where "for_loop (\<lambda>i bf. bf_clr bf (int i)) n 0 bf = Some bf'" "wf_bf bf'" "hint_ok bf'"
    "bf_size bf' = int n" "bf_free bf' = {..<n}"
proof -
  obtain bf' where r: "for_loop (\<lambda>i b. bf_clr b (int 0 + int i)) n 0 bf = Some bf'" "wf_bf bf'"
    "bf_free bf' = bf_free bf \<union> {0..<0 + n}" "nat (bf_size bf') = nat (bf_size bf)" "next_free bf' = next_free bf"
    using bfp.clr_range [OF assms(1), of 0 n] assms by auto
  moreover have "bf_size bf' = int n" using r(2,4) assms(2) by (auto simp: wf_bf_def)
  ultimately show thesis
    using assms by (intro that [of bf']) (auto simp: hint_ok_def)
qed

lemma init_inv:
  assumes p: "wf_bf p14" "hint_ok p14" "bf_size p14 = int n" "bf_free p14 = {..<n}"
    and q: "wf_bf p12" "hint_ok p12" "bf_size p12 = int (n * 4)" "bf_free p12 = {}"
    and r: "wf_bf p10" "hint_ok p10" "bf_size p10 = int (n * 16)" "bf_free p10 = {}"
    and b: "0 < unat b" "unat b mod 2 ^ 14 = 0" "unat b + n * 2 ^ 14 \<le> 2 ^ 32"
    and st: "st = st0\<lparr>pool_base := b, pool14 := Some p14, pool12 := Some p12, pool10 := Some p10, pool9 := [], pool4 := [],
              ut_initialised := True\<rparr>"
  shows "ut_inv n st {}" "hints_ok st"
proof -
  have wf: "ut_wf n st"
    using assms by (simp add: ut_wf_def bf_pool_def sub_pool_def bf_pool_ok_def)
  have "free_blocks st = slices (unat b) 14 n"
    using p q r by (simp add: st free_blocks_def bf_blocks_def sub_blocks_def bf_pool_def sub_pool_def idx_blocks_def slices_def)
  then have "partition_of (arena n st) (free_blocks st)"
    using partition_slices [of "unat b" n 14] by (simp add: arena_def st)
  moreover have "live_ok st {}" by (simp add: st live_ok_def sub_pool_def)
  ultimately show "ut_inv n st {}" using wf by (simp add: ut_inv_def)
  show "hints_ok st" using q r by (simp add: st hints_ok_def bf_pool_def)
qed

lemma init_spec:
  assumes "\<not> ut_initialised st" "\<forall>i<6. mok i" "2 ^ 14 \<le> unat low" "unat low \<le> unat high" "unat high + 2 ^ 14 \<le> 2 ^ 32"
  obtains st' n where "ut_allocator_init mok low high st = Some st'" "ut_inv n st' {}" "hints_ok st'"
    "{unat low..<unat high} \<subseteq> arena n st'"
proof -
  let ?lo = "unat low div 2 ^ 14" and ?hi = "(unat high + (2 ^ 14 - 1)) div 2 ^ 14"
  define n where "n = ?hi - ?lo"
  have lohi: "?lo \<le> ?hi" by (rule div_le_mono) (use assms(4) in simp)
  note lo = unat_FLOOR14 [of low] and hi = unat_CEILING14 [OF assms(5)]
  have m: "unat (CEILING14 high - FLOOR14 low) = n * 2 ^ 14"
    using lohi lo hi by (simp add: unat_sub word_le_nat_alt n_def diff_mult_distrib)
  have d: "unat (drop_bit 14 (CEILING14 high - FLOOR14 low)) = n"
    "unat (drop_bit 12 (CEILING14 high - FLOOR14 low)) = n * 4" "unat (drop_bit 10 (CEILING14 high - FLOOR14 low)) = n * 16"
    by (simp_all only: unat_drop_bit_eq m) (simp_all add: drop_bit_eq_div)
  obtain b14 where b14: "new_bitfield True True (int n) BITFIELD_INIT_FILLED = Some (Some b14)"
    "wf_bf b14" "hint_ok b14" "bf_size b14 = int n" "bf_free b14 = {}" by (rule init_pool14)
  obtain p12 where p12: "new_bitfield True True (int (n * 4)) BITFIELD_INIT_FILLED = Some (Some p12)"
    "wf_bf p12" "hint_ok p12" "bf_size p12 = int (n * 4)" "bf_free p12 = {}" by (rule init_pool14)
  obtain p10 where p10: "new_bitfield True True (int (n * 16)) BITFIELD_INIT_FILLED = Some (Some p10)"
    "wf_bf p10" "hint_ok p10" "bf_size p10 = int (n * 16)" "bf_free p10 = {}" by (rule init_pool14)
  obtain p14 where p14: "for_loop (\<lambda>i bf. bf_clr bf (int i)) n 0 b14 = Some p14" "wf_bf p14" "hint_ok p14"
    "bf_size p14 = int n" "bf_free p14 = {..<n}" by (rule init_clear_all [OF b14(2,4,5,3)])
  let ?st = "st\<lparr>pool_base := FLOOR14 low, pool14 := Some p14, pool12 := Some p12, pool10 := Some p10, pool9 := [], pool4 := [],
              ut_initialised := True\<rparr>"
  have run: "ut_allocator_init mok low high st = Some ?st"
  proof -
    have mok: "mok 0" "mok (Suc 0)" "mok 2" "mok 3" "mok 4" "mok 5" using assms(2) by simp_all
    have u: "uint (drop_bit 14 (CEILING14 high - FLOOR14 low)) = int n"
      "uint (drop_bit 12 (CEILING14 high - FLOOR14 low)) = int (n * 4)"
      "uint (drop_bit 10 (CEILING14 high - FLOOR14 low)) = int (n * 16)"
      by (simp_all only: uint_nat d)
    have z: "drop_bit 14 (CEILING14 high - FLOOR14 low) = 0 \<longleftrightarrow> n = 0"
      using d(1) by (metis unat_eq_zero)
    have "p14 = b14" if "n = 0" using that p14(1) by simp
    then show ?thesis
      unfolding ut_allocator_init_def Let_def u d z
      using assms(1) b14(1) p12(1) p10(1) p14(1) mok by (simp add: bind_eq_Some_conv del: of_nat_mult)
  qed
  have hi32: "?hi * 2 ^ 14 \<le> 2 ^ 32"
    using hi unat_bound [of "CEILING14 high"] by simp
  have "unat (FLOOR14 low) + n * 2 ^ 14 = ?hi * 2 ^ 14"
    unfolding lo n_def using lohi by (simp add: diff_mult_distrib)
  moreover have "0 < unat (FLOOR14 low)" using assms(3) lo by (simp add: div_greater_zero_iff)
  ultimately have inv: "ut_inv n ?st {}" "hints_ok ?st"
    using init_inv [OF p14(2-5) p12(2-5) p10(2-5), of "FLOOR14 low" ?st st] lo hi32 by simp_all
  have "unat (FLOOR14 low) \<le> unat low" unfolding lo by (rule div_times_less_eq_dividend)
  moreover have "unat high \<le> ?hi * 2 ^ 14" by simp
  ultimately have "{unat low..<unat high} \<subseteq> arena n ?st"
    using \<open>unat (FLOOR14 low) + n * 2 ^ 14 = ?hi * 2 ^ 14\<close> by (auto simp: arena_def)
  with run inv show thesis by (intro that)
qed

section \<open>Properties\<close>

text \<open>C1: Starting from a well-formed allocator whose search hints are in range, an allocation of any supported
  size returns. If it returns \<open>0\<close> the live blocks are unchanged, and (when \<^verbatim>\<open>malloc\<close> did not fail) there was
  neither a free block of that size nor a free slab to cut one from. Otherwise the returned block was not live, is
  aligned to its size, lies in the managed memory, overlaps no live block, and joins the live blocks; the free and
  live blocks still partition the managed memory.\<close>

theorem ut_alloc_correct:
  assumes "ut_inv n st L" and "hints_ok st" and "s \<in> ut_sizes"
  shows "\<exists>addr st'. ut_alloc mok s st = Some (addr, st') \<and>
    (if addr = 0 then ut_inv n st' L \<and> (mok 0 \<and> mok 1 \<and> mok 2 \<longrightarrow> (\<forall>b\<in>free_blocks st. snd b \<noteq> s \<and> snd b \<noteq> 14))
     else ut_inv n st' (insert (unat addr, s) L) \<and> hints_ok st' \<and> (unat addr, s) \<notin> L \<and> unat addr mod 2 ^ s = 0 \<and>
       span (unat addr, s) \<subseteq> arena n st \<and> (\<forall>b\<in>L. span b \<inter> span (unat addr, s) = {}))"
  using assms
proof (cases rule: ut_alloc_spec [where mok = mok])
  case (none st')
  have "mok 0 \<and> mok 1 \<and> mok 2 \<longrightarrow> (\<forall>b\<in>free_blocks st. snd b \<noteq> s \<and> snd b \<noteq> 14)"
    using none(3) by (rule impI)
  with none(1,2) show ?thesis by (intro exI [of _ 0] exI [of _ st']) (simp only: if_True simp_thms)
next
  case (got addr st')
  note blk = ut_inv_live_block [OF got(3) insertI1]
  have "\<forall>b\<in>L. span b \<inter> span (unat addr, s) = {}" using blk(4) got(4) by blast
  moreover have "arena n st' = arena n st" using got(6) by (simp add: arena_def)
  ultimately show ?thesis
    using got blk(1,2) by (intro exI [of _ addr] exI [of _ st']) simp
qed

definition ut_boot_state :: ut_allocator where
  "ut_boot_state = \<lparr>pool14 = None, pool12 = None, pool10 = None, pool9 = [], pool4 = [], ut_initialised = False, pool_base = 0\<rparr>"

lemma ut_boot_init:
  obtains st n where "ut_allocator_init (\<lambda>_. True) 0x10000000 0x10010000 ut_boot_state = Some st"
    "ut_inv n st {}" "hints_ok st"
proof (rule init_spec [of ut_boot_state "\<lambda>_. True" "0x10000000" "0x10010000"])
  show "\<not> ut_initialised ut_boot_state" by (simp add: ut_boot_state_def)
qed (use that in simp_all)

theorem ut_alloc_correct_witness:
  "\<exists>st. ut_allocator_init (\<lambda>_. True) 0x10000000 0x10010000 ut_boot_state = Some st \<and>
     (\<exists>addr st'. ut_alloc (\<lambda>_. True) 9 st = Some (addr, st') \<and> (addr \<noteq> 0 \<longrightarrow> unat addr mod 2 ^ 9 = 0))"
proof -
  obtain st n where st: "ut_allocator_init (\<lambda>_. True) 0x10000000 0x10010000 ut_boot_state = Some st"
    "ut_inv n st {}" "hints_ok st" by (rule ut_boot_init)
  have "9 \<in> ut_sizes" by (simp add: ut_sizes_def)
  from ut_alloc_correct [OF st(2,3) this, of "\<lambda>_. True"] st(1) show ?thesis by (auto split: if_splits)
qed



text \<open>C5: Initialising the allocator on a physical range (above the first slab, not reaching into the last slab of the
  address space, with every \<^verbatim>\<open>malloc\<close> successful) makes every byte of the range available: the free blocks partition a
  slab-aligned superset of it and nothing is live.\<close>

theorem ut_allocator_init_correct:
  assumes "\<not> ut_initialised st" and "\<forall>i<6. mok i" and "2 ^ 14 \<le> unat low" and "unat low \<le> unat high"
    and "unat high + 2 ^ 14 \<le> 2 ^ 32"
  shows "\<exists>st' n. ut_allocator_init mok low high st = Some st' \<and> ut_inv n st' {} \<and> hints_ok st' \<and>
    {unat low..<unat high} \<subseteq> arena n st'"
  by (rule init_spec [OF assms]) blast

theorem ut_allocator_init_correct_witness:
  "\<exists>st' n. ut_allocator_init (\<lambda>_. True) 0x10000000 0x10012345 ut_boot_state = Some st' \<and> ut_inv n st' {}"
  using ut_allocator_init_correct [of ut_boot_state "\<lambda>_. True" "0x10000000" "0x10012345"]
  by (auto simp: ut_boot_state_def)


end
