(* ===== verification/UtTable.thy ===== *)
theory UtTable
  imports Sos_Prelude "HOL-Library.Multiset"
begin

text \<open>
  The untyped table of \<^verbatim>\<open>ut_manager/ut.c\<close>: the boot information's untyped regions, filtered by
  size, sorted by address and cut down to the largest contiguous run, and the translation of a
  physical address to an untyped capability and an offset. \<^verbatim>\<open>qsort\<close> of the C library is a
  parameter of the initialisation.
\<close>

section \<open>Definitions\<close>

record seL4_BootInfo =
  bi_untyped_start :: u32
  bi_untyped_end :: u32
  bi_deviceUntyped_start :: u32
  bi_deviceUntyped_end :: u32
  untypedPaddrList :: "u32 list"
  untypedSizeBitsList :: "u8 list"

record ut_table =
  ut_map :: "int list"
  ut_count :: int
  ut_low :: u32
  ut_high :: u32

definition MIN_UT_SIZE_BITS :: nat where
  "MIN_UT_SIZE_BITS = 14"

definition ut_align :: "u32 \<Rightarrow> u32 \<Rightarrow> u32" where
  "ut_align x base = x AND NOT (base - 1)"

definition ut_align_top :: "u32 \<Rightarrow> u32 \<Rightarrow> u32" where
  "ut_align_top x base = ut_align (x + (base - 1)) base"

definition UT_SIZEBITS :: "seL4_BootInfo \<Rightarrow> ut_table \<Rightarrow> int \<Rightarrow> u8 option" where
  "UT_SIZEBITS bi ut i = do { m \<leftarrow> arr_get (ut_map ut) i; arr_get (untypedSizeBitsList bi) m }"

definition UT_PSTART :: "seL4_BootInfo \<Rightarrow> ut_table \<Rightarrow> int \<Rightarrow> u32 option" where
  "UT_PSTART bi ut i = do { m \<leftarrow> arr_get (ut_map ut) i; arr_get (untypedPaddrList bi) m }"

definition UT_PEND :: "seL4_BootInfo \<Rightarrow> ut_table \<Rightarrow> int \<Rightarrow> u32 option" where
  "UT_PEND bi ut i = do {
     p \<leftarrow> UT_PSTART bi ut i;
     s \<leftarrow> UT_SIZEBITS bi ut i;
     Some (p + push_bit (unat s) 1) }"

definition UT_CAP :: "seL4_BootInfo \<Rightarrow> ut_table \<Rightarrow> int \<Rightarrow> u32 option" where
  "UT_CAP bi ut i = do { m \<leftarrow> arr_get (ut_map ut) i; Some (bi_untyped_start bi + word_of_int m) }"

definition fill_table :: "seL4_BootInfo \<Rightarrow> ut_table \<Rightarrow> ut_table option" where
  "fill_table bi ut = do {
     let count = uint (bi_untyped_end bi - bi_untyped_start bi);
     m \<leftarrow> for_loop (\<lambda>i m. arr_set m (int i) (int i)) (nat count) 0 (ut_map ut);
     Some (ut\<lparr>ut_count := count, ut_map := m\<rparr>) }"

text \<open>The loop of \<^verbatim>\<open>_strip_min\<close> and \<^verbatim>\<open>_strip_max\<close>: it keeps, in place, the entries that pass the test.\<close>

definition strip_table :: "(u8 \<Rightarrow> bool) \<Rightarrow> seL4_BootInfo \<Rightarrow> ut_table \<Rightarrow> ut_table option" where
  "strip_table keep bi ut = do {
     (j, m) \<leftarrow> for_loop (\<lambda>i (j, m). do {
        s \<leftarrow> UT_SIZEBITS bi (ut\<lparr>ut_map := m\<rparr>) (int i);
        if keep s then do {
          v \<leftarrow> arr_get m (int i);
          m \<leftarrow> arr_set m j v;
          Some (j + 1, m) }
        else Some (j, m) }) (nat (ut_count ut)) 0 (0, ut_map ut);
     Some (ut\<lparr>ut_map := m, ut_count := j\<rparr>) }"

definition strip_min :: "nat \<Rightarrow> seL4_BootInfo \<Rightarrow> ut_table \<Rightarrow> ut_table option" where
  "strip_min min_bits = strip_table (\<lambda>s. min_bits \<le> unat s)"

definition strip_max :: "nat \<Rightarrow> seL4_BootInfo \<Rightarrow> ut_table \<Rightarrow> ut_table option" where
  "strip_max max_bits = strip_table (\<lambda>s. unat s \<le> max_bits)"

definition ut_cmp :: "seL4_BootInfo \<Rightarrow> int \<Rightarrow> int \<Rightarrow> int" where
  "ut_cmp bi a b = sint (untypedPaddrList bi ! nat a - untypedPaddrList bi ! nat b)"

definition sort_table ::
  "((int \<Rightarrow> int \<Rightarrow> int) \<Rightarrow> int list \<Rightarrow> int list) \<Rightarrow> seL4_BootInfo \<Rightarrow> ut_table \<Rightarrow> ut_table" where
  "sort_table qsort bi ut =
     ut\<lparr>ut_map := qsort (ut_cmp bi) (take (nat (ut_count ut)) (ut_map ut)) @ drop (nat (ut_count ut)) (ut_map ut)\<rparr>"

definition reduce_table :: "nat \<Rightarrow> nat \<Rightarrow> seL4_BootInfo \<Rightarrow> ut_table \<Rightarrow> ut_table option" where
  "reduce_table min_bits max_bits bi ut = do {
     ut \<leftarrow> (if min_bits > 0 then strip_min min_bits bi ut else Some ut);
     if max_bits > 0 then strip_max max_bits bi ut else Some ut }"

record contig =
  contig_start :: int
  contig_size :: u32
  contig_end :: int
  this_start :: int
  this_size :: u32

definition contig_boundary :: "seL4_BootInfo \<Rightarrow> ut_table \<Rightarrow> nat \<Rightarrow> bool option" where
  "contig_boundary bi ut i =
     (if int i + 1 \<ge> ut_count ut then Some True
      else do {
        e \<leftarrow> UT_PEND bi ut (int i);
        b \<leftarrow> UT_PSTART bi ut (int i + 1);
        Some (e \<noteq> b) })"

definition contig_close :: "nat \<Rightarrow> contig \<Rightarrow> contig" where
  "contig_close i c =
     (let c = (if contig_size c < this_size c
               then c\<lparr>contig_size := this_size c, contig_start := this_start c, contig_end := int i + 1\<rparr>
               else c)
      in c\<lparr>this_start := int i + 1, this_size := 0\<rparr>)"

definition contig_step :: "seL4_BootInfo \<Rightarrow> ut_table \<Rightarrow> nat \<Rightarrow> contig \<Rightarrow> contig option" where
  "contig_step bi ut i c = do {
     s \<leftarrow> UT_SIZEBITS bi ut (int i);
     let c = c\<lparr>this_size := this_size c + push_bit (unat s) 1\<rparr>;
     boundary \<leftarrow> contig_boundary bi ut i;
     Some (if boundary then contig_close i c else c) }"

definition select_largest_contiguous :: "seL4_BootInfo \<Rightarrow> ut_table \<Rightarrow> ut_table option" where
  "select_largest_contiguous bi ut = do {
     c_assert (ut_count ut \<noteq> 0);
     c \<leftarrow> for_loop (contig_step bi ut) (nat (ut_count ut)) 0
            \<lparr>contig_start = 0, contig_size = 0, contig_end = 0, this_start = 0, this_size = 0\<rparr>;
     m \<leftarrow> for_loop (\<lambda>i m. do { v \<leftarrow> arr_get m (contig_start c + int i); arr_set m (int i) v })
            (nat (contig_end c - contig_start c)) 0 (ut_map ut);
     Some (ut\<lparr>ut_map := m, ut_count := int (nat (contig_end c - contig_start c))\<rparr>) }"

text \<open>Results of the translations: the untyped capability and the offset, or failure.\<close>

fun ut_translate_device_loop :: "seL4_BootInfo \<Rightarrow> u32 \<Rightarrow> nat \<Rightarrow> nat \<Rightarrow> nat \<Rightarrow> (u32 \<times> u32) option option" where
  "ut_translate_device_loop bi addr 0 k i = Some None"
| "ut_translate_device_loop bi addr (Suc n) k i = do {
     p \<leftarrow> arr_get (untypedPaddrList bi) (int i);
     s \<leftarrow> arr_get (untypedSizeBitsList bi) (int i);
     if p \<le> addr \<and> addr < p + push_bit (unat s) 1
     then Some (Some (bi_deviceUntyped_start bi + of_nat k, addr - p))
     else ut_translate_device_loop bi addr n (Suc k) (Suc i) }"

definition ut_translate_device :: "seL4_BootInfo \<Rightarrow> u32 \<Rightarrow> (u32 \<times> u32) option option" where
  "ut_translate_device bi addr =
     ut_translate_device_loop bi addr (unat (bi_deviceUntyped_end bi) - unat (bi_deviceUntyped_start bi)) 0
       (unat (bi_untyped_end bi - bi_untyped_start bi))"

function ut_search :: "seL4_BootInfo \<Rightarrow> ut_table \<Rightarrow> u32 \<Rightarrow> int \<Rightarrow> int \<Rightarrow> (u32 \<times> u32) option option" where
  "ut_search bi ut addr start end =
     (if start < end then do {
        let index = drop_bit 1 (start + end);
        p \<leftarrow> UT_PSTART bi ut index;
        e \<leftarrow> UT_PEND bi ut index;
        if addr < p then ut_search bi ut addr start index
        else if e \<le> addr then ut_search bi ut addr (index + 1) end
        else do { cap \<leftarrow> UT_CAP bi ut index; Some (Some (cap, addr - p)) } }
      else ut_translate_device bi addr)"
  by pat_completeness auto
termination
  by (relation "measure (\<lambda>(bi, ut, addr, start, end). nat (end - start))") (auto simp: drop_bit_eq_div)

declare ut_search.simps [simp del]

definition ut_translate :: "seL4_BootInfo \<Rightarrow> ut_table \<Rightarrow> u32 \<Rightarrow> (u32 \<times> u32) option option" where
  "ut_translate bi ut addr = ut_search bi ut addr 0 (ut_count ut)"

text \<open>A missing boot information block is reported as an error; otherwise the result is \<open>0\<close>.\<close>

definition ut_table_init ::
  "((int \<Rightarrow> int \<Rightarrow> int) \<Rightarrow> int list \<Rightarrow> int list) \<Rightarrow> seL4_BootInfo option \<Rightarrow> ut_table \<Rightarrow> (int \<times> ut_table) option" where
  "ut_table_init qsort bi_ptr ut =
     (case bi_ptr of
        None \<Rightarrow> Some (1, ut)
      | Some bi \<Rightarrow> do {
          ut \<leftarrow> fill_table bi ut;
          ut \<leftarrow> reduce_table MIN_UT_SIZE_BITS 0 bi ut;
          let ut = sort_table qsort bi ut;
          ut \<leftarrow> select_largest_contiguous bi ut;
          low \<leftarrow> UT_PSTART bi ut 0;
          high \<leftarrow> UT_PEND bi ut (ut_count ut - 1);
          Some (0, ut\<lparr>ut_low := low, ut_high := high\<rparr>) })"

definition ut_find_memory :: "ut_table \<Rightarrow> u32 \<times> u32" where
  "ut_find_memory ut = (ut_low ut, ut_high ut)"

definition ut_steal_mem :: "nat \<Rightarrow> ut_table \<Rightarrow> u32 \<times> ut_table" where
  "ut_steal_mem sizebits ut =
     (let paddr = ut_align_top (ut_low ut) (push_bit sizebits 1) in
      if paddr + push_bit sizebits 1 \<le> ut_high ut
      then (paddr, ut\<lparr>ut_low := paddr + push_bit sizebits 1\<rparr>)
      else (0, ut))"

section \<open>Well-formed tables\<close>

text \<open>Start and size of the \<open>k\<close>-th untyped of the boot information, as natural numbers.\<close>

definition ut_start :: "seL4_BootInfo \<Rightarrow> int \<Rightarrow> nat" where
  "ut_start bi k = unat (untypedPaddrList bi ! nat k)"

definition ut_bits :: "seL4_BootInfo \<Rightarrow> int \<Rightarrow> nat" where
  "ut_bits bi k = unat (untypedSizeBitsList bi ! nat k)"

definition ut_end :: "seL4_BootInfo \<Rightarrow> int \<Rightarrow> nat" where
  "ut_end bi k = ut_start bi k + 2 ^ ut_bits bi k"

definition num_untyped :: "seL4_BootInfo \<Rightarrow> nat" where
  "num_untyped bi = unat (bi_untyped_end bi - bi_untyped_start bi)"

definition bi_ok :: "seL4_BootInfo \<Rightarrow> bool" where
  "bi_ok bi \<longleftrightarrow> (\<forall>k < num_untyped bi. k < length (untypedPaddrList bi) \<and> k < length (untypedSizeBitsList bi) \<and>
     ut_end bi (int k) < 2 ^ 32)"

definition tab_ok :: "seL4_BootInfo \<Rightarrow> ut_table \<Rightarrow> bool" where
  "tab_ok bi ut \<longleftrightarrow> 0 \<le> ut_count ut \<and> nat (ut_count ut) \<le> length (ut_map ut) \<and>
     (\<forall>i < nat (ut_count ut). 0 \<le> ut_map ut ! i \<and> nat (ut_map ut ! i) < num_untyped bi)"

lemma tab_okD:
  assumes "tab_ok bi ut" "i < nat (ut_count ut)"
  shows "i < length (ut_map ut)" "0 \<le> ut_map ut ! i" "nat (ut_map ut ! i) < num_untyped bi"
  using assms by (auto simp: tab_ok_def)

lemma tab_ok_set:
  "tab_ok bi ut \<longleftrightarrow> 0 \<le> ut_count ut \<and> nat (ut_count ut) \<le> length (ut_map ut) \<and>
     (\<forall>k \<in> set (take (nat (ut_count ut)) (ut_map ut)). 0 \<le> k \<and> nat k < num_untyped bi)"
  by (auto simp: tab_ok_def all_set_conv_all_nth)

lemma ut_bits_bound: "ut_end bi k < 2 ^ 32 \<Longrightarrow> ut_bits bi k < 32"
  by (metis ut_end_def add_lessD1 le_add2 le_less_trans not_less one_less_numeral_iff power_strict_increasing_iff semiring_norm(76))

lemma ut_entry:
  assumes "bi_ok bi" "tab_ok bi ut" "i < nat (ut_count ut)"
  obtains p s e where "UT_PSTART bi ut (int i) = Some p" "UT_SIZEBITS bi ut (int i) = Some s" "UT_PEND bi ut (int i) = Some e"
    "unat p = ut_start bi (ut_map ut ! i)" "unat s = ut_bits bi (ut_map ut ! i)" "unat e = ut_end bi (ut_map ut ! i)"
    "UT_CAP bi ut (int i) = Some (bi_untyped_start bi + word_of_int (ut_map ut ! i))"
    "unat (push_bit (unat s) (1 :: u32)) = 2 ^ unat s"
proof -
  let ?k = "ut_map ut ! i"
  let ?p = "untypedPaddrList bi ! nat ?k" and ?s = "untypedSizeBitsList bi ! nat ?k"
  note t = tab_okD [OF assms(2,3)]
  have len: "nat ?k < length (untypedPaddrList bi)" "nat ?k < length (untypedSizeBitsList bi)" and lt: "ut_end bi ?k < 2 ^ 32"
    using assms(1) t(2,3) by (auto simp: bi_ok_def)
  have get: "arr_get (ut_map ut) (int i) = Some ?k" using t(1) by simp
  have pb: "unat (push_bit (unat ?s) (1 :: u32)) = 2 ^ unat ?s"
    using ut_bits_bound [OF lt] by (intro unat_push_bit_1) (simp add: ut_bits_def)
  then have "unat (?p + push_bit (unat ?s) 1) = ut_end bi ?k"
    using lt by (subst unat_plus_if') (simp add: ut_end_def ut_start_def ut_bits_def)
  with len t get pb show thesis
    by (intro that [of ?p ?s]) (auto simp: UT_PSTART_def UT_SIZEBITS_def UT_PEND_def UT_CAP_def arr_get_def ut_start_def ut_bits_def)
qed

section \<open>Translation\<close>

text \<open>The table is ascending when each entry ends no later than the next one starts.\<close>

definition ascending :: "seL4_BootInfo \<Rightarrow> ut_table \<Rightarrow> bool" where
  "ascending bi ut \<longleftrightarrow> (\<forall>i. Suc i < nat (ut_count ut) \<longrightarrow> ut_end bi (ut_map ut ! i) \<le> ut_start bi (ut_map ut ! Suc i))"

lemma ut_start_lt_end: "ut_start bi k < ut_end bi k"
  by (simp add: ut_end_def)

lemma ascending_less:
  assumes "ascending bi ut" "i < j" "j < nat (ut_count ut)"
  shows "ut_end bi (ut_map ut ! i) \<le> ut_start bi (ut_map ut ! j)"
  using assms(2,3)
proof (induction j)
  case (Suc j)
  have step: "ut_end bi (ut_map ut ! j) \<le> ut_start bi (ut_map ut ! Suc j)"
    using assms(1) Suc.prems(2) by (simp add: ascending_def)
  show ?case
  proof (cases "i = j")
    case False
    then show ?thesis
      using Suc step ut_start_lt_end [of bi "ut_map ut ! j"] by simp
  qed (use step in simp)
qed simp

text \<open>
  The binary search: within bounds that enclose the entry containing the address it finds that
  entry; if no entry contains the address it ends in the device lookup.
\<close>

lemma half_index:
  fixes lo hi :: nat
  assumes "lo < hi"
  shows "drop_bit 1 (int lo + int hi) = int ((lo + hi) div 2)" "lo \<le> (lo + hi) div 2" "(lo + hi) div 2 < hi"
  using assms by (simp_all add: drop_bit_eq_div zdiv_int)

lemma ut_search_step:
  assumes "bi_ok bi" "tab_ok bi ut" "lo < hi" "hi \<le> nat (ut_count ut)"
  defines "m \<equiv> (lo + hi) div 2"
  shows "ut_search bi ut addr (int lo) (int hi) =
    (if unat addr < ut_start bi (ut_map ut ! m) then ut_search bi ut addr (int lo) (int m)
     else if ut_end bi (ut_map ut ! m) \<le> unat addr then ut_search bi ut addr (int (Suc m)) (int hi)
     else Some (Some (bi_untyped_start bi + word_of_int (ut_map ut ! m), addr - untypedPaddrList bi ! nat (ut_map ut ! m))))"
proof -
  have m: "m < nat (ut_count ut)" using assms(3,4) unfolding m_def by linarith
  from assms(1,2) m obtain p s e where e: "UT_PSTART bi ut (int m) = Some p" "UT_PEND bi ut (int m) = Some e"
    "unat p = ut_start bi (ut_map ut ! m)" "unat e = ut_end bi (ut_map ut ! m)"
    "UT_CAP bi ut (int m) = Some (bi_untyped_start bi + word_of_int (ut_map ut ! m))"
    by (rule ut_entry)
  have "p = untypedPaddrList bi ! nat (ut_map ut ! m)" using e(3) by (simp add: ut_start_def word_unat_eq_iff)
  with e show ?thesis
    unfolding ut_search.simps [of bi ut addr "int lo" "int hi"] Let_def half_index(1) [OF assms(3)] m_def [symmetric]
    using assms(3) by (simp add: word_less_nat_alt word_le_nat_alt add.commute)
qed

lemma ut_search_finds:
  assumes bi: "bi_ok bi" and tab: "tab_ok bi ut" and asc: "ascending bi ut"
    and i: "lo \<le> i" "i < hi" "hi \<le> nat (ut_count ut)"
    and addr: "ut_start bi (ut_map ut ! i) \<le> unat addr" "unat addr < ut_end bi (ut_map ut ! i)"
  shows "ut_search bi ut addr (int lo) (int hi) =
    Some (Some (bi_untyped_start bi + word_of_int (ut_map ut ! i), addr - untypedPaddrList bi ! nat (ut_map ut ! i)))"
  using i
proof (induction "hi - lo" arbitrary: lo hi rule: less_induct)
  case less
  let ?m = "(lo + hi) div 2"
  have m: "lo \<le> ?m" "?m < hi" using less.prems by linarith+
  have cmp: "i < ?m" if "unat addr < ut_start bi (ut_map ut ! ?m)"
  proof (rule ccontr)
    assume "\<not> i < ?m"
    then have "?m = i \<or> ut_end bi (ut_map ut ! ?m) \<le> ut_start bi (ut_map ut ! i)"
      using ascending_less [OF asc, of ?m i] less.prems by (cases "?m = i") auto
    then show False using that addr ut_start_lt_end [of bi "ut_map ut ! ?m"] by auto
  qed
  have cmp': "?m < i" if "ut_end bi (ut_map ut ! ?m) \<le> unat addr"
  proof (rule ccontr)
    assume "\<not> ?m < i"
    then have "?m = i \<or> ut_end bi (ut_map ut ! i) \<le> ut_start bi (ut_map ut ! ?m)"
      using ascending_less [OF asc, of i ?m] less.prems m by (cases "?m = i") auto
    then show False using that addr ut_start_lt_end [of bi "ut_map ut ! ?m"] by auto
  qed
  have eq: "?m = i" if "\<not> unat addr < ut_start bi (ut_map ut ! ?m)" "\<not> ut_end bi (ut_map ut ! ?m) \<le> unat addr"
    using that ascending_less [OF asc, of i ?m] ascending_less [OF asc, of ?m i] less.prems m addr
    by (cases i ?m rule: linorder_cases) auto
  have lohi: "lo < hi" using less.prems by simp
  show ?case
    unfolding ut_search_step [OF bi tab lohi less.prems(3)]
    using less.hyps [of ?m lo] less.hyps [of hi "Suc ?m"] less.prems m cmp cmp' eq by auto
qed

lemma ut_search_misses:
  assumes bi: "bi_ok bi" and tab: "tab_ok bi ut" and hi: "hi \<le> nat (ut_count ut)"
    and none: "\<And>i. i < nat (ut_count ut) \<Longrightarrow> \<not> (ut_start bi (ut_map ut ! i) \<le> unat addr \<and> unat addr < ut_end bi (ut_map ut ! i))"
  shows "ut_search bi ut addr (int lo) (int hi) = ut_translate_device bi addr"
  using hi
proof (induction "hi - lo" arbitrary: lo hi rule: less_induct)
  case less
  show ?case
  proof (cases "lo < hi")
    case True
    then have m: "lo \<le> (lo + hi) div 2" "(lo + hi) div 2 < hi" by linarith+
    then show ?thesis
      unfolding ut_search_step [OF bi tab True less.prems]
      using less.hyps [of "(lo + hi) div 2" lo] less.hyps [of hi "Suc ((lo + hi) div 2)"] less.prems none [of "(lo + hi) div 2"]
      by auto
  next
    case False
    then show ?thesis by (subst ut_search.simps) simp
  qed
qed

section \<open>Filtering in place\<close>

lemma strip_table_filter:
  fixes keep :: "u8 \<Rightarrow> bool"
  assumes bi: "bi_ok bi" and tab: "tab_ok bi ut"
  defines "F \<equiv> \<lambda>i. filter (\<lambda>k. keep (untypedSizeBitsList bi ! nat k)) (take i (ut_map ut))"
  obtains ut' where "strip_table keep bi ut = Some ut'" "length (ut_map ut') = length (ut_map ut)"
    "ut_count ut' = int (length (F (nat (ut_count ut))))"
    "take (nat (ut_count ut')) (ut_map ut') = F (nat (ut_count ut))"
proof -
  let ?body = "\<lambda>i (j, m). do {
        s \<leftarrow> UT_SIZEBITS bi (ut\<lparr>ut_map := m\<rparr>) (int i);
        if keep s then do {
          v \<leftarrow> arr_get m (int i);
          m \<leftarrow> arr_set m j v;
          Some (j + 1, m) }
        else Some (j, m) }"
  define P where "P = (\<lambda>i (j, m). j = int (length (F i)) \<and> length m = length (ut_map ut) \<and> take (length (F i)) m = F i \<and>
     drop i m = drop i (ut_map ut))"
  have le: "length (F i) \<le> i" for i unfolding F_def by (metis le_trans length_filter_le length_take min.cobounded2)
  have "\<exists>t. for_loop ?body (nat (ut_count ut)) 0 (0, ut_map ut) = Some t \<and> P (0 + nat (ut_count ut)) t"
  proof (rule for_loop_inv)
    show "P 0 (0, ut_map ut)" by (simp add: P_def F_def)
    fix i t assume "i < 0 + nat (ut_count ut)" and Pt: "P i t"
    obtain j m where t: "t = (j, m)" by (cases t)
    have i: "i < nat (ut_count ut)" using \<open>i < 0 + nat (ut_count ut)\<close> by simp
    note ok = tab_okD [OF tab i]
    have m: "j = int (length (F i))" "length m = length (ut_map ut)" "take (length (F i)) m = F i" "drop i m = drop i (ut_map ut)"
      using Pt by (simp_all add: P_def t)
    have mi: "m ! i = ut_map ut ! i" using m(2,4) ok(1) by (metis Cons_nth_drop_Suc list.inject)
    have d: "drop (Suc i) m = drop (Suc i) (ut_map ut)" using m(4) by (metis drop_Suc tl_drop)
    have "arr_get (untypedSizeBitsList bi) (ut_map ut ! i) = Some (untypedSizeBitsList bi ! nat (ut_map ut ! i))"
      using bi ok(2,3) by (auto simp: bi_ok_def arr_get_def)
    then have s: "UT_SIZEBITS bi (ut\<lparr>ut_map := m\<rparr>) (int i) = Some (untypedSizeBitsList bi ! nat (ut_map ut ! i))"
      using m(2) ok(1) mi by (simp add: UT_SIZEBITS_def)
    have F: "F (Suc i) = F i @ (if keep (untypedSizeBitsList bi ! nat (ut_map ut ! i)) then [ut_map ut ! i] else [])"
      using ok(1) by (simp add: F_def take_Suc_conv_app_nth)
    have "length (F i) < length m" using le [of i] ok(1) m(2) by simp
    moreover from this have "take (Suc (length (F i))) (m[length (F i) := v]) = F i @ [v]" for v
      using m(3) by (simp add: take_Suc_conv_app_nth)
    moreover have "drop (Suc i) (m[length (F i) := v]) = drop (Suc i) m" for v
      using le [of i] by simp
    ultimately show "\<exists>t'. ?body i t = Some t' \<and> P (Suc i) t'"
      using s mi ok(1) m d by (simp add: t P_def F)
  qed
  then obtain j m where r: "for_loop ?body (nat (ut_count ut)) 0 (0, ut_map ut) = Some (j, m)" "P (nat (ut_count ut)) (j, m)"
    by auto
  then show thesis
    by (intro that [of "ut\<lparr>ut_map := m, ut_count := j\<rparr>"]) (simp_all add: strip_table_def P_def)
qed

lemma strip_table_tab_ok:
  assumes "bi_ok bi" "tab_ok bi ut" "strip_table keep bi ut = Some ut'"
  shows "tab_ok bi ut'"
    and "set (take (nat (ut_count ut')) (ut_map ut')) =
      {k \<in> set (take (nat (ut_count ut)) (ut_map ut)). keep (untypedSizeBitsList bi ! nat k)}"
proof -
  let ?F = "filter (\<lambda>k. keep (untypedSizeBitsList bi ! nat k)) (take (nat (ut_count ut)) (ut_map ut))"
  obtain ut1 where u: "strip_table keep bi ut = Some ut1" "length (ut_map ut1) = length (ut_map ut)"
    "ut_count ut1 = int (length ?F)" "take (nat (ut_count ut1)) (ut_map ut1) = ?F"
    by (rule strip_table_filter [OF assms(1,2)])
  then have ut1: "ut1 = ut'" using assms(3) by simp
  show set: "set (take (nat (ut_count ut')) (ut_map ut')) =
      {k \<in> set (take (nat (ut_count ut)) (ut_map ut)). keep (untypedSizeBitsList bi ! nat k)}"
    using u(4) by (auto simp: ut1)
  have len: "length ?F \<le> length (ut_map ut)" by (metis length_filter_le length_take le_trans min.cobounded1)
  with u(2,3) set assms(2) show "tab_ok bi ut'" by (simp add: tab_ok_set ut1)
qed

section \<open>The largest contiguous run\<close>

text \<open>Entries \<open>a, ..., b - 1\<close> of the table are contiguous in memory; their total size.\<close>

definition contig_run :: "seL4_BootInfo \<Rightarrow> ut_table \<Rightarrow> nat \<Rightarrow> nat \<Rightarrow> bool" where
  "contig_run bi ut a b \<longleftrightarrow> (\<forall>i. a \<le> i \<and> Suc i < b \<longrightarrow> ut_end bi (ut_map ut ! i) = ut_start bi (ut_map ut ! Suc i))"

definition run_size :: "seL4_BootInfo \<Rightarrow> ut_table \<Rightarrow> nat \<Rightarrow> nat \<Rightarrow> nat" where
  "run_size bi ut a b = (\<Sum>i = a..<b. 2 ^ ut_bits bi (ut_map ut ! i))"

lemma run_size_Suc: "a \<le> b \<Longrightarrow> run_size bi ut a (Suc b) = run_size bi ut a b + 2 ^ ut_bits bi (ut_map ut ! b)"
  by (simp add: run_size_def)

lemma run_size_end:
  assumes "contig_run bi ut a (Suc b)" "a \<le> b"
  shows "ut_start bi (ut_map ut ! a) + run_size bi ut a (Suc b) = ut_end bi (ut_map ut ! b)"
  using assms(2,1)
proof (induction b rule: dec_induct)
  case base
  then show ?case by (simp add: run_size_def ut_end_def)
next
  case (step b)
  have "contig_run bi ut a (Suc b)" using step.prems by (simp add: contig_run_def)
  moreover have "ut_end bi (ut_map ut ! b) = ut_start bi (ut_map ut ! Suc b)"
    using step by (simp add: contig_run_def)
  ultimately show ?case using step by (simp add: run_size_Suc ut_end_def)
qed

lemma run_size_mono: "a \<le> x \<Longrightarrow> y \<le> b \<Longrightarrow> run_size bi ut x y \<le> run_size bi ut a b"
  unfolding run_size_def by (intro sum_mono2) auto

lemma run_within:
  assumes "contig_run bi ut x y" "\<not> y \<le> a" "0 < a" "ut_end bi (ut_map ut ! (a - 1)) \<noteq> ut_start bi (ut_map ut ! a)"
  shows "a \<le> x"
proof (rule ccontr)
  assume "\<not> a \<le> x"
  then have "x \<le> a - 1 \<and> Suc (a - 1) < y" using assms(2,3) by auto
  then have "ut_end bi (ut_map ut ! (a - 1)) = ut_start bi (ut_map ut ! Suc (a - 1))"
    using assms(1) unfolding contig_run_def by blast
  with assms(3,4) show False by simp
qed

lemma contig_boundary_eq:
  assumes bi: "bi_ok bi" and tab: "tab_ok bi ut" and i: "i < nat (ut_count ut)"
  shows "contig_boundary bi ut i =
    Some (nat (ut_count ut) = Suc i \<or> ut_end bi (ut_map ut ! i) \<noteq> ut_start bi (ut_map ut ! Suc i))"
proof (cases "int i + 1 \<ge> ut_count ut")
  case True
  then have "nat (ut_count ut) = Suc i" using i by linarith
  with True show ?thesis by (simp add: contig_boundary_def)
next
  case False
  then have "Suc i < nat (ut_count ut)" by simp
  then obtain p' where "UT_PSTART bi ut (int (Suc i)) = Some p'" "unat p' = ut_start bi (ut_map ut ! Suc i)"
    by (rule ut_entry [OF bi tab])
  moreover obtain e where "UT_PEND bi ut (int i) = Some e" "unat e = ut_end bi (ut_map ut ! i)"
    by (rule ut_entry [OF bi tab i])
  ultimately show ?thesis using False i by (auto simp: contig_boundary_def word_unat_eq_iff add.commute)
qed

text \<open>The invariant without its last clauses: the run being measured, and the best one so far.\<close>

definition contig_this :: "seL4_BootInfo \<Rightarrow> ut_table \<Rightarrow> nat \<Rightarrow> nat \<Rightarrow> contig \<Rightarrow> bool" where
  "contig_this bi ut a i c \<longleftrightarrow> this_start c = int a \<and> a \<le> i \<and> contig_run bi ut a i \<and> unat (this_size c) = run_size bi ut a i \<and>
     (0 < a \<and> a < nat (ut_count ut) \<longrightarrow> ut_end bi (ut_map ut ! (a - 1)) \<noteq> ut_start bi (ut_map ut ! a))"

definition contig_best :: "seL4_BootInfo \<Rightarrow> ut_table \<Rightarrow> nat \<Rightarrow> contig \<Rightarrow> bool" where
  "contig_best bi ut a c \<longleftrightarrow> (\<exists>cs ce. contig_start c = int cs \<and> contig_end c = int ce \<and>
     cs \<le> ce \<and> ce \<le> a \<and> contig_run bi ut cs ce \<and> unat (contig_size c) = run_size bi ut cs ce \<and>
     (\<forall>x y. y \<le> a \<and> contig_run bi ut x y \<longrightarrow> run_size bi ut x y \<le> run_size bi ut cs ce))"

definition contig_inv :: "seL4_BootInfo \<Rightarrow> ut_table \<Rightarrow> nat \<Rightarrow> contig \<Rightarrow> bool" where
  "contig_inv bi ut i c \<longleftrightarrow> (\<exists>a. contig_this bi ut a i c \<and> contig_best bi ut a c \<and>
     (a < i \<and> i < nat (ut_count ut) \<longrightarrow> ut_end bi (ut_map ut ! (i - 1)) = ut_start bi (ut_map ut ! i)) \<and>
     (i = nat (ut_count ut) \<longrightarrow> a = i))"

lemma contig_extend:
  assumes bi: "bi_ok bi" and tab: "tab_ok bi ut" and i: "i < nat (ut_count ut)"
    and th: "contig_this bi ut a i c" and join: "a < i \<Longrightarrow> ut_end bi (ut_map ut ! (i - 1)) = ut_start bi (ut_map ut ! i)"
    and s: "UT_SIZEBITS bi ut (int i) = Some s"
  shows "contig_this bi ut a (Suc i) (c\<lparr>this_size := this_size c + push_bit (unat s) 1\<rparr>)"
proof -
  have h: "a \<le> i" "contig_run bi ut a i" "unat (this_size c) = run_size bi ut a i" using th by (simp_all add: contig_this_def)
  obtain s' where en: "UT_SIZEBITS bi ut (int i) = Some s'" "unat s' = ut_bits bi (ut_map ut ! i)"
    "unat (push_bit (unat s') (1 :: u32)) = 2 ^ unat s'" by (rule ut_entry [OF bi tab i])
  have run: "contig_run bi ut a (Suc i)"
    unfolding contig_run_def
  proof (intro allI impI)
    fix j assume j: "a \<le> j \<and> Suc j < Suc i"
    show "ut_end bi (ut_map ut ! j) = ut_start bi (ut_map ut ! Suc j)"
    proof (cases "Suc j = i")
      case True
      then show ?thesis using join j by auto
    qed (use h(2) j in \<open>simp add: contig_run_def\<close>)
  qed
  have "ut_end bi (ut_map ut ! i) < 2 ^ 32"
    using bi tab_okD(2,3) [OF tab i] by (auto simp: bi_ok_def)
  then have lt: "run_size bi ut a (Suc i) < 2 ^ 32" using run_size_end [OF run h(1)] by simp
  have "unat (this_size c + push_bit (unat s) 1) = run_size bi ut a (Suc i)"
    using lt h(1,3) en s by (subst unat_plus_if') (simp add: run_size_Suc)
  with run th show ?thesis by (simp add: contig_this_def)
qed

lemma contig_close_best:
  assumes th: "contig_this bi ut a (Suc i) c" and best: "contig_best bi ut a c" and i: "i < nat (ut_count ut)" "a \<le> i"
  shows "contig_best bi ut (Suc i) (contig_close i c)"
proof -
  obtain cs ce where k: "contig_start c = int cs" "contig_end c = int ce" "cs \<le> ce" "ce \<le> a" "contig_run bi ut cs ce"
    "unat (contig_size c) = run_size bi ut cs ce"
    and mx: "\<forall>x y. y \<le> a \<and> contig_run bi ut x y \<longrightarrow> run_size bi ut x y \<le> run_size bi ut cs ce"
    using best unfolding contig_best_def by blast
  have h: "this_start c = int a" "contig_run bi ut a (Suc i)" "unat (this_size c) = run_size bi ut a (Suc i)"
    "0 < a \<and> a < nat (ut_count ut) \<longrightarrow> ut_end bi (ut_map ut ! (a - 1)) \<noteq> ut_start bi (ut_map ut ! a)"
    using th by (simp_all add: contig_this_def)
  have all: "run_size bi ut x y \<le> max (run_size bi ut cs ce) (run_size bi ut a (Suc i))"
    if "y \<le> Suc i" "contig_run bi ut x y" for x y
  proof (cases "y \<le> a")
    case False
    then have "a \<le> x" using run_within [OF that(2) False] h(4) i by (cases "a = 0") auto
    then show ?thesis using run_size_mono [of a x y "Suc i" bi ut] that(1) by simp
  qed (use mx that(2) in \<open>simp add: le_max_iff_disj\<close>)
  show ?thesis
  proof (cases "contig_size c < this_size c")
    case True
    then have "run_size bi ut cs ce \<le> run_size bi ut a (Suc i)" using h(3) k(6) by (simp add: word_less_nat_alt)
    then have "\<forall>x y. y \<le> Suc i \<and> contig_run bi ut x y \<longrightarrow> run_size bi ut x y \<le> run_size bi ut a (Suc i)"
      using all by (simp add: max_def split: if_splits)
    then show ?thesis
      unfolding contig_best_def using True h i
      by (intro exI [of _ a] exI [of _ "Suc i"]) (simp add: contig_close_def)
  next
    case False
    then have "run_size bi ut a (Suc i) \<le> run_size bi ut cs ce" using h(3) k(6) by (simp add: word_less_nat_alt)
    then have "\<forall>x y. y \<le> Suc i \<and> contig_run bi ut x y \<longrightarrow> run_size bi ut x y \<le> run_size bi ut cs ce"
      using all by (simp add: max_def split: if_splits)
    then show ?thesis
      unfolding contig_best_def using False k i
      by (intro exI [of _ cs] exI [of _ ce]) (simp add: contig_close_def)
  qed
qed

lemma contig_step_inv:
  assumes bi: "bi_ok bi" and tab: "tab_ok bi ut" and i: "i < nat (ut_count ut)" and inv: "contig_inv bi ut i c"
  shows "\<exists>c'. contig_step bi ut i c = Some c' \<and> contig_inv bi ut (Suc i) c'"
proof -
  obtain a where a: "contig_this bi ut a i c" "contig_best bi ut a c"
    "a < i \<and> i < nat (ut_count ut) \<longrightarrow> ut_end bi (ut_map ut ! (i - 1)) = ut_start bi (ut_map ut ! i)"
    using inv unfolding contig_inv_def by blast
  obtain s where s: "UT_SIZEBITS bi ut (int i) = Some s" by (rule ut_entry [OF bi tab i])
  let ?c = "c\<lparr>this_size := this_size c + push_bit (unat s) 1\<rparr>"
  have th: "contig_this bi ut a (Suc i) ?c"
    by (rule contig_extend [OF bi tab i a(1) _ s]) (use a(3) i in simp)
  have best: "contig_best bi ut a ?c" using a(2) by (simp add: contig_best_def)
  have ai: "a \<le> i" using a(1) by (simp add: contig_this_def)
  define bd where "bd \<longleftrightarrow> nat (ut_count ut) = Suc i \<or> ut_end bi (ut_map ut ! i) \<noteq> ut_start bi (ut_map ut ! Suc i)"
  have step: "contig_step bi ut i c = Some (if bd then contig_close i ?c else ?c)"
    by (simp add: contig_step_def s contig_boundary_eq [OF bi tab i] bd_def)
  show ?thesis
  proof (cases bd)
    case False
    then have "contig_inv bi ut (Suc i) ?c"
      unfolding contig_inv_def using th best by (intro exI [of _ a]) (auto simp: bd_def)
    then show ?thesis using step False by simp
  next
    case True
    have "contig_this bi ut (Suc i) (Suc i) (contig_close i ?c)"
      using True by (auto simp: contig_this_def contig_close_def contig_run_def run_size_def bd_def)
    then have "contig_inv bi ut (Suc i) (contig_close i ?c)"
      unfolding contig_inv_def using contig_close_best [OF th best i ai] by (intro exI [of _ "Suc i"]) simp
    then show ?thesis using step True by simp
  qed
qed

lemma copy_down_loop:
  assumes "cs + n \<le> length m0"
  obtains m where "for_loop (\<lambda>i m. do { v \<leftarrow> arr_get m (int cs + int i); arr_set m (int i) v }) n 0 m0 = Some m"
    "length m = length m0" "\<And>j. j < n \<Longrightarrow> m ! j = m0 ! (cs + j)"
proof -
  define P where "P i m \<longleftrightarrow> length m = length m0 \<and> (\<forall>j<i. m ! j = m0 ! (cs + j)) \<and> (\<forall>j. i \<le> j \<and> j < length m0 \<longrightarrow> m ! j = m0 ! j)"
    for i m
  have "\<exists>m. for_loop (\<lambda>i m. do { v \<leftarrow> arr_get m (int cs + int i); arr_set m (int i) v }) n 0 m0 = Some m \<and> P (0 + n) m"
  proof (rule for_loop_inv)
    show "P 0 m0" by (simp add: P_def)
    fix i m assume i: "i < 0 + n" and P: "P i m"
    have "arr_get m (int cs + int i) = Some (m0 ! (cs + i))"
      using P i assms by (simp add: P_def arr_get_def nat_add_distrib)
    moreover have "P (Suc i) (m[i := m0 ! (cs + i)])"
      using P i assms by (auto simp: P_def nth_list_update less_Suc_eq)
    ultimately show "\<exists>m'. do { v \<leftarrow> arr_get m (int cs + int i); arr_set m (int i) v } = Some m' \<and> P (Suc i) m'"
      using P i assms by (simp add: P_def)
  qed
  then show thesis using that by (auto simp: P_def)
qed

lemma select_largest_spec:
  assumes bi: "bi_ok bi" and tab: "tab_ok bi ut" and ne: "0 < ut_count ut"
  obtains ut' cs where "select_largest_contiguous bi ut = Some ut'" "tab_ok bi ut'" "0 < ut_count ut'"
    "contig_run bi ut' 0 (nat (ut_count ut'))" "length (ut_map ut') = length (ut_map ut)"
    "cs + nat (ut_count ut') \<le> nat (ut_count ut)" "\<And>i. i < nat (ut_count ut') \<Longrightarrow> ut_map ut' ! i = ut_map ut ! (cs + i)"
    "\<And>x y. y \<le> nat (ut_count ut) \<Longrightarrow> contig_run bi ut x y \<Longrightarrow> run_size bi ut x y \<le> run_size bi ut' 0 (nat (ut_count ut'))"
proof -
  let ?c0 = "\<lparr>contig_start = 0, contig_size = 0, contig_end = 0, this_start = 0, this_size = 0\<rparr>" and ?n = "nat (ut_count ut)"
  have n: "0 < ?n" using ne by simp
  have "\<exists>c. for_loop (contig_step bi ut) ?n 0 ?c0 = Some c \<and> contig_inv bi ut (0 + ?n) c"
  proof (rule for_loop_inv)
    show "contig_inv bi ut 0 ?c0"
      using n by (simp add: contig_inv_def contig_this_def contig_best_def contig_run_def run_size_def)
  qed (use contig_step_inv [OF bi tab] in simp)
  then obtain c where c: "for_loop (contig_step bi ut) ?n 0 ?c0 = Some c" "contig_best bi ut ?n c"
    by (auto simp: contig_inv_def)
  obtain cs ce where k: "contig_start c = int cs" "contig_end c = int ce" "cs \<le> ce" "ce \<le> ?n" "contig_run bi ut cs ce"
    and mx: "\<And>x y. y \<le> ?n \<Longrightarrow> contig_run bi ut x y \<Longrightarrow> run_size bi ut x y \<le> run_size bi ut cs ce"
    using c(2) unfolding contig_best_def by blast
  have "run_size bi ut 0 1 \<le> run_size bi ut cs ce" using n by (intro mx) (auto simp: contig_run_def)
  then have cs: "cs < ce" using k(3) by (cases "cs = ce") (simp_all add: run_size_def)
  have "cs + (ce - cs) \<le> length (ut_map ut)" using k tab by (simp add: tab_ok_def)
  then obtain m where m: "for_loop (\<lambda>i m. do { v \<leftarrow> arr_get m (int cs + int i); arr_set m (int i) v }) (ce - cs) 0 (ut_map ut) = Some m"
    "length m = length (ut_map ut)" "\<And>j. j < ce - cs \<Longrightarrow> m ! j = ut_map ut ! (cs + j)"
    by (rule copy_down_loop) blast
  let ?ut = "ut\<lparr>ut_map := m, ut_count := int (ce - cs)\<rparr>"
  have rs: "run_size bi ?ut 0 (ce - cs) = run_size bi ut cs ce"
    unfolding run_size_def using sum.shift_bounds_nat_ivl [of "\<lambda>i. 2 ^ ut_bits bi (ut_map ut ! i) :: nat" 0 cs "ce - cs"] cs m(3)
    by (simp add: add.commute)
  show thesis
  proof (rule that [of ?ut cs])
    show "select_largest_contiguous bi ut = Some ?ut"
      using ne c(1) m(1) k cs by (simp add: select_largest_contiguous_def nat_diff_distrib of_nat_diff)
    show "tab_ok bi ?ut" using tab_okD(2,3) [OF tab] k m(2,3) tab by (auto simp: tab_ok_def)
    show "contig_run bi ?ut 0 (nat (ut_count ?ut))" using k(5) m(3) by (auto simp: contig_run_def)
    show "run_size bi ut x y \<le> run_size bi ?ut 0 (nat (ut_count ?ut))" if "y \<le> ?n" "contig_run bi ut x y" for x y
      using mx [OF that] rs by simp
  qed (use k cs m in auto)
qed

lemma contig_run_ascending:
  "contig_run bi ut 0 (nat (ut_count ut)) \<Longrightarrow> ascending bi ut"
  by (simp add: contig_run_def ascending_def)

lemma contig_run_cover:
  assumes "contig_run bi ut 0 (Suc n)" "ut_start bi (ut_map ut ! 0) \<le> a" "a < ut_end bi (ut_map ut ! n)"
  shows "\<exists>i\<le>n. ut_start bi (ut_map ut ! i) \<le> a \<and> a < ut_end bi (ut_map ut ! i)"
  using assms
proof (induction n)
  case (Suc n)
  show ?case
  proof (cases "a < ut_end bi (ut_map ut ! n)")
    case True
    have "contig_run bi ut 0 (Suc n)" using Suc.prems(1) by (simp add: contig_run_def)
    then show ?thesis using Suc True by (meson le_Suc_eq)
  next
    case False
    have "ut_end bi (ut_map ut ! n) = ut_start bi (ut_map ut ! Suc n)" using Suc.prems(1) by (simp add: contig_run_def)
    then show ?thesis using False Suc.prems(3) by (intro exI [of _ "Suc n"]) simp
  qed
qed simp

section \<open>Initialisation\<close>

lemma fill_table_spec:
  assumes "num_untyped bi \<le> length (ut_map ut)"
  obtains ut' where "fill_table bi ut = Some ut'" "tab_ok bi ut'" "nat (ut_count ut') = num_untyped bi"
    "set (take (nat (ut_count ut')) (ut_map ut')) = int ` {..<num_untyped bi}"
proof -
  let ?n = "num_untyped bi"
  define P where "P i m \<longleftrightarrow> length m = length (ut_map ut) \<and> (\<forall>j<i. m ! j = int j)" for i m
  have "\<exists>m. for_loop (\<lambda>i m. arr_set m (int i) (int i)) ?n 0 (ut_map ut) = Some m \<and> P (0 + ?n) m"
    by (rule for_loop_inv) (use assms in \<open>auto simp: P_def nth_list_update less_Suc_eq\<close>)
  then obtain m where m: "for_loop (\<lambda>i m. arr_set m (int i) (int i)) ?n 0 (ut_map ut) = Some m"
    "length m = length (ut_map ut)" "\<And>j. j < ?n \<Longrightarrow> m ! j = int j" by (auto simp: P_def)
  have "take ?n m = map int [0..<?n]" using m(2,3) assms by (intro nth_equalityI) auto
  then have "set (take ?n m) = int ` {..<?n}" by (simp add: lessThan_atLeast0)
  moreover have "uint (bi_untyped_end bi - bi_untyped_start bi) = int ?n" by (simp add: num_untyped_def)
  ultimately show thesis
    using m assms by (intro that [of "ut\<lparr>ut_count := int ?n, ut_map := m\<rparr>"]) (auto simp: fill_table_def tab_ok_def)
qed

lemma sort_table_spec:
  assumes "\<And>cmp xs. mset (qsort cmp xs) = mset xs" "tab_ok bi ut"
  shows "tab_ok bi (sort_table qsort bi ut)" "ut_count (sort_table qsort bi ut) = ut_count ut"
    "set (take (nat (ut_count ut)) (ut_map (sort_table qsort bi ut))) = set (take (nat (ut_count ut)) (ut_map ut))"
proof -
  let ?q = "qsort (ut_cmp bi) (take (nat (ut_count ut)) (ut_map ut))"
  have "set ?q = set (take (nat (ut_count ut)) (ut_map ut))" by (rule mset_eq_setD) (rule assms(1))
  moreover have "length ?q = nat (ut_count ut)"
    using mset_eq_length [OF assms(1)] assms(2) by (simp add: tab_ok_def)
  ultimately show "tab_ok bi (sort_table qsort bi ut)" "ut_count (sort_table qsort bi ut) = ut_count ut"
    "set (take (nat (ut_count ut)) (ut_map (sort_table qsort bi ut))) = set (take (nat (ut_count ut)) (ut_map ut))"
    using assms(2) by (simp_all add: tab_ok_set sort_table_def)
qed

lemma ut_table_init_spec:
  assumes bi: "bi_ok bi" and len: "num_untyped bi \<le> length (ut_map ut)"
    and big: "k < num_untyped bi" "MIN_UT_SIZE_BITS \<le> ut_bits bi (int k)"
    and qs: "\<And>cmp xs. mset (qsort cmp xs) = mset xs"
  obtains ut' where "ut_table_init qsort (Some bi) ut = Some (0, ut')" "tab_ok bi ut'" "0 < ut_count ut'"
    "contig_run bi ut' 0 (nat (ut_count ut'))" "unat (ut_low ut') = ut_start bi (ut_map ut' ! 0)"
    "unat (ut_high ut') = ut_end bi (ut_map ut' ! (nat (ut_count ut') - 1))"
proof -
  obtain u1 where u1: "fill_table bi ut = Some u1" "tab_ok bi u1" "nat (ut_count u1) = num_untyped bi"
    "set (take (nat (ut_count u1)) (ut_map u1)) = int ` {..<num_untyped bi}"
    by (rule fill_table_spec [OF len])
  define keep :: "u8 \<Rightarrow> bool" where "keep s \<longleftrightarrow> MIN_UT_SIZE_BITS \<le> unat s" for s
  obtain u2 where u2: "strip_table keep bi u1 = Some u2"
    by (rule strip_table_filter [OF bi u1(2)])
  note u2' = strip_table_tab_ok [OF bi u1(2) u2]
  have red: "reduce_table MIN_UT_SIZE_BITS 0 bi u1 = Some u2"
    using u2 by (simp add: reduce_table_def strip_min_def keep_def [abs_def] MIN_UT_SIZE_BITS_def)
  define u3 where "u3 = sort_table qsort bi u2"
  note u3 = sort_table_spec [where qsort = qsort, OF qs u2'(1), folded u3_def]
  have "int k \<in> set (take (nat (ut_count u2)) (ut_map u2))"
    using big u2'(2) u1(4) by (auto simp: keep_def ut_bits_def)
  then have "0 < ut_count u3" using u3(2) by (cases "0 < ut_count u2") auto
  from bi u3(1) this obtain u4 where u4: "select_largest_contiguous bi u3 = Some u4" "tab_ok bi u4" "0 < ut_count u4"
    "contig_run bi u4 0 (nat (ut_count u4))"
    by (rule select_largest_spec)
  obtain p where p: "UT_PSTART bi u4 (int 0) = Some p" "unat p = ut_start bi (ut_map u4 ! 0)"
    using ut_entry [OF bi u4(2), of 0] u4(3) by auto
  obtain e where e: "UT_PEND bi u4 (int (nat (ut_count u4) - 1)) = Some e" "unat e = ut_end bi (ut_map u4 ! (nat (ut_count u4) - 1))"
    using ut_entry [OF bi u4(2), of "nat (ut_count u4) - 1"] u4(3) by auto
  have c: "int (nat (ut_count u4) - 1) = ut_count u4 - 1" using u4(3) by simp
  let ?ut = "u4\<lparr>ut_low := p, ut_high := e\<rparr>"
  have "ut_table_init qsort (Some bi) ut = Some (0, ?ut)"
    using u1(1) red u4(1) p(1) e(1) [unfolded c] by (simp add: ut_table_init_def u3_def [symmetric])
  moreover have "tab_ok bi ?ut" "contig_run bi ?ut 0 (nat (ut_count ?ut))"
    using u4(2,4) by (simp_all add: tab_ok_def contig_run_def)
  ultimately show thesis using u4(3) p(2) e(2) by (intro that [of ?ut]) simp_all
qed

section \<open>Properties\<close>

text \<open>C3: After the untyped table is initialised from well-formed boot information with at least one untyped of a page
  directory's size, every physical address in the range the table reports is translated, by binary search, to the
  capability of an untyped of the boot information that contains it and the offset of the address in that untyped.
  The C library's sort only has to permute.\<close>

theorem ut_table_init_translate:
  assumes "bi_ok bi" and "num_untyped bi \<le> length (ut_map ut)" and "k < num_untyped bi"
    and "MIN_UT_SIZE_BITS \<le> ut_bits bi (int k)" and "\<And>cmp xs. mset (qsort cmp xs) = mset xs"
  shows "\<exists>ut'. ut_table_init qsort (Some bi) ut = Some (0, ut') \<and>
    (\<forall>addr. ut_low ut' \<le> addr \<and> addr < ut_high ut' \<longrightarrow>
       (\<exists>m off. m < num_untyped bi \<and> ut_translate bi ut' addr = Some (Some (bi_untyped_start bi + of_nat m, off)) \<and>
          unat addr = ut_start bi (int m) + unat off \<and> unat off < 2 ^ ut_bits bi (int m)))"
proof -
  obtain ut' where u: "ut_table_init qsort (Some bi) ut = Some (0, ut')" "tab_ok bi ut'" "0 < ut_count ut'"
    "contig_run bi ut' 0 (nat (ut_count ut'))" "unat (ut_low ut') = ut_start bi (ut_map ut' ! 0)"
    "unat (ut_high ut') = ut_end bi (ut_map ut' ! (nat (ut_count ut') - 1))"
    by (rule ut_table_init_spec [OF assms])
  have n: "Suc (nat (ut_count ut') - 1) = nat (ut_count ut')" using u(3) by simp
  have "\<exists>m off. m < num_untyped bi \<and> ut_translate bi ut' addr = Some (Some (bi_untyped_start bi + of_nat m, off)) \<and>
      unat addr = ut_start bi (int m) + unat off \<and> unat off < 2 ^ ut_bits bi (int m)"
    if a: "ut_low ut' \<le> addr" "addr < ut_high ut'" for addr
  proof -
    have "ut_start bi (ut_map ut' ! 0) \<le> unat addr" "unat addr < ut_end bi (ut_map ut' ! (nat (ut_count ut') - 1))"
      using a u(5,6) by (simp_all add: word_le_nat_alt word_less_nat_alt)
    then obtain i where i': "i \<le> nat (ut_count ut') - 1" and i: "ut_start bi (ut_map ut' ! i) \<le> unat addr" "unat addr < ut_end bi (ut_map ut' ! i)"
      using contig_run_cover [of bi ut' "nat (ut_count ut') - 1" "unat addr"] u(4) unfolding n by blast
    from i' n have i0: "i < nat (ut_count ut')" by linarith
    note i = i0 i
    define m where "m = nat (ut_map ut' ! i)"
    have m: "ut_map ut' ! i = int m" "m < num_untyped bi" using tab_okD [OF u(2) i(1)] by (simp_all add: m_def)
    have "ut_search bi ut' addr (int 0) (int (nat (ut_count ut'))) =
        Some (Some (bi_untyped_start bi + word_of_int (ut_map ut' ! i), addr - untypedPaddrList bi ! nat (ut_map ut' ! i)))"
      by (rule ut_search_finds [OF assms(1) u(2) contig_run_ascending [OF u(4)]]) (use i in simp_all)
    then have "ut_translate bi ut' addr = Some (Some (bi_untyped_start bi + of_nat m, addr - untypedPaddrList bi ! m))"
      using u(3) m(1) by (simp add: ut_translate_def)
    moreover have "unat (addr - untypedPaddrList bi ! m) = unat addr - ut_start bi (int m)"
      using i(2) m(1) by (simp add: unat_sub word_le_nat_alt ut_start_def)
    ultimately show ?thesis using i m by (intro exI [of _ m]) (simp add: ut_end_def)
  qed
  then show ?thesis using u(1) by blast
qed

definition example_bi :: seL4_BootInfo where
  "example_bi = \<lparr>bi_untyped_start = 100, bi_untyped_end = 103, bi_deviceUntyped_start = 103, bi_deviceUntyped_end = 103,
     untypedPaddrList = [0x10010000, 0x10000000, 0x20000000], untypedSizeBitsList = [16, 16, 4]\<rparr>"

theorem ut_table_init_translate_witness:
  "\<exists>ut'. ut_table_init (\<lambda>cmp xs. rev xs) (Some example_bi) \<lparr>ut_map = [0, 0, 0], ut_count = 0, ut_low = 0, ut_high = 0\<rparr> = Some (0, ut')"
proof -
  have n: "num_untyped example_bi = Suc (Suc (Suc 0))"
    by (simp add: num_untyped_def example_bi_def)
  have "bi_ok example_bi"
    unfolding bi_ok_def n by (simp add: All_less_Suc example_bi_def ut_end_def ut_start_def ut_bits_def)
  moreover have "(0::nat) < num_untyped example_bi" "MIN_UT_SIZE_BITS \<le> ut_bits example_bi (int 0)"
    "num_untyped example_bi \<le> length (ut_map \<lparr>ut_map = [0, 0, 0], ut_count = 0, ut_low = 0, ut_high = 0\<rparr>)"
    by (simp_all add: n) (simp_all add: example_bi_def ut_bits_def MIN_UT_SIZE_BITS_def)
  ultimately show ?thesis
    using ut_table_init_translate [of example_bi "\<lparr>ut_map = [0, 0, 0], ut_count = 0, ut_low = 0, ut_high = 0\<rparr>" 0 "\<lambda>cmp xs. rev xs"]
    by auto
qed

lemma unat_align_top:
  assumes "s < 32" "unat x + 2 ^ s \<le> 2 ^ 32"
  shows "unat (ut_align_top x (push_bit s 1)) = (unat x + (2 ^ s - 1)) div 2 ^ s * 2 ^ s"
proof -
  have "unat (push_bit s (1 :: u32) - 1) = 2 ^ s - 1"
    using unat_push_bit_1 [OF assms(1)] by (subst unat_sub) (simp_all add: word_le_nat_alt)
  moreover have "unat x + (2 ^ s - 1) < 2 ^ 32" using assms(2) zero_less_power [of "2::nat" s] by linarith
  ultimately have "unat (x + (push_bit s 1 - 1)) = unat x + (2 ^ s - 1)"
    by (subst unat_plus_if') simp
  then show ?thesis unfolding ut_align_top_def ut_align_def unat_word_align by (simp only:)
qed

lemma round_up_bounds:
  fixes x :: nat
  assumes "0 < d"
  shows "x \<le> (x + (d - 1)) div d * d" "(x + (d - 1)) div d * d < x + d"
proof -
  have "(x + (d - 1)) div d * d + (x + (d - 1)) mod d = x + (d - 1)" by (rule div_mult_mod_eq)
  moreover have "(x + (d - 1)) mod d < d" using assms by simp
  ultimately show "x \<le> (x + (d - 1)) div d * d" "(x + (d - 1)) div d * d < x + d" using assms by linarith+
qed

lemma ut_steal_mem_spec:
  assumes "s < 32" and "unat (ut_low ut) + 2 * 2 ^ s \<le> 2 ^ 32" and "ut_steal_mem s ut = (paddr, ut')"
  shows "(paddr = 0 \<and> ut' = ut) \<or>
    (unat paddr mod 2 ^ s = 0 \<and> unat (ut_low ut) \<le> unat paddr \<and> unat (ut_low ut') = unat paddr + 2 ^ s \<and>
     unat paddr + 2 ^ s \<le> unat (ut_high ut) \<and> ut_high ut' = ut_high ut)"
proof -
  let ?p = "ut_align_top (ut_low ut) (push_bit s 1)"
  have p: "unat ?p = (unat (ut_low ut) + (2 ^ s - 1)) div 2 ^ s * 2 ^ s"
    by (rule unat_align_top [OF assms(1)]) (use assms(2) in simp)
  note b = round_up_bounds [of "2 ^ s" "unat (ut_low ut)", folded p]
  then have "unat (?p + push_bit s 1) = unat ?p + 2 ^ s"
    using assms(2) by (subst unat_plus_if') (simp add: unat_two_exp [OF assms(1)])
  with assms(3) b(1) p show ?thesis
    by (auto simp: ut_steal_mem_def Let_def word_le_nat_alt split: if_splits)
qed

text \<open>C6: Stealing memory from the table returns \<open>0\<close> and changes nothing when the aligned block does not fit; otherwise
  the block is aligned to its size, lies in the reported range, and the range afterwards starts at the block's end, so
  later allocations never overlap it.\<close>

theorem ut_steal_mem_correct:
  assumes "s < 32" and "unat (ut_low ut) + 2 * 2 ^ s \<le> 2 ^ 32" and "ut_steal_mem s ut = (paddr, ut')"
  shows "(paddr = 0 \<and> ut' = ut) \<or>
    (unat paddr mod 2 ^ s = 0 \<and> unat (ut_low ut) \<le> unat paddr \<and> unat (ut_low ut') = unat paddr + 2 ^ s \<and>
     unat paddr + 2 ^ s \<le> unat (ut_high ut) \<and> ut_high ut' = ut_high ut)"
  using assms by (rule ut_steal_mem_spec)

theorem ut_steal_mem_correct_witness:
  "\<exists>paddr ut'. ut_steal_mem 12 \<lparr>ut_map = [], ut_count = 0, ut_low = 0x10000001, ut_high = 0x20000000\<rparr> = (paddr, ut') \<and>
     unat paddr mod 2 ^ 12 = 0 \<and> paddr = 0x10001000"
  using ut_steal_mem_correct [of 12 "\<lparr>ut_map = [], ut_count = 0, ut_low = 0x10000001, ut_high = 0x20000000\<rparr>"]
  by (simp add: ut_steal_mem_def Let_def ut_align_top_def ut_align_def)

end
