(* ===== verification/RingBuf.thy ===== *)
theory RingBuf
  imports Sos_Prelude
begin

text \<open>
  The byte ring buffer of \<^verbatim>\<open>libutils/src/ringbuf.c\<close>, which the serial driver reads input from.
  Indices are 32-bit words masked to the buffer size. The buffer refines a bounded first-in
  first-out queue that drops its oldest byte when full; the queue's contract is the locale
  \<open>byte_fifo\<close>, in which the round trip of the array operations is proved.
\<close>

section \<open>Definitions\<close>

definition RING_BUFFER_SIZE :: u32 where
  "RING_BUFFER_SIZE = 0x1000"

definition RING_BUFFER_MASK :: u32 where
  "RING_BUFFER_MASK = RING_BUFFER_SIZE - 1"

record ring_buffer_t =
  rb_buffer :: "u8 list"
  tail_index :: u32
  head_index :: u32

definition ring_buffer_init :: "ring_buffer_t \<Rightarrow> ring_buffer_t" where
  "ring_buffer_init b = b\<lparr>tail_index := 0, head_index := 0\<rparr>"

definition ring_buffer_is_empty :: "ring_buffer_t \<Rightarrow> bool" where
  "ring_buffer_is_empty b \<longleftrightarrow> head_index b = tail_index b"

definition ring_buffer_is_full :: "ring_buffer_t \<Rightarrow> bool" where
  "ring_buffer_is_full b \<longleftrightarrow> (head_index b - tail_index b) AND RING_BUFFER_MASK = RING_BUFFER_MASK"

definition ring_buffer_num_items :: "ring_buffer_t \<Rightarrow> u32" where
  "ring_buffer_num_items b = (head_index b - tail_index b) AND RING_BUFFER_MASK"

definition ring_buffer_queue :: "ring_buffer_t \<Rightarrow> u8 \<Rightarrow> ring_buffer_t option" where
  "ring_buffer_queue b data = do {
     let b = (if ring_buffer_is_full b then b\<lparr>tail_index := (tail_index b + 1) AND RING_BUFFER_MASK\<rparr> else b);
     buf \<leftarrow> arr_set (rb_buffer b) (uint (head_index b)) data;
     Some (b\<lparr>rb_buffer := buf, head_index := (head_index b + 1) AND RING_BUFFER_MASK\<rparr>) }"

fun ring_buffer_queue_arr :: "ring_buffer_t \<Rightarrow> u8 list \<Rightarrow> ring_buffer_t option" where
  "ring_buffer_queue_arr b [] = Some b"
| "ring_buffer_queue_arr b (d # ds) = do { b \<leftarrow> ring_buffer_queue b d; ring_buffer_queue_arr b ds }"

text \<open>The result \<open>None\<close> inside the outer option is the return value \<open>0\<close>: no byte was delivered.\<close>

definition ring_buffer_dequeue :: "ring_buffer_t \<Rightarrow> (u8 option \<times> ring_buffer_t) option" where
  "ring_buffer_dequeue b =
     (if ring_buffer_is_empty b then Some (None, b)
      else do {
        d \<leftarrow> arr_get (rb_buffer b) (uint (tail_index b));
        Some (Some d, b\<lparr>tail_index := (tail_index b + 1) AND RING_BUFFER_MASK\<rparr>) })"

text \<open>The loop of \<^verbatim>\<open>ring_buffer_dequeue_arr\<close>; the delivered bytes are the result.\<close>

fun dequeue_loop :: "nat \<Rightarrow> ring_buffer_t \<Rightarrow> (u8 list \<times> ring_buffer_t) option" where
  "dequeue_loop 0 b = Some ([], b)"
| "dequeue_loop (Suc n) b = do {
     (d, b) \<leftarrow> ring_buffer_dequeue b;
     case d of
       None \<Rightarrow> Some ([], b)
     | Some d \<Rightarrow> do { (ds, b) \<leftarrow> dequeue_loop n b; Some (d # ds, b) } }"

definition ring_buffer_dequeue_arr :: "ring_buffer_t \<Rightarrow> u32 \<Rightarrow> (u8 list \<times> ring_buffer_t) option" where
  "ring_buffer_dequeue_arr b len =
     (if ring_buffer_is_empty b then Some ([], b) else dequeue_loop (unat len) b)"

definition ring_buffer_peek :: "ring_buffer_t \<Rightarrow> u32 \<Rightarrow> u8 option option" where
  "ring_buffer_peek b index =
     (if index \<ge> ring_buffer_num_items b then Some None
      else do {
        d \<leftarrow> arr_get (rb_buffer b) (uint ((tail_index b + index) AND RING_BUFFER_MASK));
        Some (Some d) })"

section \<open>The bounded queue\<close>

text \<open>Invariant, number of stored bytes, and the queue the buffer represents, oldest byte first.\<close>

definition rb_inv :: "ring_buffer_t \<Rightarrow> bool" where
  "rb_inv b \<longleftrightarrow> length (rb_buffer b) = 4096 \<and> unat (tail_index b) < 4096 \<and> unat (head_index b) < 4096"

definition rb_num :: "ring_buffer_t \<Rightarrow> nat" where
  "rb_num b = (unat (head_index b) + 4096 - unat (tail_index b)) mod 4096"

definition rb_slot :: "ring_buffer_t \<Rightarrow> nat \<Rightarrow> nat" where
  "rb_slot b i = (unat (tail_index b) + i) mod 4096"

definition rb_list :: "ring_buffer_t \<Rightarrow> u8 list" where
  "rb_list b = map (\<lambda>i. rb_buffer b ! rb_slot b i) [0..<rb_num b]"

lemma unat_mask: "unat (x AND RING_BUFFER_MASK) = unat x mod 4096"
  using word_and_mask [of x 12] by (simp add: RING_BUFFER_MASK_def RING_BUFFER_SIZE_def)

lemma unat_next: "unat (x :: u32) < 4096 \<Longrightarrow> unat ((x + 1) AND RING_BUFFER_MASK) = (unat x + 1) mod 4096"
  by (simp add: unat_mask unat_plus_if')

lemma wrap_diff:
  fixes h t :: nat
  assumes "h < 4096" "t < 4096"
  shows "(h + 4096 - t) mod 4096 = (if t \<le> h then h - t else h + 4096 - t)"
proof (cases "t \<le> h")
  case True
  then have "h + 4096 - t = (h - t) + 4096" by simp
  with True assms show ?thesis by (simp only: mod_add_self2) simp
qed (use assms in simp)

lemma unat_diff_mask:
  assumes "unat h < 4096" "unat t < 4096"
  shows "unat ((h - t) AND RING_BUFFER_MASK) = (unat h + 4096 - unat t) mod 4096"
proof (cases "unat t \<le> unat h")
  case True
  then show ?thesis using assms by (simp add: unat_mask unat_sub word_le_nat_alt wrap_diff)
next
  case False
  then have "unat (h - t) = 2 ^ 32 + unat h - unat t"
    by (simp add: unat_sub_if')
  also have "\<dots> = (unat h + 4096 - unat t) + (2 ^ 20 - 1) * 4096" using assms False by simp
  finally show ?thesis unfolding unat_mask by (simp only: mod_mult_self1)
qed

lemma num_items_eq: "rb_inv b \<Longrightarrow> unat (ring_buffer_num_items b) = rb_num b"
  by (simp add: rb_inv_def ring_buffer_num_items_def rb_num_def unat_diff_mask)

lemma rb_num_bound: "rb_num b < 4096"
  by (simp add: rb_num_def)

lemma length_rb_list [simp]: "length (rb_list b) = rb_num b"
  by (simp add: rb_list_def)

lemma is_full_eq: "rb_inv b \<Longrightarrow> ring_buffer_is_full b \<longleftrightarrow> rb_num b = 4095"
  using num_items_eq [of b]
  by (auto simp: ring_buffer_is_full_def ring_buffer_num_items_def word_unat_eq_iff RING_BUFFER_MASK_def RING_BUFFER_SIZE_def)

lemma is_empty_eq:
  assumes "rb_inv b"
  shows "ring_buffer_is_empty b \<longleftrightarrow> rb_list b = []"
proof -
  have "rb_num b = 0 \<longleftrightarrow> unat (head_index b) = unat (tail_index b)"
    using assms by (auto simp: rb_num_def rb_inv_def wrap_diff)
  then show ?thesis
    by (simp add: ring_buffer_is_empty_def word_unat_eq_iff flip: length_0_conv)
qed

lemma mod_shift_inj:
  fixes t i j :: nat
  assumes "(t + i) mod N = (t + j) mod N" "i < N" "j < N"
  shows "i = j"
  using assms
proof (induction i j rule: linorder_wlog)
  case (le i j)
  then have "N dvd (t + j) - (t + i)" by (metis add_le_cancel_left mod_eq_dvd_iff_nat)
  then show ?case using le by (auto dest: dvd_imp_le)
qed simp

lemma slot_inj: "rb_slot b i = rb_slot b j \<Longrightarrow> i < 4096 \<Longrightarrow> j < 4096 \<Longrightarrow> i = j"
  unfolding rb_slot_def by (rule mod_shift_inj)

lemma slot_head:
  assumes "rb_inv b"
  shows "rb_slot b (rb_num b) = unat (head_index b)"
proof -
  have "rb_slot b (rb_num b) = (unat (tail_index b) + (unat (head_index b) + 4096 - unat (tail_index b))) mod 4096"
    by (simp add: rb_slot_def rb_num_def mod_add_right_eq)
  also have "\<dots> = unat (head_index b)" using assms by (simp add: rb_inv_def)
  finally show ?thesis .
qed

text \<open>Moving the head or the tail by one.\<close>

lemma num_advance:
  fixes h t :: nat
  assumes "h < 4096" "t < 4096"
  shows "(h + 4096 - t) mod 4096 < 4095 \<Longrightarrow> ((h + 1) mod 4096 + 4096 - t) mod 4096 = Suc ((h + 4096 - t) mod 4096)"
    and "0 < (h + 4096 - t) mod 4096 \<Longrightarrow> (h + 4096 - (t + 1) mod 4096) mod 4096 = (h + 4096 - t) mod 4096 - 1"
proof -
  note w = wrap_diff [OF assms] wrap_diff [of "(h + 1) mod 4096" t] wrap_diff [of h "(t + 1) mod 4096"]
  have hm: "(h + 1) mod 4096 = (if h = 4095 then 0 else h + 1)" "(t + 1) mod 4096 = (if t = 4095 then 0 else t + 1)"
    using assms by auto
  show "((h + 1) mod 4096 + 4096 - t) mod 4096 = Suc ((h + 4096 - t) mod 4096)" if lt: "(h + 4096 - t) mod 4096 < 4095"
    using lt assms unfolding w(1) w(2) [OF mod_less_divisor [OF zero_less_numeral] assms(2)]
    unfolding hm by (auto split: if_splits)
  show "(h + 4096 - (t + 1) mod 4096) mod 4096 = (h + 4096 - t) mod 4096 - 1" if lt: "0 < (h + 4096 - t) mod 4096"
    using lt assms unfolding w(1) w(3) [OF assms(1) mod_less_divisor [OF zero_less_numeral]]
    unfolding hm by (auto split: if_splits)
qed

lemma drop_oldest:
  assumes "rb_inv b" "rb_list b \<noteq> []"
  defines "b' \<equiv> b\<lparr>tail_index := (tail_index b + 1) AND RING_BUFFER_MASK\<rparr>"
  shows "rb_inv b'" "rb_list b' = tl (rb_list b)" "rb_num b' = rb_num b - 1"
proof -
  have t: "unat (tail_index b') = (unat (tail_index b) + 1) mod 4096"
    using assms(1) by (simp add: b'_def rb_inv_def unat_next)
  have pos: "0 < rb_num b" using assms(2) by (simp flip: length_rb_list)
  show "rb_inv b'" using assms(1) t by (simp add: rb_inv_def b'_def)
  show n: "rb_num b' = rb_num b - 1"
    using num_advance(2) [of "unat (head_index b)" "unat (tail_index b)"] assms(1) pos
    unfolding rb_num_def t by (simp add: b'_def rb_inv_def)
  have "rb_slot b' i = rb_slot b (Suc i)" for i
    by (simp add: rb_slot_def t mod_add_left_eq)
  moreover have "rb_buffer b' = rb_buffer b" by (simp add: b'_def)
  ultimately have "rb_list b' = map (\<lambda>i. rb_buffer b ! rb_slot b (Suc i)) [0..<rb_num b - 1]"
    by (simp add: rb_list_def n)
  also have "\<dots> = tl (rb_list b)"
    by (intro nth_equalityI) (simp_all add: nth_tl rb_list_def less_diff_conv)
  finally show "rb_list b' = tl (rb_list b)" .
qed

lemma store_byte:
  fixes d :: u8
  assumes inv: "rb_inv b" and room: "rb_num b < 4095"
  defines "b' \<equiv> b\<lparr>rb_buffer := (rb_buffer b)[unat (head_index b) := d], head_index := (head_index b + 1) AND RING_BUFFER_MASK\<rparr>"
  shows "rb_inv b'" "rb_list b' = rb_list b @ [d]" "rb_num b' = Suc (rb_num b)"
proof -
  have h: "unat (head_index b') = (unat (head_index b) + 1) mod 4096"
    using inv by (simp add: b'_def rb_inv_def unat_next)
  show "rb_inv b'" using inv h by (simp add: rb_inv_def b'_def)
  show n: "rb_num b' = Suc (rb_num b)"
    using num_advance(1) [of "unat (head_index b)" "unat (tail_index b)"] inv room
    unfolding rb_num_def h by (simp add: b'_def rb_inv_def)
  have slot: "rb_slot b' i = rb_slot b i" for i by (simp add: rb_slot_def b'_def)
  have other: "unat (head_index b) \<noteq> rb_slot b i" if "i < rb_num b" for i
    using slot_inj [of b i "rb_num b"] slot_head [OF inv] that rb_num_bound [of b] by auto
  have "rb_slot b (rb_num b) < length (rb_buffer b)" using inv by (simp add: slot_head rb_inv_def)
  then show "rb_list b' = rb_list b @ [d]"
    using other slot_head [OF inv] unfolding rb_list_def n slot by (auto simp: b'_def)
qed

lemma queue_spec:
  assumes "rb_inv b"
  obtains b' where "ring_buffer_queue b d = Some b'" "rb_inv b'"
    "rb_list b' = (if length (rb_list b) < 4095 then rb_list b else tl (rb_list b)) @ [d]"
proof -
  define c where "c = (if ring_buffer_is_full b then b\<lparr>tail_index := (tail_index b + 1) AND RING_BUFFER_MASK\<rparr> else b)"
  have full: "ring_buffer_is_full b \<longleftrightarrow> rb_num b = 4095" by (rule is_full_eq [OF assms])
  have "rb_list b \<noteq> []" if "rb_num b = 4095" using that by (simp flip: length_0_conv)
  then have c: "rb_inv c" "rb_num c < 4095" "rb_list c = (if length (rb_list b) < 4095 then rb_list b else tl (rb_list b))"
    using assms drop_oldest [OF assms] rb_num_bound [of b] full by (auto simp: c_def)
  have len: "length (rb_buffer c) = 4096" "unat (head_index c) < 4096" using c(1) by (simp_all add: rb_inv_def)
  have "ring_buffer_queue b d =
      Some (c\<lparr>rb_buffer := (rb_buffer c)[unat (head_index c) := d], head_index := (head_index c + 1) AND RING_BUFFER_MASK\<rparr>)"
    using len by (simp add: ring_buffer_queue_def Let_def arr_set_def flip: c_def)
  with store_byte [OF c(1,2), of d] c(3) show thesis by (intro that) simp_all
qed

lemma dequeue_spec:
  assumes "rb_inv b"
  obtains (empty) "ring_buffer_dequeue b = Some (None, b)" "rb_list b = []"
  | (byte) d b' where "ring_buffer_dequeue b = Some (Some d, b')" "rb_inv b'" "rb_list b = d # rb_list b'"
proof (cases "rb_list b = []")
  case True
  then show thesis using is_empty_eq [OF assms] by (intro empty) (simp_all add: ring_buffer_dequeue_def)
next
  case False
  let ?b = "b\<lparr>tail_index := (tail_index b + 1) AND RING_BUFFER_MASK\<rparr>"
  have "rb_slot b 0 = unat (tail_index b)" using assms by (simp add: rb_slot_def rb_inv_def)
  moreover have "0 < rb_num b" using False by (simp flip: length_rb_list)
  ultimately have "hd (rb_list b) = rb_buffer b ! unat (tail_index b)"
    by (simp add: rb_list_def hd_map)
  then have "ring_buffer_dequeue b = Some (Some (hd (rb_list b)), ?b)"
    using assms False is_empty_eq [OF assms] by (simp add: ring_buffer_dequeue_def arr_get_def rb_inv_def)
  moreover have "rb_list b = hd (rb_list b) # rb_list ?b" using drop_oldest(2) [OF assms False] False by simp
  ultimately show thesis using drop_oldest(1) [OF assms False] by (intro byte)
qed

section \<open>The queue contract\<close>

text \<open>
  A bounded byte queue: adding to a full queue drops the oldest byte, removing delivers the oldest.
\<close>

locale byte_fifo =
  fixes enq :: "'q \<Rightarrow> u8 \<Rightarrow> 'q option"
    and deq :: "'q \<Rightarrow> (u8 option \<times> 'q) option"
    and contents :: "'q \<Rightarrow> u8 list"
    and inv :: "'q \<Rightarrow> bool"
    and cap :: nat
  assumes enq_law: "inv q \<Longrightarrow> \<exists>q'. enq q d = Some q' \<and> inv q' \<and>
      contents q' = (if length (contents q) < cap then contents q else tl (contents q)) @ [d]"
    and deq_empty: "inv q \<Longrightarrow> contents q = [] \<Longrightarrow> deq q = Some (None, q)"
    and deq_law: "inv q \<Longrightarrow> contents q = d # ds \<Longrightarrow> \<exists>q'. deq q = Some (Some d, q') \<and> inv q' \<and> contents q' = ds"
    and contents_bound: "inv q \<Longrightarrow> length (contents q) \<le> cap"
begin

text \<open>Adding a list of bytes one by one keeps the newest \<open>cap\<close> of them.\<close>

lemma enq_all:
  assumes "inv q" and "\<And>q. f q [] = Some q" and "\<And>q d ds. f q (d # ds) = do { q \<leftarrow> enq q d; f q ds }"
  shows "\<exists>q'. f q ds = Some q' \<and> inv q' \<and> contents q' = drop (length (contents q) + length ds - cap) (contents q @ ds)"
  using assms(1)
proof (induction ds arbitrary: q)
  case Nil
  then show ?case using contents_bound by (simp add: assms(2))
next
  case (Cons d ds)
  obtain q1 where q1: "enq q d = Some q1" "inv q1"
    "contents q1 = (if length (contents q) < cap then contents q else tl (contents q)) @ [d]"
    using enq_law [OF Cons.prems] by blast
  obtain q2 where q2: "f q1 ds = Some q2" "inv q2"
    "contents q2 = drop (length (contents q1) + length ds - cap) (contents q1 @ ds)"
    using Cons.IH [OF q1(2)] by blast
  have "contents q2 = drop (length (contents q) + length (d # ds) - cap) (contents q @ d # ds)"
  proof (cases "length (contents q) < cap")
    case True
    then show ?thesis using q2(3) q1(3) by simp
  next
    case False
    then have c: "length (contents q) = cap" using contents_bound [OF Cons.prems] by simp
    show ?thesis
    proof (cases "contents q")
      case Nil
      then show ?thesis using q2(3) q1(3) c by simp
    next
      case (Cons x xs)
      then have "Suc (length xs) = cap" using c by simp
      then have "length (contents q) + length (d # ds) - cap = Suc (length ds)" "length (contents q1) + length ds - cap = length ds"
        using Cons q1(3) c by simp_all
      then show ?thesis using q2(3) q1(3) c Cons by simp
    qed
  qed
  with q1(1) q2 show ?case by (auto simp: assms(3))
qed

text \<open>Removing up to \<open>n\<close> bytes delivers the oldest ones in order.\<close>

lemma deq_upto:
  assumes "inv q" and "\<And>q. g 0 q = Some ([], q)"
    and "\<And>n q. g (Suc n) q = do { (d, q) \<leftarrow> deq q; case d of None \<Rightarrow> Some ([], q)
           | Some d \<Rightarrow> do { (ds, q) \<leftarrow> g n q; Some (d # ds, q) } }"
  shows "\<exists>q'. g n q = Some (take n (contents q), q') \<and> inv q' \<and> contents q' = drop n (contents q)"
  using assms(1)
proof (induction n arbitrary: q)
  case 0
  then show ?case by (simp add: assms(2))
next
  case (Suc n)
  show ?case
  proof (cases "contents q")
    case Nil
    then show ?thesis using deq_empty [OF Suc.prems Nil] Suc.prems by (simp add: assms(3))
  next
    case (Cons d ds)
    obtain q1 where q1: "deq q = Some (Some d, q1)" "inv q1" "contents q1 = ds"
      using deq_law [OF Suc.prems Cons] by blast
    obtain q2 where "g n q1 = Some (take n (contents q1), q2)" "inv q2" "contents q2 = drop n (contents q1)"
      using Suc.IH [OF q1(2)] by blast
    with q1 Cons show ?thesis by (simp add: assms(3))
  qed
qed

end

interpretation rb: byte_fifo ring_buffer_queue ring_buffer_dequeue rb_list rb_inv 4095
proof
  fix q :: ring_buffer_t and d ds
  assume inv: "rb_inv q"
  show "\<exists>q'. ring_buffer_queue q d = Some q' \<and> rb_inv q' \<and>
      rb_list q' = (if length (rb_list q) < 4095 then rb_list q else tl (rb_list q)) @ [d]"
    by (rule queue_spec [OF inv]) blast
  show "ring_buffer_dequeue q = Some (None, q)" if "rb_list q = []"
    using inv that by (cases rule: dequeue_spec) auto
  show "\<exists>q'. ring_buffer_dequeue q = Some (Some d, q') \<and> rb_inv q' \<and> rb_list q' = ds" if "rb_list q = d # ds"
    using inv that by (cases rule: dequeue_spec) auto
  show "length (rb_list q) \<le> 4095" using rb_num_bound [of q] by simp
qed

lemma dequeue_arr_eq:
  assumes "rb_inv b"
  shows "\<exists>b'. ring_buffer_dequeue_arr b n = Some (take (unat n) (rb_list b), b') \<and> rb_inv b' \<and> rb_list b' = drop (unat n) (rb_list b)"
proof (cases "ring_buffer_is_empty b")
  case True
  then show ?thesis using is_empty_eq [OF assms] assms by (simp add: ring_buffer_dequeue_arr_def)
next
  case False
  then show ?thesis
    using rb.deq_upto [OF assms, of dequeue_loop "unat n"] by (simp add: ring_buffer_dequeue_arr_def)
qed

section \<open>Properties\<close>

text \<open>C11: The ring buffer refines a bounded first-in first-out queue. Queueing a byte appends it, dropping the oldest
  byte exactly when 4095 bytes are stored; dequeueing delivers the oldest byte, or nothing when the queue is empty;
  peeking at an index delivers the byte with that position in the queue, or nothing beyond its end.\<close>

theorem ring_buffer_refines_fifo:
  assumes "rb_inv b"
  shows "(\<exists>b'. ring_buffer_queue b d = Some b' \<and> rb_inv b' \<and>
      rb_list b' = (if length (rb_list b) < 4095 then rb_list b else tl (rb_list b)) @ [d]) \<and>
    (\<exists>b'. ring_buffer_dequeue b = Some (if rb_list b = [] then None else Some (hd (rb_list b)), b') \<and> rb_inv b' \<and>
      rb_list b' = tl (rb_list b)) \<and>
    ring_buffer_peek b i = Some (if unat i < length (rb_list b) then Some (rb_list b ! unat i) else None)"
proof (intro conjI)
  show "\<exists>b'. ring_buffer_queue b d = Some b' \<and> rb_inv b' \<and>
      rb_list b' = (if length (rb_list b) < 4095 then rb_list b else tl (rb_list b)) @ [d]"
    by (rule rb.enq_law [OF assms])
  show "\<exists>b'. ring_buffer_dequeue b = Some (if rb_list b = [] then None else Some (hd (rb_list b)), b') \<and> rb_inv b' \<and>
      rb_list b' = tl (rb_list b)"
    using assms
  proof (cases rule: dequeue_spec)
    case empty
    then show ?thesis using assms by simp
  qed auto
  have "unat ((tail_index b + i) AND RING_BUFFER_MASK) = rb_slot b (unat i)" if "unat i < 4096"
    using that assms by (simp add: unat_mask unat_plus_if' rb_slot_def rb_inv_def)
  then show "ring_buffer_peek b i = Some (if unat i < length (rb_list b) then Some (rb_list b ! unat i) else None)"
    using assms rb_num_bound [of b] num_items_eq [OF assms]
    by (auto simp: ring_buffer_peek_def word_le_nat_alt arr_get_def rb_list_def rb_inv_def rb_slot_def)
qed

theorem ring_buffer_refines_fifo_witness:
  "\<exists>b'. ring_buffer_queue \<lparr>rb_buffer = replicate 4096 0, tail_index = 4095, head_index = 4095\<rparr> 7 = Some b' \<and> rb_list b' = [7]"
proof -
  let ?b = "\<lparr>rb_buffer = replicate 4096 0, tail_index = 4095, head_index = 4095\<rparr>"
  have "rb_inv ?b" "rb_list ?b = []" by (simp_all add: rb_inv_def rb_list_def rb_num_def)
  with ring_buffer_refines_fifo [of ?b 7] show ?thesis by auto
qed



end
