(* ===== verification/Lists.thy ===== *)
theory Lists
  imports Sos_Prelude
begin

text \<open>
  The singly linked list of \<^verbatim>\<open>libutils/src/list.c\<close>, over an explicit store of nodes: an address maps
  to a node or, when it is not allocated, to \<^const>\<open>None\<close>; address \<open>0\<close> is the null pointer. The
  traversals follow \<^verbatim>\<open>next\<close> pointers, so on a cyclic structure they do not return: they are
  partial functions whose value \<^const>\<open>None\<close> also covers following a dangling pointer. On a store that
  represents a list (predicate \<open>list_rep\<close>) every operation returns and acts as the corresponding
  function on HOL lists. A comparison function returns \<open>0\<close> on a match.
\<close>

section \<open>Definitions\<close>

type_synonym ptr = nat

record 'd list_node =
  node_data :: 'd
  node_next :: ptr

type_synonym 'd node_store = "ptr \<Rightarrow> 'd list_node option"

record list_t =
  list_head :: ptr

definition list_init :: "list_t \<Rightarrow> int \<times> list_t" where
  "list_init l = (0, l\<lparr>list_head := 0\<rparr>)"

text \<open>\<open>addr\<close> is what \<^verbatim>\<open>malloc\<close> returns, \<open>0\<close> on failure.\<close>

definition make_node :: "ptr \<Rightarrow> 'd \<Rightarrow> 'd node_store \<Rightarrow> ptr \<times> 'd node_store" where
  "make_node addr data h =
     (if addr \<noteq> 0 then (addr, h(addr \<mapsto> \<lparr>node_data = data, node_next = 0\<rparr>)) else (0, h))"

definition list_prepend_node :: "list_t \<Rightarrow> ptr \<Rightarrow> 'd node_store \<Rightarrow> (int \<times> list_t \<times> 'd node_store) option" where
  "list_prepend_node l node h = do {
     c_assert (node \<noteq> 0);
     n \<leftarrow> h node;
     Some (0, l\<lparr>list_head := node\<rparr>, h(node \<mapsto> n\<lparr>node_next := list_head l\<rparr>)) }"

text \<open>The loop that looks for the last node.\<close>

partial_function (option) list_end :: "'d node_store \<Rightarrow> ptr \<Rightarrow> ptr option" where
  "list_end h p = (h p \<bind> (\<lambda>n. if node_next n \<noteq> 0 then list_end h (node_next n) else Some p))"

definition list_append_node :: "list_t \<Rightarrow> ptr \<Rightarrow> 'd node_store \<Rightarrow> (int \<times> list_t \<times> 'd node_store) option" where
  "list_append_node l node h = do {
     c_assert (node \<noteq> 0);
     n \<leftarrow> h node;
     let h = h(node \<mapsto> n\<lparr>node_next := 0\<rparr>);
     if list_head l = 0 then Some (0, l\<lparr>list_head := node\<rparr>, h)
     else do {
       e \<leftarrow> list_end h (list_head l);
       en \<leftarrow> h e;
       Some (0, l, h(e \<mapsto> en\<lparr>node_next := node\<rparr>)) } }"

definition list_prepend :: "ptr \<Rightarrow> list_t \<Rightarrow> 'd \<Rightarrow> 'd node_store \<Rightarrow> (int \<times> list_t \<times> 'd node_store) option" where
  "list_prepend addr l data h =
     (let (n, h) = make_node addr data h in
      if n = 0 then Some (- 1, l, h) else list_prepend_node l n h)"

definition list_append :: "ptr \<Rightarrow> list_t \<Rightarrow> 'd \<Rightarrow> 'd node_store \<Rightarrow> (int \<times> list_t \<times> 'd node_store) option" where
  "list_append addr l data h =
     (let (n, h) = make_node addr data h in
      if n = 0 then Some (- 1, l, h) else list_append_node l n h)"

definition list_is_empty :: "list_t \<Rightarrow> bool" where
  "list_is_empty l \<longleftrightarrow> list_head l = 0"

text \<open>
  The loops over the nodes share a shape: starting at a node, with a running value, stop at the
  null pointer or when the body says so.
\<close>

partial_function (option) list_exists_loop :: "('d \<Rightarrow> 'd \<Rightarrow> int) \<Rightarrow> 'd \<Rightarrow> 'd node_store \<Rightarrow> ptr \<Rightarrow> bool option" where
  "list_exists_loop cmp data h p =
     (if p = 0 then Some False
      else h p \<bind> (\<lambda>n. if cmp (node_data n) data = 0 then Some True
                       else list_exists_loop cmp data h (node_next n)))"

definition list_exists :: "list_t \<Rightarrow> 'd \<Rightarrow> ('d \<Rightarrow> 'd \<Rightarrow> int) \<Rightarrow> 'd node_store \<Rightarrow> bool option" where
  "list_exists l data cmp h = list_exists_loop cmp data h (list_head l)"

partial_function (option) list_length_loop :: "'d node_store \<Rightarrow> ptr \<Rightarrow> int \<Rightarrow> int option" where
  "list_length_loop h p i =
     (if p = 0 then Some i else h p \<bind> (\<lambda>n. list_length_loop h (node_next n) (i + 1)))"

definition list_length :: "list_t \<Rightarrow> 'd node_store \<Rightarrow> int option" where
  "list_length l h = list_length_loop h (list_head l) 0"

partial_function (option) list_index_loop :: "('d \<Rightarrow> 'd \<Rightarrow> int) \<Rightarrow> 'd \<Rightarrow> 'd node_store \<Rightarrow> ptr \<Rightarrow> int \<Rightarrow> int option" where
  "list_index_loop cmp data h p i =
     (if p = 0 then Some (- 1)
      else h p \<bind> (\<lambda>n. if cmp (node_data n) data = 0 then Some i
                       else list_index_loop cmp data h (node_next n) (i + 1)))"

definition list_index :: "list_t \<Rightarrow> 'd \<Rightarrow> ('d \<Rightarrow> 'd \<Rightarrow> int) \<Rightarrow> 'd node_store \<Rightarrow> int option" where
  "list_index l data cmp h = list_index_loop cmp data h (list_head l) 0"

text \<open>An action works on a caller's state \<open>'s\<close> and returns a code.\<close>

partial_function (option) list_foreach_loop ::
  "('d \<Rightarrow> 's \<Rightarrow> int \<times> 's) \<Rightarrow> 'd node_store \<Rightarrow> ptr \<Rightarrow> 's \<Rightarrow> (int \<times> 's) option" where
  "list_foreach_loop action h p s =
     (if p = 0 then Some (0, s)
      else h p \<bind> (\<lambda>n. case action (node_data n) s of (res, s') \<Rightarrow>
             if res \<noteq> 0 then Some (res, s') else list_foreach_loop action h (node_next n) s'))"

definition list_foreach :: "list_t \<Rightarrow> ('d \<Rightarrow> 's \<Rightarrow> int \<times> 's) \<Rightarrow> 'd node_store \<Rightarrow> 's \<Rightarrow> (int \<times> 's) option" where
  "list_foreach l action h s = list_foreach_loop action h (list_head l) s"

partial_function (option) list_action_loop ::
  "('d \<Rightarrow> 'd \<Rightarrow> int) \<Rightarrow> ('d \<Rightarrow> 's \<Rightarrow> 's) \<Rightarrow> 'd \<Rightarrow> 'd node_store \<Rightarrow> ptr \<Rightarrow> 's \<Rightarrow> (int \<times> 's) option" where
  "list_action_loop cmp action data h p s =
     (if p = 0 then Some (1, s)
      else h p \<bind> (\<lambda>n. if cmp (node_data n) data = 0 then Some (0, action (node_data n) s)
                       else list_action_loop cmp action data h (node_next n) s))"

definition list_action ::
  "list_t \<Rightarrow> 'd \<Rightarrow> ('d \<Rightarrow> 'd \<Rightarrow> int) \<Rightarrow> ('d \<Rightarrow> 's \<Rightarrow> 's) \<Rightarrow> 'd node_store \<Rightarrow> 's \<Rightarrow> (int \<times> 's) option" where
  "list_action l data cmp action h s = list_action_loop cmp action data h (list_head l) s"

partial_function (option) remove_loop ::
  "('d \<Rightarrow> 'd \<Rightarrow> int) \<Rightarrow> 'd \<Rightarrow> bool \<Rightarrow> ptr \<Rightarrow> ptr \<Rightarrow> list_t \<Rightarrow> 'd node_store \<Rightarrow> (int \<times> list_t \<times> 'd node_store) option" where
  "remove_loop cmp data should_free prev p l h =
     (if p = 0 then Some (- 1, l, h)
      else h p \<bind> (\<lambda>n.
        if cmp (node_data n) data = 0
        then (if prev = 0 then Some (l\<lparr>list_head := node_next n\<rparr>, h)
              else h prev \<bind> (\<lambda>pn. Some (l, h(prev \<mapsto> pn\<lparr>node_next := node_next n\<rparr>)))) \<bind>
             (\<lambda>(l, h). Some (0, l, if should_free then h(p := None) else h))
        else remove_loop cmp data should_free p (node_next n) l h))"

definition list_remove :: "list_t \<Rightarrow> 'd \<Rightarrow> ('d \<Rightarrow> 'd \<Rightarrow> int) \<Rightarrow> 'd node_store \<Rightarrow> (int \<times> list_t \<times> 'd node_store) option" where
  "list_remove l data cmp h = remove_loop cmp data True 0 (list_head l) l h"

definition list_remove_node :: "list_t \<Rightarrow> 'd \<Rightarrow> ('d \<Rightarrow> 'd \<Rightarrow> int) \<Rightarrow> 'd node_store \<Rightarrow> (int \<times> list_t \<times> 'd node_store) option" where
  "list_remove_node l data cmp h = remove_loop cmp data False 0 (list_head l) l h"

partial_function (option) remove_all_loop :: "ptr \<Rightarrow> 'd node_store \<Rightarrow> 'd node_store option" where
  "remove_all_loop p h =
     (if p = 0 then Some h else h p \<bind> (\<lambda>n. remove_all_loop (node_next n) (h(p := None))))"

definition list_remove_all :: "list_t \<Rightarrow> 'd node_store \<Rightarrow> (int \<times> list_t \<times> 'd node_store) option" where
  "list_remove_all l h = do { h \<leftarrow> remove_all_loop (list_head l) h; Some (0, l\<lparr>list_head := 0\<rparr>, h) }"

definition list_destroy :: "list_t \<Rightarrow> int" where
  "list_destroy l = 0"

definition list_remove_all_nodes :: "list_t \<Rightarrow> int \<times> list_t" where
  "list_remove_all_nodes l = (0, l\<lparr>list_head := 0\<rparr>)"

definition list_cmp_equality :: "'d \<Rightarrow> 'd \<Rightarrow> int" where
  "list_cmp_equality a b = (if a = b then 0 else 1)"

section \<open>Stores that represent lists\<close>

fun seg :: "'d node_store \<Rightarrow> ptr \<Rightarrow> (ptr \<times> 'd) list \<Rightarrow> ptr \<Rightarrow> bool" where
  "seg h p [] q \<longleftrightarrow> p = q"
| "seg h p ((a, d) # xs) q \<longleftrightarrow> p = a \<and> a \<noteq> 0 \<and> (\<exists>n. h a = Some \<lparr>node_data = d, node_next = n\<rparr> \<and> seg h n xs q)"

definition list_rep :: "'d node_store \<Rightarrow> list_t \<Rightarrow> (ptr \<times> 'd) list \<Rightarrow> bool" where
  "list_rep h l xs \<longleftrightarrow> seg h (list_head l) xs 0 \<and> distinct (map fst xs)"

lemma seg_append: "seg h p (xs @ ys) q \<longleftrightarrow> (\<exists>r. seg h p xs r \<and> seg h r ys q)"
  by (induction h p xs q rule: seg.induct) auto

lemma seg_upd [simp]: "a \<notin> fst ` set xs \<Longrightarrow> seg (h(a := v)) p xs q = seg h p xs q"
  by (induction h p xs q rule: seg.induct) auto

lemma seg_null: "seg h 0 xs 0 \<longleftrightarrow> xs = []"
  by (cases xs) auto

text \<open>The traversals, as functions of the represented list.\<close>

lemma list_exists_loop_eq:
  "seg h p xs 0 \<Longrightarrow> list_exists_loop cmp data h p = Some (\<exists>x \<in> snd ` set xs. cmp x data = 0)"
proof (induction xs arbitrary: p)
  case (Cons x xs)
  then show ?case by (cases x) (subst list_exists_loop.simps, auto)
qed (subst list_exists_loop.simps, simp)

lemma list_length_loop_eq:
  "seg h p xs 0 \<Longrightarrow> list_length_loop h p i = Some (i + int (length xs))"
proof (induction xs arbitrary: p i)
  case (Cons x xs)
  then show ?case by (cases x) (subst list_length_loop.simps, auto)
qed (subst list_length_loop.simps, simp)

fun list_pos :: "('d \<Rightarrow> bool) \<Rightarrow> 'd list \<Rightarrow> int \<Rightarrow> int" where
  "list_pos P [] i = - 1"
| "list_pos P (x # xs) i = (if P x then i else list_pos P xs (i + 1))"

lemma list_index_loop_eq:
  "seg h p xs 0 \<Longrightarrow> list_index_loop cmp data h p i = Some (list_pos (\<lambda>x. cmp x data = 0) (map snd xs) i)"
proof (induction xs arbitrary: p i)
  case (Cons x xs)
  then show ?case by (cases x) (subst list_index_loop.simps, auto)
qed (subst list_index_loop.simps, simp)

lemma list_foreach_loop_app:
  "seg h p xs 0 \<Longrightarrow> (\<And>x s. x \<in> snd ` set xs \<Longrightarrow> fst (action x s) = 0) \<Longrightarrow>
     list_foreach_loop action h p s = Some (0, fold (\<lambda>x s. snd (action x s)) (map snd xs) s)"
proof (induction xs arbitrary: p s)
  case (Cons x xs)
  obtain a d where x: "x = (a, d)" by (cases x)
  then obtain n where n: "p = a" "a \<noteq> 0" "h a = Some \<lparr>node_data = d, node_next = n\<rparr>" "seg h n xs 0"
    using Cons.prems by auto
  have "fst (action d s) = 0" using Cons.prems(2) [of d s] x by simp
  then obtain s' where "action d s = (0, s')" by (cases "action d s") simp
  with n x Cons show ?case by (subst list_foreach_loop.simps) auto
qed (subst list_foreach_loop.simps, simp)

lemma list_end_eq:
  "seg h p (xs @ [(a, d)]) 0 \<Longrightarrow> list_end h p = Some a"
proof (induction xs arbitrary: p)
  case Nil
  then show ?case by (subst list_end.simps) auto
next
  case (Cons x xs)
  obtain b e where x: "x = (b, e)" by (cases x)
  then obtain n where n: "p = b" "h b = Some \<lparr>node_data = e, node_next = n\<rparr>" "seg h n (xs @ [(a, d)]) 0"
    using Cons.prems by auto
  moreover have "n \<noteq> 0" using n(3) by (cases xs) auto
  ultimately show ?case using Cons.IH [of n] by (subst list_end.simps) simp
qed

lemma remove_all_loop_eq:
  "seg h p xs 0 \<Longrightarrow> distinct (map fst xs) \<Longrightarrow> remove_all_loop p h = Some (\<lambda>a. if a \<in> fst ` set xs then None else h a)"
proof (induction xs arbitrary: p h)
  case (Cons x xs)
  obtain a d where x: "x = (a, d)" by (cases x)
  then obtain n where n: "p = a" "a \<noteq> 0" "h a = Some \<lparr>node_data = d, node_next = n\<rparr>" "seg h n xs 0" "a \<notin> fst ` set xs"
    using Cons.prems by auto
  have "seg (h(a := None)) n xs 0" using n(4) by (rule iffD2 [OF seg_upd [OF n(5)]])
  then have "remove_all_loop n (h(a := None)) = Some (\<lambda>b. if b \<in> fst ` set xs then None else (h(a := None)) b)"
    by (rule Cons.IH) (use Cons.prems(2) in simp)
  moreover have "(\<lambda>b. if b \<in> fst ` set xs then None else (h(a := None)) b) = (\<lambda>b. if b \<in> fst ` set (x # xs) then None else h b)"
    by (auto simp: fun_eq_iff x)
  ultimately show ?case using n(1-3) by (subst remove_all_loop.simps) simp
qed (subst remove_all_loop.simps, simp)

text \<open>
  Removal. The loop has passed the nodes \<open>pre\<close>, whose last one is \<open>prev\<close>; \<open>xs\<close> are still ahead.
  The first match is unlinked (and freed on request).
\<close>

fun remove_first :: "('d \<Rightarrow> bool) \<Rightarrow> (ptr \<times> 'd) list \<Rightarrow> (ptr \<times> 'd) list" where
  "remove_first P [] = []"
| "remove_first P (x # xs) = (if P (snd x) then xs else x # remove_first P xs)"

lemma remove_first_subset: "set (remove_first P xs) \<subseteq> set xs"
  by (induction xs) auto

lemma distinct_remove_first: "distinct (map fst xs) \<Longrightarrow> distinct (map fst (remove_first P xs))"
proof (induction xs)
  case (Cons x xs)
  then show ?case using remove_first_subset [of P xs] by auto
qed simp

lemma remove_first_none: "\<forall>x \<in> snd ` set xs. \<not> P x \<Longrightarrow> remove_first P xs = xs"
  by (induction xs) auto

definition prev_ptr :: "(ptr \<times> 'd) list \<Rightarrow> ptr" where
  "prev_ptr pre = (if pre = [] then 0 else fst (last pre))"

lemma seg_relink:
  assumes "seg h p (pre @ [(a, d)]) q" "a \<notin> fst ` set pre"
  shows "seg (h(a \<mapsto> \<lparr>node_data = d, node_next = r\<rparr>)) p (pre @ [(a, d)]) r"
  using assms by (auto simp: seg_append)

lemma remove_loop_eq:
  assumes "seg h (list_head l) (pre @ xs) 0" "distinct (map fst (pre @ xs))" "seg h p xs 0"
  shows "\<exists>res l' h'. remove_loop cmp data f (prev_ptr pre) p l h = Some (res, l', h') \<and>
    seg h' (list_head l') (pre @ remove_first (\<lambda>x. cmp x data = 0) xs) 0 \<and>
    (res = 0 \<longleftrightarrow> (\<exists>x \<in> snd ` set xs. cmp x data = 0)) \<and> (res = 0 \<or> res = - 1)"
  using assms
proof (induction xs arbitrary: pre p)
  case Nil
  then show ?case by (subst remove_loop.simps) (auto simp: seg_null)
next
  case (Cons x xs)
  obtain a d where x: "x = (a, d)" by (cases x)
  then obtain n where n: "p = a" "a \<noteq> 0" "h a = Some \<lparr>node_data = d, node_next = n\<rparr>" "seg h n xs 0"
    using Cons.prems(3) by auto
  show ?case
  proof (cases "cmp d data = 0")
    case False
    have "prev_ptr (pre @ [x]) = a" by (simp add: prev_ptr_def x)
    with Cons.IH [of "pre @ [x]" n] Cons.prems n False show ?thesis
      by (subst remove_loop.simps) (simp add: x)
  next
    case True
    show ?thesis
    proof (cases pre rule: rev_cases)
      case Nil
      then show ?thesis
        using True n Cons.prems(2) by (subst remove_loop.simps) (auto simp: x prev_ptr_def)
    next
      case (snoc ys y)
      obtain b e where y: "y = (b, e)" by (cases y)
      have s: "seg h (list_head l) (ys @ [(b, e)]) a" "b \<notin> fst ` set ys" "b \<notin> fst ` set xs" "a \<noteq> b" "a \<notin> fst ` set (ys @ [(b, e)])" "a \<notin> fst ` set xs"
        using Cons.prems(1,2) n(1) unfolding snoc y x by (auto simp: seg_append)
      then have b: "h b = Some \<lparr>node_data = e, node_next = a\<rparr>" "b \<noteq> 0" by (auto simp: seg_append)
      let ?h = "h(b \<mapsto> \<lparr>node_data = e, node_next = n\<rparr>)"
      have h1: "seg ?h (list_head l) (ys @ [(b, e)]) n" by (rule seg_relink [OF s(1,2)])
      have h2: "seg ?h n xs 0" using n(4) s(3) by simp
      define h' where "h' = (if f then ?h(a := None) else ?h)"
      have "seg h' (list_head l) (ys @ [(b, e)]) n" "seg h' n xs 0"
        using h1 h2 s(5,6) by (simp_all add: h'_def)
      then have "seg h' (list_head l) (pre @ xs) 0" unfolding snoc y by (auto simp: seg_append simp del: append_assoc)
      moreover have "remove_loop cmp data f (prev_ptr pre) p l h = Some (0, l, h')"
        using True n b snoc y by (subst remove_loop.simps) (simp add: prev_ptr_def h'_def)
      ultimately show ?thesis using True x by simp
    qed
  qed
qed

section \<open>Properties\<close>

text \<open>C13: On a store that represents a list, every traversal returns, and its result is that of the corresponding
  list function: the length, whether some element matches, the position of the first match (or \<open>-1\<close>).\<close>

theorem list_queries_correct:
  assumes "list_rep h l xs"
  shows "list_length l h = Some (int (length xs)) \<and>
    list_exists l data cmp h = Some (\<exists>x \<in> snd ` set xs. cmp x data = 0) \<and>
    list_index l data cmp h = Some (list_pos (\<lambda>x. cmp x data = 0) (map snd xs) 0) \<and>
    (list_is_empty l \<longleftrightarrow> xs = [])"
proof -
  have s: "seg h (list_head l) xs 0" using assms by (simp add: list_rep_def)
  then have "list_is_empty l \<longleftrightarrow> xs = []" by (cases xs) (auto simp: list_is_empty_def)
  with s show ?thesis
    by (simp add: list_length_def list_length_loop_eq list_exists_def list_exists_loop_eq list_index_def list_index_loop_eq)
qed

definition example_store :: "nat node_store" where
  "example_store = [8 \<mapsto> \<lparr>node_data = 5, node_next = 16\<rparr>, 16 \<mapsto> \<lparr>node_data = 7, node_next = 0\<rparr>]"

lemma example_store_rep: "list_rep example_store \<lparr>list_head = 8\<rparr> [(8, 5), (16, 7)]"
  by (simp add: list_rep_def example_store_def)

theorem list_queries_correct_witness:
  "list_length \<lparr>list_head = 8\<rparr> example_store = Some 2 \<and> list_index \<lparr>list_head = 8\<rparr> 7 list_cmp_equality example_store = Some 1"
  using list_queries_correct [OF example_store_rep, of 7 list_cmp_equality] by (simp add: list_cmp_equality_def)

text \<open>C14: The updates keep the store a list: appending or prepending a fresh node adds its datum at the end or the
  front (a failed \<^verbatim>\<open>malloc\<close> returns \<open>-1\<close> and changes nothing), and removal unlinks exactly the first matching
  node, returning \<open>0\<close> if there was one and \<open>-1\<close> otherwise.\<close>

theorem list_updates_correct:
  assumes "list_rep h l xs" and "addr \<notin> fst ` set xs"
  shows "(\<exists>l' h'. list_append addr l data h = Some (if addr = 0 then - 1 else 0, l', h') \<and>
      list_rep h' l' (if addr = 0 then xs else xs @ [(addr, data)])) \<and>
    (\<exists>l' h'. list_prepend addr l data h = Some (if addr = 0 then - 1 else 0, l', h') \<and>
      list_rep h' l' (if addr = 0 then xs else (addr, data) # xs)) \<and>
    (\<exists>l' h'. list_remove l data cmp h = Some (if \<exists>x \<in> snd ` set xs. cmp x data = 0 then 0 else - 1, l', h') \<and>
      list_rep h' l' (remove_first (\<lambda>x. cmp x data = 0) xs))"
proof (intro conjI)
  have s: "seg h (list_head l) xs 0" and d: "distinct (map fst xs)" using assms(1) by (simp_all add: list_rep_def)
  let ?h = "h(addr \<mapsto> \<lparr>node_data = data, node_next = 0\<rparr>)"
  show "\<exists>l' h'. list_append addr l data h = Some (if addr = 0 then - 1 else 0, l', h') \<and>
      list_rep h' l' (if addr = 0 then xs else xs @ [(addr, data)])"
  proof (cases "addr = 0")
    case False
    show ?thesis
    proof (cases xs rule: rev_cases)
      case Nil
      then show ?thesis using s False by (simp add: list_append_def make_node_def list_append_node_def list_rep_def)
    next
      case (snoc ys y)
      obtain b e where y: "y = (b, e)" by (cases y)
      have hs: "seg ?h (list_head l) (ys @ [(b, e)]) 0" using s assms(2) snoc y by simp
      have b: "?h b = Some \<lparr>node_data = e, node_next = 0\<rparr>" "b \<notin> fst ` set ys" "b \<noteq> addr" "addr \<notin> fst ` set ys"
        using hs d assms(2) snoc y by (auto simp: seg_append)
      have "list_head l \<noteq> 0" using s snoc y by (cases ys) auto
      then have run: "list_append addr l data h = Some (0, l, ?h(b \<mapsto> \<lparr>node_data = e, node_next = addr\<rparr>))"
        using False list_end_eq [OF hs] b by (simp add: list_append_def make_node_def list_append_node_def)
      have "seg (?h(b \<mapsto> \<lparr>node_data = e, node_next = addr\<rparr>)) (list_head l) (ys @ [(b, e)]) addr"
        by (rule seg_relink [OF hs b(2)])
      then have "seg (?h(b \<mapsto> \<lparr>node_data = e, node_next = addr\<rparr>)) (list_head l) ((ys @ [(b, e)]) @ [(addr, data)]) 0"
        unfolding seg_append using False b(3) by auto
      with run d assms(2) False show ?thesis unfolding snoc y by (auto simp: list_rep_def)
    qed
  qed (use assms(1) in \<open>simp add: list_append_def make_node_def\<close>)
  show "\<exists>l' h'. list_prepend addr l data h = Some (if addr = 0 then - 1 else 0, l', h') \<and>
      list_rep h' l' (if addr = 0 then xs else (addr, data) # xs)"
    using s d assms by (auto simp: list_prepend_def make_node_def list_prepend_node_def list_rep_def)
  show "\<exists>l' h'. list_remove l data cmp h = Some (if \<exists>x \<in> snd ` set xs. cmp x data = 0 then 0 else - 1, l', h') \<and>
      list_rep h' l' (remove_first (\<lambda>x. cmp x data = 0) xs)"
    using remove_loop_eq [of h l "[]" xs "list_head l" cmp data True] s d
    by (auto simp: list_remove_def prev_ptr_def list_rep_def distinct_remove_first)
qed

theorem list_updates_correct_witness:
  "\<exists>l' h'. list_append 24 \<lparr>list_head = 8\<rparr> 9 example_store = Some (0, l', h') \<and> list_rep h' l' [(8, 5), (16, 7), (24, 9)]"
  using list_updates_correct [OF example_store_rep, of 24 9 list_cmp_equality] by simp

end
