(* ===== verification/Pq.thy ===== *)
theory Pq
  imports Sos_Prelude "HOL-Library.Multiset"
begin

text \<open>
  The timer event queue of \<^verbatim>\<open>libclock/src/pq.c\<close>: a binary heap in an array whose slot \<open>0\<close> is
  unused. The array is absent until the first push and after a failed \<^verbatim>\<open>realloc\<close>; \<open>junk\<close> is the
  content of memory that \<^verbatim>\<open>realloc\<close> adds. Lengths and positions are natural numbers (an array of
  \<open>2 ^ 31\<close> events exceeds the address space), identifiers are 32-bit words that wrap.
\<close>

section \<open>Definitions\<close>

record event =
  ev_priority :: u64
  ev_delay :: u64
  ev_callback :: u32
  ev_data :: u32
  ev_uid :: u32
  ev_repeat :: u8

record priority_queue =
  pq_events :: "event list option"
  pq_len :: nat
  pq_size :: nat
  pq_counter :: u32

definition PQ_STARTING_SIZE :: nat where
  "PQ_STARTING_SIZE = 20"

definition init_pq :: "bool \<Rightarrow> priority_queue option" where
  "init_pq calloc_ok =
     (if \<not> calloc_ok then None
      else Some \<lparr>pq_events = None, pq_len = 0, pq_size = 0, pq_counter = 1\<rparr>)"

text \<open>\<^verbatim>\<open>realloc\<close> of the array to \<open>n\<close> slots.\<close>

definition pq_realloc :: "bool \<Rightarrow> event \<Rightarrow> event list option \<Rightarrow> nat \<Rightarrow> event list option" where
  "pq_realloc ok junk evs n =
     (if ok then Some (let xs = (case evs of None \<Rightarrow> [] | Some xs \<Rightarrow> xs) in take n xs @ replicate (n - length xs) junk)
      else None)"

function shift_up :: "u64 \<Rightarrow> event list \<Rightarrow> nat \<Rightarrow> (nat \<times> event list) option" where
  "shift_up priority evs i =
     (if i > 1 then do {
        e \<leftarrow> arr_get evs (int (i div 2));
        if ev_priority e > priority then do {
          evs \<leftarrow> arr_set evs (int i) e;
          shift_up priority evs (i div 2) }
        else Some (i, evs) }
      else Some (i, evs))"
  by pat_completeness auto
termination
  by (relation "measure (\<lambda>(_, _, i). i)") auto

declare shift_up.simps [simp del]

text \<open>The result is the identifier, or \<open>-1\<close> (all ones) when the queue is missing or cannot grow.\<close>

definition pq_push ::
  "bool \<Rightarrow> event \<Rightarrow> priority_queue option \<Rightarrow> u64 \<Rightarrow> u64 \<Rightarrow> u32 \<Rightarrow> u32 \<Rightarrow> u8 \<Rightarrow> u32 \<Rightarrow> (u32 \<times> priority_queue option) option" where
  "pq_push ok junk pq priority delay cb data repeat uid =
     (case pq of
        None \<Rightarrow> Some (- 1, None)
      | Some q \<Rightarrow>
          let grow = (pq_len q + 1 \<ge> pq_size q);
              n = (if pq_size q \<noteq> 0 then pq_size q * 2 else PQ_STARTING_SIZE);
              q = (if grow then q\<lparr>pq_size := n, pq_events := pq_realloc ok junk (pq_events q) n\<rparr> else q) in
          if grow \<and> pq_events q = None then Some (- 1, Some q)
          else do {
            evs \<leftarrow> pq_events q;
            (i, evs) \<leftarrow> shift_up priority evs (pq_len q + 1);
            let (uid, q) = (if uid \<noteq> 0 then (uid, q) else (pq_counter q, q\<lparr>pq_counter := pq_counter q + 1\<rparr>));
            evs \<leftarrow> arr_set evs (int i) \<lparr>ev_priority = priority, ev_delay = delay, ev_callback = cb, ev_data = data,
                                        ev_uid = uid, ev_repeat = repeat\<rparr>;
            Some (uid, Some (q\<lparr>pq_events := Some evs, pq_len := pq_len q + 1\<rparr>)) })"

text \<open>One of the two comparisons of the loop in \<^verbatim>\<open>remove_element\<close>: the candidate \<open>j\<close> against slot \<open>k\<close>.\<close>

definition smaller_slot :: "event list \<Rightarrow> nat \<Rightarrow> nat \<Rightarrow> nat \<Rightarrow> nat option" where
  "smaller_slot evs len k j =
     (if j \<le> len then do {
        a \<leftarrow> arr_get evs (int j);
        b \<leftarrow> arr_get evs (int k);
        Some (if ev_priority a < ev_priority b then j else k) }
      else Some k)"

lemma smaller_slot_cases: "smaller_slot evs len k j = Some m \<Longrightarrow> m = k \<or> m = j \<and> j \<le> len \<and> j \<noteq> k"
  by (auto simp: smaller_slot_def bind_eq_Some_conv split: if_splits)

function sift_down :: "event list \<Rightarrow> nat \<Rightarrow> nat \<Rightarrow> (nat \<times> event list) option" where
  "sift_down evs len i =
     (case smaller_slot evs len i (2 * i) of
        None \<Rightarrow> None
      | Some k1 \<Rightarrow> (case smaller_slot evs len k1 (2 * i + 1) of
          None \<Rightarrow> None
        | Some k \<Rightarrow> if k = i then Some (i, evs)
            else do {
              e \<leftarrow> arr_get evs (int k);
              evs \<leftarrow> arr_set evs (int i) e;
              sift_down evs len k }))"
  by pat_completeness auto
termination
  by (relation "measure (\<lambda>(_, len, i). Suc len - i)") (auto dest!: smaller_slot_cases)

declare sift_down.simps [simp del]

definition remove_element :: "priority_queue \<Rightarrow> nat \<Rightarrow> priority_queue option" where
  "remove_element q k = do {
     evs \<leftarrow> pq_events q;
     e \<leftarrow> arr_get evs (int (pq_len q));
     evs \<leftarrow> arr_set evs (int k) e;
     let len = pq_len q - 1;
     (i, evs) \<leftarrow> sift_down evs len k;
     e \<leftarrow> arr_get evs (int (len + 1));
     evs \<leftarrow> arr_set evs (int i) e;
     Some (q\<lparr>pq_events := Some evs, pq_len := len\<rparr>) }"

definition pq_pop :: "bool \<Rightarrow> priority_queue option \<Rightarrow> (event option \<times> priority_queue option) option" where
  "pq_pop malloc_ok pq =
     (case pq of
        None \<Rightarrow> Some (None, None)
      | Some q \<Rightarrow>
          if pq_len q = 0 then Some (None, Some q)
          else if \<not> malloc_ok then Some (None, Some q)
          else do {
            evs \<leftarrow> pq_events q;
            front \<leftarrow> arr_get evs 1;
            q \<leftarrow> remove_element q 1;
            Some (Some front, Some q) })"

text \<open>The search loop of \<^verbatim>\<open>pq_remove\<close>, from position \<open>i\<close> with \<open>n\<close> positions left.\<close>

fun find_uid :: "event list \<Rightarrow> u32 \<Rightarrow> nat \<Rightarrow> nat \<Rightarrow> nat option option" where
  "find_uid evs uid 0 i = Some None"
| "find_uid evs uid (Suc n) i = do {
     e \<leftarrow> arr_get evs (int i);
     if ev_uid e = uid then Some (Some i) else find_uid evs uid n (Suc i) }"

definition pq_remove :: "priority_queue option \<Rightarrow> u32 \<Rightarrow> (int \<times> priority_queue option) option" where
  "pq_remove pq uid =
     (case pq of
        None \<Rightarrow> Some (0, None)
      | Some q \<Rightarrow>
          if pq_len q = 0 then Some (0, Some q)
          else do {
            evs \<leftarrow> pq_events q;
            found \<leftarrow> find_uid evs uid (pq_len q) 1;
            case found of
              None \<Rightarrow> Some (0, Some q)
            | Some i \<Rightarrow> do { q \<leftarrow> remove_element q i; Some (1, Some q) } })"

text \<open>The loop of \<^verbatim>\<open>pq_purge\<close>: the bound \<^verbatim>\<open>pq->len\<close> shrinks while the position grows.\<close>

function purge_loop :: "priority_queue \<Rightarrow> nat \<Rightarrow> priority_queue option" where
  "purge_loop q i =
     (if i \<le> pq_len q
      then (case remove_element q i of None \<Rightarrow> None | Some q' \<Rightarrow> purge_loop q' (i + 1))
      else Some q)"
  by pat_completeness auto
termination
  by (relation "measure (\<lambda>(q, i). Suc (pq_len q) - i)") (auto simp: remove_element_def bind_eq_Some_conv Let_def)

declare purge_loop.simps [simp del]

definition pq_purge :: "priority_queue option \<Rightarrow> priority_queue option option" where
  "pq_purge pq =
     (case pq of
        None \<Rightarrow> Some None
      | Some q \<Rightarrow> if pq_len q = 0 then Some (Some q) else do { q \<leftarrow> purge_loop q 1; Some (Some q) })"

definition pq_time_peek :: "priority_queue option \<Rightarrow> u64 option" where
  "pq_time_peek pq =
     (case pq of
        None \<Rightarrow> Some 0
      | Some q \<Rightarrow> if pq_len q \<noteq> 0 then do { evs \<leftarrow> pq_events q; e \<leftarrow> arr_get evs 1; Some (ev_priority e) } else Some 0)"

definition pq_is_empty :: "priority_queue option \<Rightarrow> bool" where
  "pq_is_empty pq \<longleftrightarrow> (case pq of None \<Rightarrow> True | Some q \<Rightarrow> pq_len q = 0)"

definition pq_get_next_id :: "priority_queue option \<Rightarrow> u32 \<times> priority_queue option" where
  "pq_get_next_id pq =
     (case pq of
        None \<Rightarrow> (0, None)
      | Some q \<Rightarrow> (pq_counter q, Some (q\<lparr>pq_counter := pq_counter q + 1\<rparr>)))"

section \<open>Heap order and content\<close>

abbreviation pri :: "event list \<Rightarrow> nat \<Rightarrow> u64" where
  "pri evs k \<equiv> ev_priority (evs ! k)"

definition heap_ordered :: "event list \<Rightarrow> nat \<Rightarrow> bool" where
  "heap_ordered evs n \<longleftrightarrow> (\<forall>c\<in>{2..n}. pri evs (c div 2) \<le> pri evs c)"

text \<open>The events in the slots of a set of positions, and the events of a queue.\<close>

definition slots :: "event list \<Rightarrow> nat set \<Rightarrow> event multiset" where
  "slots evs K = image_mset ((!) evs) (mset_set K)"

definition pq_elems :: "priority_queue \<Rightarrow> event multiset" where
  "pq_elems q = (case pq_events q of None \<Rightarrow> {#} | Some evs \<Rightarrow> slots evs {1..pq_len q})"

text \<open>The invariant of every queue whose last \<^verbatim>\<open>realloc\<close> succeeded.\<close>

definition pq_wf :: "priority_queue \<Rightarrow> bool" where
  "pq_wf q \<longleftrightarrow> (case pq_events q of
      None \<Rightarrow> pq_len q = 0 \<and> pq_size q = 0
    | Some evs \<Rightarrow> length evs = pq_size q \<and> pq_len q < pq_size q)"

definition pq_heap :: "priority_queue \<Rightarrow> bool" where
  "pq_heap q \<longleftrightarrow> (case pq_events q of None \<Rightarrow> True | Some evs \<Rightarrow> heap_ordered evs (pq_len q))"

lemma slots_cong: "(\<And>k. k \<in> K \<Longrightarrow> xs ! k = ys ! k) \<Longrightarrow> finite K \<Longrightarrow> slots xs K = slots ys K"
  unfolding slots_def by (rule image_mset_cong) simp

lemma slots_outside [simp]: "i \<notin> K \<Longrightarrow> finite K \<Longrightarrow> slots (xs[i := e]) K = slots xs K"
  by (rule slots_cong) (auto intro!: nth_list_update_neq)

lemma slots_remove: "finite K \<Longrightarrow> i \<in> K \<Longrightarrow> slots xs K = add_mset (xs ! i) (slots xs (K - {i}))"
  unfolding slots_def by (simp add: mset_set.remove)

lemma slots_upd:
  "finite K \<Longrightarrow> i \<in> K \<Longrightarrow> i < length xs \<Longrightarrow> slots (xs[i := e]) K = add_mset e (slots xs (K - {i}))"
  by (simp add: slots_remove [of K i "xs[i := e]"])

text \<open>Copying slot \<open>p\<close> over slot \<open>i\<close> moves the hole from \<open>i\<close> to \<open>p\<close>.\<close>

lemma slots_move:
  assumes "finite K" "i \<in> K" "p \<in> K" "i \<noteq> p" "i < length xs"
  shows "slots (xs[i := xs ! p]) (K - {p}) = slots xs (K - {i})"
proof -
  have "slots (xs[i := xs ! p]) (K - {p}) = add_mset (xs ! p) (slots xs (K - {p} - {i}))"
    using assms by (intro slots_upd) auto
  moreover have "slots xs (K - {i}) = add_mset (xs ! p) (slots xs (K - {i} - {p}))"
    using assms by (intro slots_remove) auto
  moreover have "K - {p} - {i} = K - {i} - {p}" by blast
  ultimately show ?thesis by simp
qed

section \<open>Push\<close>

text \<open>
  The array during the shifting loop: slot \<open>i\<close> is the hole that will take an event of
  priority \<open>p\<close>. Everything not touching the hole is in order, the hole's children are above
  both \<open>p\<close> and the hole's parent.
\<close>

definition heap_hole :: "event list \<Rightarrow> nat \<Rightarrow> nat \<Rightarrow> u64 \<Rightarrow> bool" where
  "heap_hole evs n i p \<longleftrightarrow>
     (\<forall>c\<in>{2..n}. c \<noteq> i \<longrightarrow>
        (if c div 2 = i then p \<le> pri evs c \<and> (i \<ge> 2 \<longrightarrow> pri evs (i div 2) \<le> pri evs c)
         else pri evs (c div 2) \<le> pri evs c))"

lemma heap_holeD:
  assumes "heap_hole evs n i p" "2 \<le> c" "c \<le> n" "c \<noteq> i"
  shows "c div 2 = i \<Longrightarrow> p \<le> pri evs c" "c div 2 = i \<Longrightarrow> i \<ge> 2 \<Longrightarrow> pri evs (i div 2) \<le> pri evs c"
    "c div 2 \<noteq> i \<Longrightarrow> pri evs (c div 2) \<le> pri evs c"
  using assms unfolding heap_hole_def by auto

lemma heap_hole_start: "heap_ordered evs n \<Longrightarrow> heap_hole evs (Suc n) (Suc n) p"
  unfolding heap_ordered_def heap_hole_def by auto

lemma heap_hole_move:
  assumes h: "heap_hole evs n i p" and i: "2 \<le> i" "i \<le> n" "n < length evs"
    and gt: "pri evs (i div 2) > p"
  shows "heap_hole (evs[i := evs ! (i div 2)]) n (i div 2) p"
proof -
  let ?j = "i div 2" and ?e = "evs[i := evs ! (i div 2)]"
  have ne: "?j \<noteq> i" "0 < ?j" using i by auto
  have up: "pri evs (?j div 2) \<le> pri evs ?j" if "2 \<le> ?j"
  proof -
    have "?j div 2 \<noteq> i" using i by auto
    then show ?thesis using heap_holeD(3) [OF h that] i ne by simp
  qed
  have "(if c div 2 = ?j then p \<le> pri ?e c \<and> (?j \<ge> 2 \<longrightarrow> pri ?e (?j div 2) \<le> pri ?e c)
         else pri ?e (c div 2) \<le> pri ?e c)" if c: "2 \<le> c" "c \<le> n" "c \<noteq> ?j" for c
  proof -
    have dj: "?j div 2 \<noteq> i" using i by auto
    consider "c = i" | "c \<noteq> i" "c div 2 = ?j" | "c \<noteq> i" "c div 2 = i" | "c \<noteq> i" "c div 2 \<noteq> i" "c div 2 \<noteq> ?j"
      by blast
    then show ?thesis
    proof cases
      case 1
      then show ?thesis using gt up dj i by auto
    next
      case 2
      then have "pri evs ?j \<le> pri evs c" using heap_holeD(3) [OF h c(1,2)] ne by simp
      then show ?thesis using 2 gt up dj by (auto intro: order.trans)
    next
      case 3
      then show ?thesis using heap_holeD(2) [OF h c(1,2)] i ne by simp
    next
      case 4
      then show ?thesis using heap_holeD(3) [OF h c(1,2)] by simp
    qed
  qed
  then show ?thesis unfolding heap_hole_def by (meson atLeastAtMost_iff)
qed

lemma heap_hole_fill:
  assumes "heap_hole evs n i (ev_priority e)" "n < length evs" "1 \<le> i" "i \<le> n"
    and "i > 1 \<Longrightarrow> pri evs (i div 2) \<le> ev_priority e"
  shows "heap_ordered (evs[i := e]) n"
proof -
  have "pri (evs[i := e]) (c div 2) \<le> pri (evs[i := e]) c" if c: "2 \<le> c" "c \<le> n" for c
  proof (cases "c = i")
    case True
    moreover have "i div 2 \<noteq> i" using assms(3) by auto
    ultimately show ?thesis using assms(2,4,5) c by simp
  next
    case False
    then show ?thesis
      using heap_holeD(1,3) [OF assms(1) c False] assms(2,4) by (cases "c div 2 = i") simp_all
  qed
  then show ?thesis unfolding heap_ordered_def by simp
qed

lemma shift_up_correct:
  assumes "1 \<le> i" "i \<le> n" "n < length evs"
  shows "\<exists>j evs'. shift_up p evs i = Some (j, evs') \<and> 1 \<le> j \<and> j \<le> n \<and> length evs' = length evs
    \<and> slots evs' ({1..n} - {j}) = slots evs ({1..n} - {i})
    \<and> (heap_hole evs n i p \<longrightarrow> heap_hole evs' n j p \<and> (j > 1 \<longrightarrow> pri evs' (j div 2) \<le> p))"
  using assms
proof (induction p evs i rule: shift_up.induct)
  case (1 p evs i)
  show ?case
  proof (cases "i > 1 \<and> pri evs (i div 2) > p")
    case True
    let ?e = "evs[i := evs ! (i div 2)]"
    have st: "shift_up p evs i = shift_up p ?e (i div 2)"
      using True "1.prems" by (subst shift_up.simps) auto
    have b: "1 \<le> i div 2" "i div 2 \<le> n" "n < length ?e" using True "1.prems" by auto
    obtain j evs' where ih: "shift_up p ?e (i div 2) = Some (j, evs')" "1 \<le> j" "j \<le> n" "length evs' = length evs"
      "slots evs' ({1..n} - {j}) = slots ?e ({1..n} - {i div 2})"
      "heap_hole ?e n (i div 2) p \<longrightarrow> heap_hole evs' n j p \<and> (j > 1 \<longrightarrow> pri evs' (j div 2) \<le> p)"
      using "1.IH" [of "evs ! (i div 2)" ?e] True "1.prems" b by auto
    have "slots ?e ({1..n} - {i div 2}) = slots evs ({1..n} - {i})"
      using "1.prems" b True by (intro slots_move) auto
    moreover have "heap_hole evs n i p \<longrightarrow> heap_hole ?e n (i div 2) p"
      using heap_hole_move True "1.prems" by auto
    ultimately show ?thesis using st ih by auto
  next
    case False
    then have "shift_up p evs i = Some (i, evs)"
      using "1.prems" by (subst shift_up.simps) auto
    with False "1.prems" show ?thesis by auto
  qed
qed

text \<open>What a push leaves, in the case where the array already has room.\<close>

lemma push_array:
  assumes "n < length evs" "Suc n < length evs"
  obtains i evs' where "shift_up (ev_priority e) evs (n + 1) = Some (i, evs')" "i < length evs'"
    "length evs' = length evs" "slots (evs'[i := e]) {1..n + 1} = add_mset e (slots evs {1..n})"
    "heap_ordered evs n \<Longrightarrow> heap_ordered (evs'[i := e]) (n + 1)"
proof -
  obtain i evs' where r: "shift_up (ev_priority e) evs (n + 1) = Some (i, evs')" "1 \<le> i" "i \<le> n + 1"
    "length evs' = length evs" "slots evs' ({1..n + 1} - {i}) = slots evs ({1..n + 1} - {n + 1})"
    "heap_hole evs (n + 1) (n + 1) (ev_priority e) \<longrightarrow>
       heap_hole evs' (n + 1) i (ev_priority e) \<and> (i > 1 \<longrightarrow> pri evs' (i div 2) \<le> ev_priority e)"
    using shift_up_correct [of "n + 1" "n + 1" evs "ev_priority e"] assms(2) by auto
  have "slots (evs'[i := e]) {1..n + 1} = add_mset e (slots evs' ({1..n + 1} - {i}))"
    using r(2,3,4) assms(2) by (intro slots_upd) auto
  moreover have "{1..n + 1} - {n + 1} = {1..n}" by auto
  ultimately have sl: "slots (evs'[i := e]) {1..n + 1} = add_mset e (slots evs {1..n})"
    using r(5) by simp
  have "heap_ordered (evs'[i := e]) (n + 1)" if "heap_ordered evs n"
    using r assms(2) heap_hole_start [OF that, of "ev_priority e"] by (intro heap_hole_fill) auto
  then show thesis using that [OF r(1) _ r(4) sl] r(3,4) assms(2) by simp
qed

lemma pq_realloc_grow:
  assumes "length evs < n"
  shows "pq_realloc True junk (Some evs) n = Some (evs @ replicate (n - length evs) junk)"
  using assms by (simp add: pq_realloc_def)

lemma slots_append: "K \<subseteq> {..<length xs} \<Longrightarrow> slots (xs @ ys) K = slots xs K"
  by (rule slots_cong) (auto simp: nth_append finite_subset)

lemma heap_ordered_append: "n < length xs \<Longrightarrow> heap_ordered (xs @ ys) n \<longleftrightarrow> heap_ordered xs n"
  unfolding heap_ordered_def by (auto simp: nth_append)

text \<open>The queue after the resizing step of a push, when \<^verbatim>\<open>realloc\<close> succeeds.\<close>

definition pq_grown :: "event \<Rightarrow> priority_queue \<Rightarrow> priority_queue" where
  "pq_grown junk q =
     (if pq_len q + 1 \<ge> pq_size q
      then let n = (if pq_size q \<noteq> 0 then pq_size q * 2 else PQ_STARTING_SIZE)
           in q\<lparr>pq_size := n, pq_events := pq_realloc True junk (pq_events q) n\<rparr>
      else q)"

lemma pq_grown_ok:
  assumes "pq_wf q"
  obtains evs where "pq_events (pq_grown junk q) = Some evs" "pq_len (pq_grown junk q) = pq_len q"
    "pq_counter (pq_grown junk q) = pq_counter q" "length evs = pq_size (pq_grown junk q)"
    "pq_len q + 1 < length evs" "slots evs {1..pq_len q} = pq_elems q"
    "heap_ordered evs (pq_len q) = pq_heap q"
proof (cases "pq_events q")
  case None
  then have "pq_events (pq_grown junk q) = Some (replicate 20 junk)" "pq_len q = 0"
    "pq_size (pq_grown junk q) = 20" "pq_elems q = {#}" "pq_heap q"
    using assms by (simp_all add: pq_wf_def pq_grown_def pq_realloc_def PQ_STARTING_SIZE_def pq_elems_def
        pq_heap_def)
  moreover have "heap_ordered (replicate 20 junk) 0" by (simp add: heap_ordered_def)
  moreover have "slots (replicate 20 junk) {1..0} = {#}" by (simp add: slots_def)
  ultimately show thesis using that [of "replicate 20 junk"] by (simp add: pq_grown_def Let_def)
next
  case (Some evs)
  then have w: "length evs = pq_size q" "pq_len q < pq_size q" using assms by (simp_all add: pq_wf_def)
  show thesis
  proof (cases "pq_len q + 1 \<ge> pq_size q")
    case True
    have "pq_realloc True junk (Some evs) (pq_size q * 2) = Some (evs @ replicate (pq_size q) junk)"
      using w by (subst pq_realloc_grow) auto
    moreover have "{1..pq_len q} \<subseteq> {..<length evs}" using w by auto
    ultimately show thesis
      using that [of "evs @ replicate (pq_size q) junk"] True Some w
        slots_append [of "{1..pq_len q}" evs] heap_ordered_append [of "pq_len q" evs]
      by (auto simp: pq_grown_def pq_elems_def pq_heap_def)
  next
    case False
    then show thesis using that [of evs] Some w by (simp add: pq_grown_def pq_elems_def pq_heap_def)
  qed
qed

text \<open>
  C15: When memory is available, pushing onto a well-formed queue always succeeds, adds exactly
  the described event to the queue's content under the given identifier (or, for \<open>0\<close>, under the
  next one of the counter, which then advances), returns that identifier, and keeps the array
  well formed and a heap in heap order.
\<close>

theorem pq_push_correct:
  assumes "pq_wf q"
  shows "let u = (if uid \<noteq> 0 then uid else pq_counter q);
             e = \<lparr>ev_priority = p, ev_delay = d, ev_callback = cb, ev_data = dat, ev_uid = u, ev_repeat = r\<rparr>
         in \<exists>q'. pq_push True junk (Some q) p d cb dat r uid = Some (u, Some q')
              \<and> pq_elems q' = add_mset e (pq_elems q) \<and> pq_len q' = pq_len q + 1 \<and> pq_wf q'
              \<and> pq_counter q' = (if uid \<noteq> 0 then pq_counter q else pq_counter q + 1)
              \<and> (pq_heap q \<longrightarrow> pq_heap q')"
proof -
  define u where "u = (if uid \<noteq> 0 then uid else pq_counter q)"
  define e where "e = \<lparr>ev_priority = p, ev_delay = d, ev_callback = cb, ev_data = dat, ev_uid = u, ev_repeat = r\<rparr>"
  obtain evs where g: "pq_events (pq_grown junk q) = Some evs" "pq_len (pq_grown junk q) = pq_len q"
    "pq_counter (pq_grown junk q) = pq_counter q" "length evs = pq_size (pq_grown junk q)"
    "pq_len q + 1 < length evs" "slots evs {1..pq_len q} = pq_elems q"
    "heap_ordered evs (pq_len q) = pq_heap q"
    by (rule pq_grown_ok [OF assms])
  obtain i evs' where s: "shift_up p evs (pq_len q + 1) = Some (i, evs')" "i < length evs'"
    "length evs' = length evs" "slots (evs'[i := e]) {1..pq_len q + 1} = add_mset e (slots evs {1..pq_len q})"
    "heap_ordered evs (pq_len q) \<Longrightarrow> heap_ordered (evs'[i := e]) (pq_len q + 1)"
    using g(5) push_array [of "pq_len q" evs e] by (auto simp: e_def)
  define q' where "q' = (pq_grown junk q)\<lparr>pq_counter := (if uid \<noteq> 0 then pq_counter q else pq_counter q + 1),
    pq_events := Some (evs'[i := e]), pq_len := pq_len q + 1\<rparr>"
  have "pq_push True junk (Some q) p d cb dat r uid =
      (if pq_len q + 1 \<ge> pq_size q \<and> pq_events (pq_grown junk q) = None then Some (- 1, Some (pq_grown junk q))
       else Some (u, Some q'))"
    using g(1,2,3) s(1,2) unfolding pq_push_def pq_grown_def q'_def e_def u_def Let_def
    by (cases "uid = 0"; cases "pq_len q + 1 \<ge> pq_size q") simp_all
  then have "pq_push True junk (Some q) p d cb dat r uid = Some (u, Some q')" using g(1) by simp
  moreover have "pq_elems q' = add_mset e (pq_elems q)" using s(4) g(6) by (simp add: q'_def pq_elems_def)
  moreover have "pq_wf q'" using g(4,5) s(3) by (simp add: q'_def pq_wf_def)
  moreover have "pq_heap q \<longrightarrow> pq_heap q'" using s(5) g(7) by (simp add: q'_def pq_heap_def)
  ultimately show ?thesis unfolding Let_def u_def [symmetric] e_def [symmetric] by (auto simp: q'_def)
qed

theorem pq_push_correct_witness:
  "let e = \<lparr>ev_priority = 5, ev_delay = 2, ev_callback = 3, ev_data = 4, ev_uid = 1, ev_repeat = 1\<rparr>
   in \<exists>q'. pq_push True e (Some \<lparr>pq_events = None, pq_len = 0, pq_size = 0, pq_counter = 1\<rparr>) 5 2 3 4 1 0 = Some (1, Some q')
     \<and> pq_elems q' = {#e#}"
  using pq_push_correct [of "\<lparr>pq_events = None, pq_len = 0, pq_size = 0, pq_counter = 1\<rparr>" 0 5 2 3 4 1
      "\<lparr>ev_priority = 5, ev_delay = 2, ev_callback = 3, ev_data = 4, ev_uid = 1, ev_repeat = 1\<rparr>"]
  by (auto simp: pq_wf_def pq_elems_def Let_def)

section \<open>Removal\<close>

lemma smaller_slot_Some:
  "k < length evs \<Longrightarrow> m < length evs \<Longrightarrow> \<exists>k'. smaller_slot evs m k j = Some k' \<and> (k' = k \<or> k' = j \<and> j \<le> m)"
  by (auto simp: smaller_slot_def)

lemma sift_down_correct:
  assumes "1 \<le> i" "i \<le> m" "m < length evs"
  shows "\<exists>j evs'. sift_down evs m i = Some (j, evs') \<and> 1 \<le> j \<and> j \<le> m \<and> length evs' = length evs
    \<and> (\<forall>k>m. evs' ! k = evs ! k) \<and> slots evs' ({1..m} - {j}) = slots evs ({1..m} - {i})"
  using assms
proof (induction evs m i rule: sift_down.induct)
  case (1 evs m i)
  obtain k1 where k1: "smaller_slot evs m i (2 * i) = Some k1" "k1 = i \<or> k1 = 2 * i \<and> 2 * i \<le> m"
    using smaller_slot_Some [of i evs m "2 * i"] "1.prems" by auto
  then have "k1 < length evs" using "1.prems" by auto
  then obtain k where k: "smaller_slot evs m k1 (2 * i + 1) = Some k"
    "k = k1 \<or> k = 2 * i + 1 \<and> 2 * i + 1 \<le> m"
    using smaller_slot_Some [of k1 evs m "2 * i + 1"] "1.prems" by auto
  show ?case
  proof (cases "k = i")
    case True
    then have "sift_down evs m i = Some (i, evs)" using k1(1) k(1) by (subst sift_down.simps) simp
    with "1.prems" show ?thesis by auto
  next
    case False
    let ?e = "evs[i := evs ! k]"
    have b: "1 \<le> k" "k \<le> m" "k < length evs" "i < length evs"
      using k(2) k1(2) False "1.prems" by auto
    have st: "sift_down evs m i = sift_down ?e m k"
      using k1(1) k(1) False b by (subst sift_down.simps) simp
    obtain j evs' where ih: "sift_down ?e m k = Some (j, evs')" "1 \<le> j" "j \<le> m" "length evs' = length ?e"
      "\<forall>l>m. evs' ! l = ?e ! l" "slots evs' ({1..m} - {j}) = slots ?e ({1..m} - {k})"
      using "1.IH" [OF k1(1) k(1) False, of "evs ! k" ?e] b "1.prems" by auto
    have "slots ?e ({1..m} - {k}) = slots evs ({1..m} - {i})"
      using "1.prems" b False by (intro slots_move) auto
    moreover have "\<forall>l>m. ?e ! l = evs ! l" using "1.prems"(2) by auto
    ultimately show ?thesis using st ih by auto
  qed
qed

lemma remove_element_correct:
  assumes ev: "pq_events q = Some evs" and wf: "pq_wf q" and k: "1 \<le> k" "k \<le> pq_len q"
  shows "\<exists>q'. remove_element q k = Some q' \<and> pq_wf q' \<and> pq_len q' = pq_len q - 1
    \<and> pq_counter q' = pq_counter q \<and> pq_size q' = pq_size q
    \<and> pq_elems q = add_mset (evs ! k) (pq_elems q')"
proof -
  let ?n = "pq_len q"
  define m where "m = ?n - 1"
  have n: "?n = Suc m" "Suc m < length evs" "length evs = pq_size q" using ev wf k by (auto simp: m_def pq_wf_def)
  have split: "slots evs {1..Suc m} = add_mset (evs ! Suc m) (slots evs {1..m})"
  proof -
    have "{1..Suc m} - {Suc m} = {1..m}" by auto
    then show ?thesis using slots_remove [of "{1..Suc m}" "Suc m" evs] by simp
  qed
  have el: "pq_elems q = slots evs {1..Suc m}" using ev n by (simp add: pq_elems_def)
  show ?thesis
  proof (cases "k = Suc m")
    case True
    have "sift_down evs m (Suc m) = Some (Suc m, evs)"
      by (subst sift_down.simps) (simp add: smaller_slot_def)
    then have "remove_element q k = Some (q\<lparr>pq_events := Some evs, pq_len := m\<rparr>)"
      using True ev n by (simp add: remove_element_def Let_def flip: of_nat_Suc)
    then show ?thesis using True el split n ev by (auto simp: pq_elems_def pq_wf_def)
  next
    case False
    let ?e = "evs ! Suc m" and ?evs = "evs[k := evs ! Suc m]"
    have km: "k \<le> m" using False k n by simp
    obtain j evs' where s: "sift_down ?evs m k = Some (j, evs')" "1 \<le> j" "j \<le> m" "length evs' = length ?evs"
      "\<forall>l>m. evs' ! l = ?evs ! l" "slots evs' ({1..m} - {j}) = slots ?evs ({1..m} - {k})"
      using sift_down_correct [of k m ?evs] k km n by auto
    have "evs' ! Suc m = ?e" using s(5) False by simp
    then have r: "remove_element q k = Some (q\<lparr>pq_events := Some (evs'[j := ?e]), pq_len := m\<rparr>)"
      using s(1,3,4) ev n km by (simp add: remove_element_def Let_def flip: of_nat_Suc)
    have "slots (evs'[j := ?e]) {1..m} = add_mset ?e (slots evs ({1..m} - {k}))"
      using s(2,3,4,6) n by (subst slots_upd) auto
    moreover have "slots evs {1..m} = add_mset (evs ! k) (slots evs ({1..m} - {k}))"
      using k km by (intro slots_remove) auto
    ultimately show ?thesis using r el split s(4) n by (auto simp: pq_elems_def pq_wf_def)
  qed
qed

lemma heap_front_min:
  assumes "heap_ordered evs n" "1 \<le> k" "k \<le> n"
  shows "pri evs 1 \<le> pri evs k"
  using assms(2,3)
proof (induction k rule: less_induct)
  case (less k)
  show ?case
  proof (cases "k = 1")
    case False
    then have "pri evs 1 \<le> pri evs (k div 2)" "pri evs (k div 2) \<le> pri evs k"
      using less assms(1) by (auto simp: heap_ordered_def)
    then show ?thesis by simp
  qed simp
qed

lemma pq_pop_ok:
  assumes "pq_wf q" "pq_len q \<noteq> 0"
  shows "\<exists>e q'. pq_pop True (Some q) = Some (Some e, Some q') \<and> pq_wf q' \<and> pq_len q' = pq_len q - 1
    \<and> pq_elems q = add_mset e (pq_elems q') \<and> pq_time_peek (Some q) = Some (ev_priority e)
    \<and> (pq_heap q \<longrightarrow> (\<forall>f\<in>#pq_elems q. ev_priority e \<le> ev_priority f))"
proof -
  obtain evs where ev: "pq_events q = Some evs" and len: "length evs = pq_size q" "pq_len q < pq_size q"
    using assms by (auto simp: pq_wf_def split: option.splits)
  obtain q' where q': "remove_element q 1 = Some q'" "pq_wf q'" "pq_len q' = pq_len q - 1"
    "pq_elems q = add_mset (evs ! 1) (pq_elems q')"
    using remove_element_correct [OF ev assms(1), of 1] assms(2) by auto
  have "arr_get evs 1 = Some (evs ! 1)" using len assms(2) by (simp add: arr_get_def)
  moreover have "\<forall>f\<in>#pq_elems q. pri evs 1 \<le> ev_priority f" if "pq_heap q"
    using that ev heap_front_min [of evs "pq_len q"] by (auto simp: pq_heap_def pq_elems_def slots_def)
  ultimately show ?thesis using assms(2) ev q' by (simp add: pq_pop_def pq_time_peek_def)
qed

lemma pq_peek_ok: "pq_wf q \<Longrightarrow> \<exists>t. pq_time_peek (Some q) = Some t"
  using pq_pop_ok by (cases "pq_len q = 0") (auto simp: pq_time_peek_def)

text \<open>
  C16: Popping a well-formed non-empty queue always succeeds (when memory is available), removes
  exactly the event it returns from the queue's content, and, when the array is in heap order,
  that event is one of least priority; an empty queue gives no event and stays unchanged.
\<close>

theorem pq_pop_correct:
  assumes "pq_wf q"
  shows "if pq_len q = 0 then pq_pop True (Some q) = Some (None, Some q)
         else \<exists>e q'. pq_pop True (Some q) = Some (Some e, Some q') \<and> pq_wf q' \<and> pq_len q' = pq_len q - 1
                \<and> pq_elems q = add_mset e (pq_elems q') \<and> pq_time_peek (Some q) = Some (ev_priority e)
                \<and> (pq_heap q \<longrightarrow> (\<forall>f\<in>#pq_elems q. ev_priority e \<le> ev_priority f))"
  using pq_pop_ok [OF assms] by (simp add: pq_pop_def)

theorem pq_pop_correct_witness:
  "let e = \<lparr>ev_priority = 7, ev_delay = 2, ev_callback = 3, ev_data = 4, ev_uid = 9, ev_repeat = 1\<rparr>
   in \<exists>q'. pq_pop True (Some \<lparr>pq_events = Some [e, e, e], pq_len = 1, pq_size = 3, pq_counter = 2\<rparr>) = Some (Some e, Some q')
     \<and> pq_elems q' = {#}"
proof -
  let ?e = "\<lparr>ev_priority = 7, ev_delay = 2, ev_callback = 3, ev_data = 4, ev_uid = 9, ev_repeat = 1\<rparr>"
  show ?thesis
    using pq_pop_correct [of "\<lparr>pq_events = Some [?e, ?e, ?e], pq_len = 1, pq_size = 3, pq_counter = 2\<rparr>"]
    by (auto simp: Let_def pq_wf_def pq_elems_def slots_def)
qed

lemma find_uid_correct:
  assumes "i + n \<le> length evs"
  shows "case find_uid evs uid n i of
      None \<Rightarrow> False
    | Some None \<Rightarrow> \<forall>k\<in>{i..<i + n}. ev_uid (evs ! k) \<noteq> uid
    | Some (Some k) \<Rightarrow> k \<in> {i..<i + n} \<and> ev_uid (evs ! k) = uid"
  using assms
proof (induction evs uid n i rule: find_uid.induct)
  case (2 evs uid n i)
  show ?case
  proof (cases "ev_uid (evs ! i) = uid")
    case False
    then have "find_uid evs uid (Suc n) i = find_uid evs uid n (Suc i)" using "2.prems" by simp
    moreover have "{i..<i + Suc n} = insert i {Suc i..<Suc i + n}" by auto
    ultimately show ?thesis using 2 False by (simp split: option.splits)
  qed (use "2.prems" in simp)
qed simp

text \<open>
  C17: Removing by identifier always returns: \<open>1\<close> when an event of that identifier is queued,
  and then exactly one such event leaves the queue's content; \<open>0\<close> when there is none, and
  then the queue is unchanged.
\<close>

theorem pq_remove_correct:
  assumes "pq_wf q"
  shows "if uid \<in># image_mset ev_uid (pq_elems q)
         then \<exists>e q'. pq_remove (Some q) uid = Some (1, Some q') \<and> ev_uid e = uid
                \<and> pq_elems q = add_mset e (pq_elems q') \<and> pq_wf q'
         else pq_remove (Some q) uid = Some (0, Some q)"
proof (cases "pq_len q = 0")
  case True
  then show ?thesis by (auto simp: pq_remove_def pq_elems_def slots_def split: option.splits)
next
  case False
  with assms obtain evs where ev: "pq_events q = Some evs" and len: "length evs = pq_size q" "pq_len q < pq_size q"
    by (auto simp: pq_wf_def split: option.splits)
  have el: "pq_elems q = slots evs {1..pq_len q}" using ev by (simp add: pq_elems_def)
  have fc: "case find_uid evs uid (pq_len q) 1 of None \<Rightarrow> False
      | Some None \<Rightarrow> \<forall>k\<in>{1..<1 + pq_len q}. ev_uid (evs ! k) \<noteq> uid
      | Some (Some k) \<Rightarrow> k \<in> {1..<1 + pq_len q} \<and> ev_uid (evs ! k) = uid"
    using find_uid_correct [of 1 "pq_len q" evs uid] len by simp
  show ?thesis
  proof (cases "find_uid evs uid (pq_len q) 1")
    case None
    then show ?thesis using fc by simp
  next
    case (Some r)
    show ?thesis
    proof (cases r)
      case None
      then have "uid \<notin># image_mset ev_uid (pq_elems q)" using fc Some by (auto simp: el slots_def)
      then show ?thesis using None Some ev False by (simp add: pq_remove_def)
    next
      case r: (Some k)
      then have k: "1 \<le> k" "k \<le> pq_len q" "ev_uid (evs ! k) = uid" using fc Some by auto
      obtain q' where q': "remove_element q k = Some q'" "pq_wf q'" "pq_elems q = add_mset (evs ! k) (pq_elems q')"
        using remove_element_correct [OF ev assms k(1,2)] by auto
      then have "pq_remove (Some q) uid = Some (1, Some q')"
        using r Some ev False by (simp add: pq_remove_def)
      then show ?thesis using q' k(3) by auto
    qed
  qed
qed

theorem pq_remove_correct_witness:
  "let e = \<lparr>ev_priority = 7, ev_delay = 2, ev_callback = 3, ev_data = 4, ev_uid = 9, ev_repeat = 1\<rparr>;
       q = \<lparr>pq_events = Some [e, e, e], pq_len = 1, pq_size = 3, pq_counter = 2\<rparr>
   in (\<exists>q'. pq_remove (Some q) 9 = Some (1, Some q')) \<and> pq_remove (Some q) 4 = Some (0, Some q)"
proof -
  let ?e = "\<lparr>ev_priority = 7, ev_delay = 2, ev_callback = 3, ev_data = 4, ev_uid = 9, ev_repeat = 1\<rparr>"
  let ?q = "\<lparr>pq_events = Some [?e, ?e, ?e], pq_len = 1, pq_size = 3, pq_counter = 2\<rparr>"
  show ?thesis
    using pq_remove_correct [of ?q 9] pq_remove_correct [of ?q 4]
    by (auto simp: Let_def pq_wf_def pq_elems_def slots_def)
qed

section \<open>Where the code departs from its comments\<close>

lemma purge_loop_len:
  assumes "pq_wf q" "1 \<le> i" "i \<le> pq_len q + 1"
  shows "\<exists>q'. purge_loop q i = Some q' \<and> pq_len q' = pq_len q - (pq_len q + 2 - i) div 2"
  using assms
proof (induction q i rule: purge_loop.induct)
  case (1 q i)
  show ?case
  proof (cases "i \<le> pq_len q")
    case True
    then obtain evs where "pq_events q = Some evs" using "1.prems" by (auto simp: pq_wf_def split: option.splits)
    then obtain q1 where q1: "remove_element q i = Some q1" "pq_wf q1" "pq_len q1 = pq_len q - 1"
      using remove_element_correct [of q evs i] "1.prems" True by auto
    have st: "purge_loop q i = purge_loop q1 (i + 1)" using q1 True by (subst purge_loop.simps) simp
    show ?thesis
    proof (cases "i = pq_len q")
      case last: True
      then have "purge_loop q1 (i + 1) = Some q1" using q1(3) by (subst purge_loop.simps) auto
      then show ?thesis using st q1(3) last by simp
    next
      case False
      then have "\<exists>q'. purge_loop q1 (i + 1) = Some q' \<and> pq_len q' = pq_len q1 - (pq_len q1 + 2 - (i + 1)) div 2"
        using "1.IH" [OF True q1(1) q1(2)] "1.prems" True q1(3) by simp
      moreover have "pq_len q1 - (pq_len q1 + 2 - (i + 1)) div 2 = pq_len q - (pq_len q + 2 - i) div 2"
        using q1(3) True "1.prems"(2) by linarith
      ultimately show ?thesis using st by simp
    qed
  next
    case False
    then have "purge_loop q i = Some q" by (subst purge_loop.simps) simp
    then show ?thesis using False "1.prems" by simp
  qed
qed

text \<open>
  C19: \<^verbatim>\<open>pq_purge\<close>, documented to remove all elements, always returns with half of them (rounded
  down) still queued, because the loop's bound shrinks while its index grows.
\<close>

theorem pq_purge_keeps_half:
  assumes "pq_wf q"
  shows "\<exists>q'. pq_purge (Some q) = Some (Some q') \<and> pq_len q' = pq_len q div 2"
proof (cases "pq_len q = 0")
  case True
  then show ?thesis by (simp add: pq_purge_def)
next
  case False
  then obtain q' where "purge_loop q 1 = Some q'" "pq_len q' = pq_len q - (pq_len q + 2 - 1) div 2"
    using purge_loop_len [OF assms, of 1] by auto
  moreover have "pq_len q - (pq_len q + 2 - 1) div 2 = pq_len q div 2" by linarith
  ultimately show ?thesis using False by (simp add: pq_purge_def)
qed

theorem pq_purge_keeps_half_witness:
  "let e = \<lparr>ev_priority = 7, ev_delay = 2, ev_callback = 3, ev_data = 4, ev_uid = 9, ev_repeat = 1\<rparr>
   in \<exists>q'. pq_purge (Some \<lparr>pq_events = Some [e, e, e], pq_len = 2, pq_size = 3, pq_counter = 2\<rparr>) = Some (Some q')
     \<and> pq_len q' = 1"
proof -
  let ?e = "\<lparr>ev_priority = 7, ev_delay = 2, ev_callback = 3, ev_data = 4, ev_uid = 9, ev_repeat = 1\<rparr>"
  show ?thesis
    using pq_purge_keeps_half [of "\<lparr>pq_events = Some [?e, ?e, ?e], pq_len = 2, pq_size = 3, pq_counter = 2\<rparr>"]
    by (simp add: Let_def pq_wf_def)
qed

text \<open>Runs of several pushes and pops, giving the priorities in the order they come out.\<close>

fun push_all :: "u64 list \<Rightarrow> priority_queue \<Rightarrow> priority_queue option" where
  "push_all [] q = Some q"
| "push_all (p # ps) q =
     (case pq_push True \<lparr>ev_priority = 0, ev_delay = 0, ev_callback = 0, ev_data = 0, ev_uid = 0, ev_repeat = 0\<rparr>
             (Some q) p 0 0 0 0 0 of
        Some (_, Some q') \<Rightarrow> push_all ps q' | _ \<Rightarrow> None)"

fun pop_all :: "nat \<Rightarrow> priority_queue \<Rightarrow> u64 list option" where
  "pop_all 0 q = Some []"
| "pop_all (Suc n) q =
     (case pq_pop True (Some q) of
        Some (Some e, Some q') \<Rightarrow> do { ps \<leftarrow> pop_all n q'; Some (ev_priority e # ps) } | _ \<Rightarrow> None)"


text \<open>
  After a failed \<^verbatim>\<open>realloc\<close> the array is gone but the size is doubled: the queued events are lost
  and the next push dereferences the null array.
\<close>

lemma pq_push_after_failed_realloc:
  assumes "pq_size q \<noteq> 0" "pq_len q + 1 = pq_size q"
  shows "\<exists>q'. pq_push False junk (Some q) p d cb dat r uid = Some (- 1, Some q')
    \<and> pq_push ok junk (Some q') p d cb dat r uid = None"
  using assms by (auto simp: pq_push_def Let_def pq_realloc_def)

end
