(* ===== verification/Clock.thy ===== *)
theory Clock
  imports Pq
begin

text \<open>
  The timer driver of \<^verbatim>\<open>libclock/src/clock.c\<close> over the i.MX6 general purpose timer. Registers that
  only software changes are fields of the state. The counter and the status register change by
  themselves: what the \<open>n\<close>-th access to them reads is given by the environment, which for the status
  register also sees the writes made so far (write-one-to-clear acknowledgement). The environment
  further supplies the callbacks, the outcomes of allocation, and the answers of the kernel and of
  the capability space.
\<close>

section \<open>Definitions\<close>

record clock_state =
  gpt_virtual :: u32
  control_register :: u32
  prescale_register :: u32
  interrupt_register :: u32
  compare_register :: u32
  upper_timestamp_register :: u32
  status_writes :: "(nat \<times> u32) list"
  accesses :: nat
  irq_handler :: u32
  timer_pq :: "priority_queue option"
  timer_started :: bool
  mallocs :: nat

record clock_env =
  env_counter :: "nat \<Rightarrow> u32"
  env_status :: "nat \<Rightarrow> (nat \<times> u32) list \<Rightarrow> u32"
  env_callback :: "u32 \<Rightarrow> u32 \<Rightarrow> u32 \<Rightarrow> clock_state \<Rightarrow> clock_state option"
  env_malloc :: "nat \<Rightarrow> bool"
  env_junk :: event
  env_irq_cap :: u32
  env_set_endpoint :: int
  env_ack :: "nat \<Rightarrow> int"
  env_irq_clear :: int
  env_delete_cap :: int

definition FREE_RUN_MASK :: u32 where "FREE_RUN_MASK = push_bit 9 1"
definition PERIPHERAL_CLOCK_MASK :: u32 where "PERIPHERAL_CLOCK_MASK = push_bit 6 1"
definition ENMOD_MODE_MASK :: u32 where "ENMOD_MODE_MASK = push_bit 1 1"
definition ROLL_OVER_MASK :: u32 where "ROLL_OVER_MASK = push_bit 5 1"
definition OUTPUT_COMPARE_MASK :: u32 where "OUTPUT_COMPARE_MASK = push_bit 0 1"
definition GPT_PERIPHERAL_CLOCK_FREQUENCY :: u32 where "GPT_PERIPHERAL_CLOCK_FREQUENCY = 66"

definition CLOCK_R_OK :: int where "CLOCK_R_OK = 0"
definition CLOCK_R_UINT :: int where "CLOCK_R_UINT = - 1"
definition CLOCK_R_FAIL :: int where "CLOCK_R_FAIL = - 3"

definition MILLISECONDS :: "u64 \<Rightarrow> u64" where
  "MILLISECONDS t = t * 1000"

definition UPPER32BITS :: "u64 \<Rightarrow> u32" where
  "UPPER32BITS n = ucast (drop_bit 32 (n AND 0xFFFFFFFF00000000))"

definition LOWER32BITS :: "u64 \<Rightarrow> u32" where
  "LOWER32BITS n = ucast (n AND 0xFFFFFFFF)"

definition join32to64 :: "u32 \<Rightarrow> u32 \<Rightarrow> u64" where
  "join32to64 upper lower = push_bit 32 (ucast upper) OR ucast lower"

text \<open>Accesses to the two registers the hardware changes.\<close>

definition read_status :: "clock_env \<Rightarrow> clock_state \<Rightarrow> u32 \<times> clock_state" where
  "read_status env st = (env_status env (accesses st) (status_writes st), st\<lparr>accesses := accesses st + 1\<rparr>)"

definition write_status :: "u32 \<Rightarrow> clock_state \<Rightarrow> clock_state" where
  "write_status v st = st\<lparr>status_writes := (accesses st, v) # status_writes st, accesses := accesses st + 1\<rparr>"

definition read_counter :: "clock_env \<Rightarrow> clock_state \<Rightarrow> u32 \<times> clock_state" where
  "read_counter env st = (env_counter env (accesses st), st\<lparr>accesses := accesses st + 1\<rparr>)"

definition init_timer :: "clock_env \<Rightarrow> u32 \<Rightarrow> clock_state \<Rightarrow> clock_state" where
  "init_timer env vaddr st = st\<lparr>gpt_virtual := vaddr, timer_pq := init_pq (env_malloc env (mallocs st)),
                               mallocs := mallocs st + 1\<rparr>"

definition enable_irq :: "clock_env \<Rightarrow> clock_state \<Rightarrow> int \<times> clock_state" where
  "enable_irq env st =
     (let st = st\<lparr>irq_handler := env_irq_cap env\<rparr> in
      if irq_handler st = 0 then (1, st)
      else if env_set_endpoint env \<noteq> 0 then (1, st)
      else let ack = env_ack env (accesses st); st = st\<lparr>accesses := accesses st + 1\<rparr> in
      if ack \<noteq> 0 then (1, st) else (0, st))"

definition stop_timer :: "clock_env \<Rightarrow> clock_state \<Rightarrow> (int \<times> clock_state) option" where
  "stop_timer env st =
     (let st = st\<lparr>control_register := control_register st AND NOT 1\<rparr> in
      if env_irq_clear env \<noteq> 0 then Some (CLOCK_R_FAIL, st)
      else if env_delete_cap env \<noteq> 0 then Some (CLOCK_R_FAIL, st)
      else do {
        pq \<leftarrow> pq_purge (timer_pq st);
        Some (CLOCK_R_OK, st\<lparr>timer_pq := pq, timer_started := False\<rparr>) })"

definition start_timer :: "clock_env \<Rightarrow> clock_state \<Rightarrow> (int \<times> clock_state) option" where
  "start_timer env st = do {
     st \<leftarrow> (if timer_started st then do { (_, st) \<leftarrow> stop_timer env st; Some st } else Some st);
     let (r, st) = enable_irq env st;
     if r \<noteq> 0 then Some (CLOCK_R_FAIL, st)
     else
       let st = st\<lparr>control_register := 0, prescale_register := 0\<rparr>;
           st = write_status 0 st;
           st = st\<lparr>interrupt_register := 0, compare_register := 0xFFFFFFFF, upper_timestamp_register := 0\<rparr>;
           st = st\<lparr>control_register := control_register st OR FREE_RUN_MASK\<rparr>;
           st = st\<lparr>control_register := control_register st OR PERIPHERAL_CLOCK_MASK\<rparr>;
           st = st\<lparr>control_register := control_register st OR ENMOD_MODE_MASK\<rparr>;
           st = st\<lparr>interrupt_register := interrupt_register st OR ROLL_OVER_MASK\<rparr>;
           st = st\<lparr>interrupt_register := interrupt_register st OR OUTPUT_COMPARE_MASK\<rparr>;
           st = st\<lparr>prescale_register := GPT_PERIPHERAL_CLOCK_FREQUENCY\<rparr>;
           st = st\<lparr>control_register := control_register st OR 1\<rparr>
       in Some (CLOCK_R_OK, st\<lparr>timer_started := True\<rparr>) }"

definition check_for_rollover :: "clock_env \<Rightarrow> clock_state \<Rightarrow> clock_state" where
  "check_for_rollover env st =
     (let (sr, st) = read_status env st in
      if sr AND ROLL_OVER_MASK \<noteq> 0 then
        let st = st\<lparr>upper_timestamp_register := upper_timestamp_register st + 1\<rparr>;
            (sr, st) = read_status env st
        in write_status (sr OR ROLL_OVER_MASK) st
      else st)"

text \<open>\<^verbatim>\<open>timestamp_t\<close> is signed: the comparison of the two readings is that of signed words.\<close>

definition time_stamp :: "clock_env \<Rightarrow> clock_state \<Rightarrow> u64 \<times> clock_state" where
  "time_stamp env st =
     (if \<not> timer_started st then (word_of_int CLOCK_R_UINT, st)
      else
        let (lower, st) = read_counter env st;
            first = join32to64 (upper_timestamp_register st) lower;
            (lower, st) = read_counter env st;
            second = join32to64 (upper_timestamp_register st) lower
        in if word_sless second first then
             let st = check_for_rollover env st; (lower, st) = read_counter env st
             in (join32to64 (upper_timestamp_register st) lower, st)
           else if UPPER32BITS first \<noteq> UPPER32BITS second then
             let st = check_for_rollover env st; (lower, st) = read_counter env st
             in (join32to64 (upper_timestamp_register st) lower, st)
           else (second, st))"

definition add_event_to_pq ::
  "clock_env \<Rightarrow> u64 \<Rightarrow> u32 \<Rightarrow> u32 \<Rightarrow> u8 \<Rightarrow> u32 \<Rightarrow> clock_state \<Rightarrow> (u32 \<times> clock_state) option" where
  "add_event_to_pq env delay callback data repeat uid st =
     (if \<not> timer_started st then Some (0, st)
      else if delay < MILLISECONDS 1 then
        let (i, pq) = pq_get_next_id (timer_pq st); st = st\<lparr>timer_pq := pq\<rparr> in
        if i = 0 then Some (0, st)
        else do {
          st \<leftarrow> (if callback \<noteq> 0 then env_callback env callback i data st else Some st);
          Some (i, st) }
      else
        let st = (if pq_is_empty (timer_pq st)
                  then st\<lparr>interrupt_register := interrupt_register st OR OUTPUT_COMPARE_MASK\<rparr> else st);
            (now, st) = time_stamp env st
        in do {
          (i, pq) \<leftarrow> pq_push (env_malloc env (mallocs st)) (env_junk env) (timer_pq st) (now + delay) delay
                       callback data repeat uid;
          let st = st\<lparr>timer_pq := pq, mallocs := mallocs st + 1\<rparr>;
          if i = 0 then Some (0, st)
          else do {
            t \<leftarrow> pq_time_peek (timer_pq st);
            Some (i, st\<lparr>compare_register := ucast t\<rparr>) } })"

definition register_timer :: "clock_env \<Rightarrow> u64 \<Rightarrow> u32 \<Rightarrow> u32 \<Rightarrow> clock_state \<Rightarrow> (u32 \<times> clock_state) option" where
  "register_timer env delay callback data st = add_event_to_pq env delay callback data 0 0 st"

definition register_repeating_timer ::
  "clock_env \<Rightarrow> u64 \<Rightarrow> u32 \<Rightarrow> u32 \<Rightarrow> clock_state \<Rightarrow> (u32 \<times> clock_state) option" where
  "register_repeating_timer env delay callback data st = add_event_to_pq env delay callback data 1 0 st"

definition remove_timer :: "u32 \<Rightarrow> clock_state \<Rightarrow> (int \<times> clock_state) option" where
  "remove_timer i st =
     (if \<not> timer_started st then Some (CLOCK_R_UINT, st)
      else do {
        (r, pq) \<leftarrow> pq_remove (timer_pq st) i;
        let st = st\<lparr>timer_pq := pq\<rparr>;
        if r = 0 then Some (CLOCK_R_FAIL, st)
        else do {
          t \<leftarrow> pq_time_peek (timer_pq st);
          Some (CLOCK_R_OK, st\<lparr>compare_register := ucast t\<rparr>) } })"

text \<open>
  One round of the loop in \<^verbatim>\<open>timer_interrupt\<close>: \<open>Inl\<close> is the early return when no event can be
  popped, \<open>Inr\<close> says whether the loop condition holds.
\<close>

definition interrupt_round :: "clock_env \<Rightarrow> clock_state \<Rightarrow> ((int + bool) \<times> clock_state) option" where
  "interrupt_round env st = do {
     (ev, pq) \<leftarrow> pq_pop (env_malloc env (mallocs st)) (timer_pq st);
     let st = st\<lparr>timer_pq := pq, mallocs := mallocs st + 1\<rparr>;
     case ev of
       None \<Rightarrow> Some (Inl CLOCK_R_FAIL, st)
     | Some e \<Rightarrow> do {
         st \<leftarrow> (if ev_callback e \<noteq> 0 then env_callback env (ev_callback e) (ev_uid e) (ev_data e) st else Some st);
         st \<leftarrow> (if ev_repeat e \<noteq> 0
                then do { (_, st) \<leftarrow> add_event_to_pq env (ev_delay e) (ev_callback e) (ev_data e) 1 (ev_uid e) st; Some st }
                else Some st);
         let st = check_for_rollover env st;
         if pq_is_empty (timer_pq st) then Some (Inr False, st)
         else do {
           t \<leftarrow> pq_time_peek (timer_pq st);
           let (now, st) = time_stamp env st;
           Some (Inr (t \<le> now + MILLISECONDS 1), st) } } }"

partial_function (option) interrupt_loop :: "clock_env \<Rightarrow> clock_state \<Rightarrow> (int option \<times> clock_state) option" where
  [code]: "interrupt_loop env st = do {
     (r, st) \<leftarrow> interrupt_round env st;
     case r of
       Inl code \<Rightarrow> Some (Some code, st)
     | Inr again \<Rightarrow> if again then interrupt_loop env st else Some (None, st) }"

definition timer_interrupt :: "clock_env \<Rightarrow> clock_state \<Rightarrow> (int \<times> clock_state) option" where
  "timer_interrupt env st =
     (if \<not> timer_started st then Some (CLOCK_R_UINT, st)
      else
        let st = check_for_rollover env st; (sr, st) = read_status env st in
        do {
          (ret, st) \<leftarrow> (if sr AND OUTPUT_COMPARE_MASK \<noteq> 0 then do {
             (ret, st) \<leftarrow> interrupt_loop env st;
             case ret of
               Some code \<Rightarrow> Some (Some code, st)
             | None \<Rightarrow> do {
                 st \<leftarrow> (if pq_is_empty (timer_pq st)
                        then Some (st\<lparr>interrupt_register := interrupt_register st AND NOT OUTPUT_COMPARE_MASK\<rparr>)
                        else do { t \<leftarrow> pq_time_peek (timer_pq st); Some (st\<lparr>compare_register := ucast t\<rparr>) });
                 let (sr, st) = read_status env st;
                 Some (None, write_status (sr OR OUTPUT_COMPARE_MASK) st) } }
           else Some (None, st));
          case ret of
            Some code \<Rightarrow> Some (code, st)
          | None \<Rightarrow>
              let ack = env_ack env (accesses st); st = st\<lparr>accesses := accesses st + 1\<rparr> in
              if ack \<noteq> 0 then Some (CLOCK_R_FAIL, st) else Some (CLOCK_R_OK, st) })"

section \<open>Joining and splitting words\<close>

lemma unat_join32to64: "unat (join32to64 u l) = unat u * 2 ^ 32 + unat l"
proof -
  have "unat (join32to64 u l) = push_bit 32 (unat u) OR unat l"
    unfolding join32to64_def by (rule bit_eqI) (auto simp: bit_simps dest: bit_imp_le_length)
  also have "\<dots> = push_bit 32 (unat u) + unat l"
    by (rule disjunctive_add [symmetric]) (auto simp: bit_simps dest: bit_imp_le_length)
  finally show ?thesis by (simp add: push_bit_eq_mult)
qed

lemma UPPER32BITS_join [simp]: "UPPER32BITS (join32to64 u l) = u"
proof -
  have m: "(0xFFFFFFFF00000000 :: u64) = push_bit 32 (mask 32)" by (simp add: mask_eq_exp_minus_1)
  show ?thesis unfolding UPPER32BITS_def join32to64_def m
    by (rule bit_word_eqI) (auto simp: bit_simps dest: bit_imp_le_length)
qed

lemma LOWER32BITS_join [simp]: "LOWER32BITS (join32to64 u l) = l"
proof -
  have m: "(0xFFFFFFFF :: u64) = mask 32" by (simp add: mask_eq_exp_minus_1)
  show ?thesis unfolding LOWER32BITS_def join32to64_def m
    by (rule bit_word_eqI) (auto simp: bit_simps dest: bit_imp_le_length)
qed

lemma sless_small:
  fixes a b :: u64
  assumes "unat a < 2 ^ 63" "unat b < 2 ^ 63"
  shows "word_sless a b \<longleftrightarrow> unat a < unat b"
proof -
  have "sint x = int (unat x)" if "unat x < 2 ^ 63" for x :: u64
  proof -
    have ux: "uint x = int (unat x)" by simp
    have "int (unat x) < int (2 ^ 63)" using that by (simp only: of_nat_less_iff)
    then have "uint x < 2 ^ 63" unfolding ux by (simp only: of_nat_power of_nat_numeral)
    moreover have "- (2 ^ 63) \<le> uint x" by (rule order.trans [OF _ uint_nonnegative]) simp
    ultimately have "signed_take_bit 63 (uint x) = uint x" by (intro signed_take_bit_int_eq_self)
    then show ?thesis unfolding sint_uint ux by simp
  qed
  then show ?thesis unfolding word_sless_alt using assms by (simp only: of_nat_less_iff)
qed

section \<open>Time stamps\<close>

text \<open>
  The documented behaviour of the timer, for a clock showing \<open>T n\<close> microseconds since the start
  at access \<open>n\<close>: the counter shows the low 32 bits, and the roll-over bit of the status register
  is set when the counter has wrapped since the last write that acknowledged it. \<open>acked\<close> is the
  number of wraps up to that acknowledgement.
\<close>

definition acked :: "(nat \<Rightarrow> nat) \<Rightarrow> (nat \<times> u32) list \<Rightarrow> nat" where
  "acked T ws = (case find (\<lambda>(k, v). v AND ROLL_OVER_MASK \<noteq> 0) ws of None \<Rightarrow> 0 | Some (k, _) \<Rightarrow> T k div 2 ^ 32)"

definition gpt_behaves :: "clock_env \<Rightarrow> (nat \<Rightarrow> nat) \<Rightarrow> bool" where
  "gpt_behaves env T \<longleftrightarrow> mono T \<and> (\<forall>n. env_counter env n = of_nat (T n))
     \<and> (\<forall>n ws. env_status env n ws AND ROLL_OVER_MASK \<noteq> 0 \<longleftrightarrow> acked T ws < T n div 2 ^ 32)"

text \<open>The driver has accounted for every wrap it acknowledged.\<close>

definition clock_sync :: "(nat \<Rightarrow> nat) \<Rightarrow> clock_state \<Rightarrow> bool" where
  "clock_sync T st \<longleftrightarrow> unat (upper_timestamp_register st) = acked T (status_writes st)"

lemma unat_of_nat_32: "unat (of_nat n :: u32) = n mod 2 ^ 32"
  by (simp add: unat_of_nat)

lemma join_time: "unat u = t div 2 ^ 32 \<Longrightarrow> unat (join32to64 u (of_nat t)) = t"
  unfolding unat_join32to64 unat_of_nat_32 by (metis div_mult_mod_eq)

text \<open>Two times less than a period apart: the later one wrapped at most once.\<close>

lemma wrap_once:
  fixes a b N :: nat
  assumes "a \<le> b" "b < a + N" "b div N \<noteq> a div N"
  shows "b div N = a div N + 1" "a div N * N + b mod N < a"
proof -
  have "0 < N" using assms(1,2) by simp
  then have "(a + N) div N = a div N + 1" by (simp add: div_add_self2)
  moreover have "b div N \<le> (a + N) div N" "a div N \<le> b div N"
    using assms(1,2) by (simp_all add: div_le_mono)
  ultimately show e: "b div N = a div N + 1" using assms(3) by linarith
  have "b = (a div N + 1) * N + b mod N" using div_mult_mod_eq [of b N] unfolding e by simp
  then have "b = a div N * N + N + b mod N" by (simp only: add_mult_distrib mult_1)
  then show "a div N * N + b mod N < a" using assms(2) by linarith
qed

lemma mask_or_keeps: "(v OR ROLL_OVER_MASK) AND ROLL_OVER_MASK \<noteq> 0"
proof
  assume "(v OR ROLL_OVER_MASK) AND ROLL_OVER_MASK = 0"
  then have "bit ((v OR ROLL_OVER_MASK) AND ROLL_OVER_MASK) 5 = bit (0 :: u32) 5" by simp
  then show False by (simp add: bit_simps ROLL_OVER_MASK_def)
qed

text \<open>
  A pending roll-over is counted once and acknowledged; without one nothing changes. The time is
  assumed to wrap at most once before the acknowledgement.
\<close>

lemma check_for_rollover_sync:
  assumes g: "gpt_behaves env T" and s: "clock_sync T st"
    and u: "unat (upper_timestamp_register st) + 1 < 2 ^ 32"
    and w: "T (accesses st + 2) div 2 ^ 32 \<le> unat (upper_timestamp_register st) + 1"
  shows "let st' = check_for_rollover env st; p = acked T (status_writes st) < T (accesses st) div 2 ^ 32 in
    clock_sync T st' \<and> accesses st' = (if p then accesses st + 3 else accesses st + 1)
    \<and> unat (upper_timestamp_register st') = unat (upper_timestamp_register st) + (if p then 1 else 0)
    \<and> timer_pq st' = timer_pq st \<and> timer_started st' = timer_started st"
proof (cases "acked T (status_writes st) < T (accesses st) div 2 ^ 32")
  case True
  let ?n = "accesses st" and ?u = "upper_timestamp_register st"
  have "T ?n \<le> T (?n + 2)" using g by (simp add: gpt_behaves_def mono_def)
  then have "T ?n div 2 ^ 32 \<le> T (?n + 2) div 2 ^ 32" by (rule div_le_mono)
  then have d: "T (?n + 2) div 2 ^ 32 = unat ?u + 1" using True s w by (simp add: clock_sync_def)
  have uu: "unat (?u + 1) = unat ?u + 1" using u by (simp add: unat_word_ariths)
  have "env_status env ?n (status_writes st) AND ROLL_OVER_MASK \<noteq> 0" using g True by (simp add: gpt_behaves_def)
  then show ?thesis using True d uu mask_or_keeps
    by (simp add: check_for_rollover_def read_status_def write_status_def clock_sync_def acked_def)
next
  case False
  then have "env_status env (accesses st) (status_writes st) AND ROLL_OVER_MASK = 0"
    using g unfolding gpt_behaves_def by blast
  then show ?thesis using False s by (simp add: check_for_rollover_def read_status_def clock_sync_def)
qed

text \<open>Once the counter has wrapped, all later readings in a window of one period agree in the upper half.\<close>

lemma wrap_window:
  fixes T :: "nat \<Rightarrow> nat"
  assumes "mono T" "T (n + 1) div 2 ^ 32 \<noteq> T n div 2 ^ 32" "T (n + 5) < T n + 2 ^ 32" "1 \<le> j" "j \<le> 5"
  shows "T (n + j) div 2 ^ 32 = T n div (2 ^ 32 :: nat) + 1"
proof -
  have m: "T i \<le> T k" if "i \<le> k" for i k using assms(1) that by (rule monoD)
  have j: "T n \<le> T (n + j)" "T (n + 1) \<le> T (n + j)" "T (n + j) \<le> T (n + 5)" "T n \<le> T (n + 1)" "T (n + 1) \<le> T (n + 5)"
    using assms(4,5) by (auto intro: m)
  have "T (n + 1) < T n + 2 ^ 32" using j(5) assms(3) by linarith
  from wrap_once(1) [OF j(4) this assms(2)] div_le_mono [OF j(2), of "2 ^ 32"]
  have "T (n + j) div 2 ^ 32 \<noteq> T n div 2 ^ 32" by linarith
  moreover have "T (n + j) < T n + 2 ^ 32" using j(3) assms(3) by linarith
  ultimately show ?thesis using wrap_once(1) [OF j(1)] by blast
qed

text \<open>
  C9: When no roll-over is waiting to be acknowledged at entry, the call takes less than one
  counter period and the signed 64-bit range is not exhausted, \<^verbatim>\<open>time_stamp\<close> returns the exact time
  at one of its accesses to the timer, whenever the counter wraps in between, and leaves the
  driver's roll-over count in step with the hardware.
\<close>

theorem time_stamp_correct:
  assumes g: "gpt_behaves env T" and s: "clock_sync T st" and on: "timer_started st"
    and now: "T (accesses st) div 2 ^ 32 = acked T (status_writes st)"
    and short: "T (accesses st + 5) < T (accesses st) + 2 ^ 32" and range: "T (accesses st + 5) + 2 ^ 32 < 2 ^ 63"
  shows "\<exists>k. accesses st < k \<and> k \<le> accesses st + 5 \<and> unat (fst (time_stamp env st)) = T k
           \<and> clock_sync T (snd (time_stamp env st))"
proof -
  let ?n = "accesses st" and ?u = "upper_timestamp_register st"
  have m: "T i \<le> T j" if "i \<le> j" for i j using g that by (simp add: gpt_behaves_def mono_def)
  have u: "unat ?u = T ?n div 2 ^ 32" using s now by (simp add: clock_sync_def)
  define a where "a = join32to64 ?u (of_nat (T ?n))"
  define b where "b = join32to64 ?u (of_nat (T (?n + 1)))"
  define st2 where "st2 = st\<lparr>accesses := ?n + 2\<rparr>"
  have ts: "time_stamp env st = (if word_sless b a then
      let st = check_for_rollover env st2; (lower, st) = read_counter env st
      in (join32to64 (upper_timestamp_register st) lower, st) else (b, st2))"
    using g on by (simp add: time_stamp_def read_counter_def gpt_behaves_def a_def b_def st2_def)
  have ua: "unat a = T ?n" unfolding a_def by (rule join_time) (rule u)
  have ub: "unat b = unat ?u * 2 ^ 32 + T (?n + 1) mod 2 ^ 32"
    unfolding b_def unat_join32to64 unat_of_nat_32 ..
  have le: "T ?n \<le> T (?n + 1)" "T (?n + 1) \<le> T (?n + 2)" "T (?n + 2) \<le> T (?n + 4)" "T (?n + 4) \<le> T (?n + 5)"
    by (simp_all add: m)
  have sl: "word_sless b a \<longleftrightarrow> unat b < T ?n"
    using sless_small [of b a] ua ub u le range by simp
  show ?thesis
  proof (cases "T (?n + 1) div 2 ^ 32 = T ?n div 2 ^ 32")
    case True
    then have "unat b = T (?n + 1)" unfolding b_def by (intro join_time) (simp add: u)
    then show ?thesis using ts sl le s
      by (intro exI [of _ "?n + 1"]) (simp add: st2_def clock_sync_def)
  next
    case False
    have s1: "T (?n + 1) < T ?n + 2 ^ 32" using le short by linarith
    note w1 = wrap_once [OF le(1) s1 False]
    note wr = wrap_window [OF _ False short, unfolded u [symmetric]]
    have w: "unat b < T ?n" "T (?n + 5) div 2 ^ 32 = unat ?u + 1" "T (?n + 4) div 2 ^ 32 = unat ?u + 1"
      "T (?n + 2) div 2 ^ 32 = unat ?u + 1"
      using wr [of 5] wr [of 4] wr [of 2] g w1(2) ub u by (simp_all add: gpt_behaves_def)
    have w5: "unat ?u + 1 < 2 ^ 32" using u le short range by simp
    have st2: "clock_sync T st2" "accesses st2 = ?n + 2" "status_writes st2 = status_writes st"
      "upper_timestamp_register st2 = ?u" using s by (simp_all add: st2_def clock_sync_def)
    have "acked T (status_writes st2) < T (accesses st2) div 2 ^ 32" using w(4) st2(2,3) u now by simp
    moreover have "accesses st2 + 2 = ?n + 4" using st2(2) by simp
    then have "T (accesses st2 + 2) div 2 ^ 32 \<le> unat (upper_timestamp_register st2) + 1"
      unfolding st2(4) using w(3) by (simp only: order.refl)
    ultimately have r: "clock_sync T (check_for_rollover env st2)" "accesses (check_for_rollover env st2) = ?n + 5"
      "unat (upper_timestamp_register (check_for_rollover env st2)) = unat ?u + 1"
      using check_for_rollover_sync [OF g st2(1)] w w5 st2 by (simp_all add: Let_def)
    have "unat (join32to64 (upper_timestamp_register (check_for_rollover env st2)) (of_nat (T (?n + 5)))) = T (?n + 5)"
      by (rule join_time) (simp only: r(3) w(2))
    then show ?thesis using ts sl w(1) r(1,2) g
      by (intro exI [of _ "?n + 5"]) (simp add: read_counter_def gpt_behaves_def clock_sync_def Let_def)
  qed
qed

text \<open>A timer that advances one microsecond per access and wraps at the second one.\<close>

definition example_time :: "nat \<Rightarrow> nat" where
  "example_time n = 4294967295 + n"

definition example_env :: clock_env where
  "example_env = \<lparr>env_counter = \<lambda>n. of_nat (example_time n),
     env_status = \<lambda>n ws. if acked example_time ws < example_time n div 2 ^ 32 then ROLL_OVER_MASK else 0,
     env_callback = \<lambda>_ _ _ st. Some st, env_malloc = \<lambda>_. True,
     env_junk = \<lparr>ev_priority = 0, ev_delay = 0, ev_callback = 0, ev_data = 0, ev_uid = 0, ev_repeat = 0\<rparr>,
     env_irq_cap = 1, env_set_endpoint = 0, env_ack = \<lambda>_. 0, env_irq_clear = 0, env_delete_cap = 0\<rparr>"

definition example_clock :: "nat \<Rightarrow> clock_state" where
  "example_clock n = \<lparr>gpt_virtual = 0, control_register = 0x243, prescale_register = 66, interrupt_register = 0x21,
     compare_register = - 1, upper_timestamp_register = 0, status_writes = [], accesses = n, irq_handler = 1,
     timer_pq = Some \<lparr>pq_events = None, pq_len = 0, pq_size = 0, pq_counter = 1\<rparr>, timer_started = True, mallocs = 0\<rparr>"

lemma example_behaves: "gpt_behaves example_env example_time"
  by (simp add: gpt_behaves_def example_env_def mono_def example_time_def ROLL_OVER_MASK_def)

theorem time_stamp_correct_witness:
  "\<exists>k>0. unat (fst (time_stamp example_env (example_clock 0))) = example_time k"
  using time_stamp_correct [OF example_behaves, of "example_clock 0"]
  by (auto simp: example_clock_def clock_sync_def acked_def example_time_def)

text \<open>
  C20: If the counter has already wrapped when \<^verbatim>\<open>time_stamp\<close> is called and the roll-over has not yet
  been acknowledged, both readings use the old upper half: neither check fires and the result is
  one whole counter period (about 71 minutes) in the past.
\<close>

theorem time_stamp_pending_rollover:
  assumes g: "gpt_behaves env T" and s: "clock_sync T st" and on: "timer_started st"
    and p: "T (accesses st) div 2 ^ 32 = acked T (status_writes st) + 1"
    and q: "T (accesses st + 1) div 2 ^ 32 = acked T (status_writes st) + 1" and range: "T (accesses st + 1) < 2 ^ 63"
  shows "unat (fst (time_stamp env st)) + 2 ^ 32 = T (accesses st + 1)"
proof -
  let ?n = "accesses st" and ?u = "upper_timestamp_register st"
  define a where "a = join32to64 ?u (of_nat (T ?n))"
  define b where "b = join32to64 ?u (of_nat (T (?n + 1)))"
  have u: "unat ?u = acked T (status_writes st)" using s by (simp add: clock_sync_def)
  have wrap: "unat (join32to64 ?u (of_nat t)) + 2 ^ 32 = t" if "t div 2 ^ 32 = unat ?u + 1" for t
  proof -
    have "t = (unat ?u + 1) * 2 ^ 32 + t mod 2 ^ 32" unfolding that [symmetric] by (rule div_mult_mod_eq [symmetric])
    then show ?thesis unfolding unat_join32to64 unat_of_nat_32 by (simp only: add_mult_distrib mult_1)
  qed
  have ab: "unat a + 2 ^ 32 = T ?n" "unat b + 2 ^ 32 = T (?n + 1)"
    using wrap p q u unfolding a_def b_def by simp_all
  moreover have "T ?n \<le> T (?n + 1)" using g by (simp add: gpt_behaves_def mono_def)
  ultimately have "\<not> word_sless b a" using sless_small [of b a] range by simp
  then have "fst (time_stamp env st) = b"
    using g on by (simp add: time_stamp_def read_counter_def gpt_behaves_def a_def b_def)
  then show ?thesis using ab(2) by simp
qed

theorem time_stamp_pending_rollover_witness:
  "unat (fst (time_stamp example_env (example_clock 1))) + 2 ^ 32 = example_time 2"
  using time_stamp_pending_rollover [OF example_behaves, of "example_clock 1"]
  by (simp add: example_clock_def clock_sync_def acked_def example_time_def)

section \<open>The interrupt handler returns\<close>

lemma check_for_rollover_pq [simp]:
  "timer_pq (check_for_rollover env st) = timer_pq st"
  "timer_started (check_for_rollover env st) = timer_started st"
  by (simp_all add: check_for_rollover_def read_status_def write_status_def)

lemma time_stamp_pq [simp]: "timer_pq (snd (time_stamp env st)) = timer_pq st"
  by (simp add: time_stamp_def read_counter_def Let_def)

text \<open>Callbacks that return and leave the event queue alone; a queue of single-shot events.\<close>

definition quiet_callbacks :: "clock_env \<Rightarrow> bool" where
  "quiet_callbacks env \<longleftrightarrow> (\<forall>cb i d st. \<exists>st'. env_callback env cb i d st = Some st' \<and> timer_pq st' = timer_pq st)"

definition single_shot :: "priority_queue \<Rightarrow> bool" where
  "single_shot q \<longleftrightarrow> (\<forall>e\<in>#pq_elems q. ev_repeat e = 0)"

lemma interrupt_round_ok:
  assumes q: "timer_pq st = Some q" "pq_wf q" "single_shot q" and cb: "quiet_callbacks env"
  shows "(\<exists>st'. interrupt_round env st = Some (Inl CLOCK_R_FAIL, st') \<and> timer_pq st' = Some q)
    \<or> (\<exists>b st' q' e. interrupt_round env st = Some (Inr b, st') \<and> timer_pq st' = Some q' \<and> pq_wf q'
         \<and> pq_elems q = add_mset e (pq_elems q') \<and> pq_len q' < pq_len q \<and> (pq_len q' = 0 \<longrightarrow> \<not> b))"
proof (cases "pq_len q = 0 \<or> \<not> env_malloc env (mallocs st)")
  case True
  then have "pq_pop (env_malloc env (mallocs st)) (Some q) = Some (None, Some q)" by (auto simp: pq_pop_def)
  then show ?thesis using q(1) by (simp add: interrupt_round_def)
next
  case False
  then obtain e q' where p: "pq_pop True (Some q) = Some (Some e, Some q')" "pq_wf q'" "pq_len q' = pq_len q - 1"
    "pq_elems q = add_mset e (pq_elems q')"
    using pq_pop_ok [OF q(2)] by auto
  let ?st = "st\<lparr>timer_pq := Some q', mallocs := mallocs st + 1\<rparr>"
  have "ev_repeat e = 0" using q(3) p(4) by (simp add: single_shot_def)
  obtain st1 where st1: "(if ev_callback e \<noteq> 0 then env_callback env (ev_callback e) (ev_uid e) (ev_data e) ?st
      else Some ?st) = Some st1" "timer_pq st1 = Some q'"
  proof (cases "ev_callback e = 0")
    case False
    then show thesis using that cb [unfolded quiet_callbacks_def, rule_format, of "ev_callback e" "ev_uid e" "ev_data e" ?st]
      by auto
  qed (use that in simp)
  obtain t where t: "pq_len q' \<noteq> 0 \<Longrightarrow> pq_time_peek (Some q') = Some t"
    using pq_peek_ok [OF p(2)] by auto
  have "interrupt_round env st = (let st = check_for_rollover env st1 in
      if pq_len q' = 0 then Some (Inr False, st)
      else let (now, st) = time_stamp env st in Some (Inr (t \<le> now + MILLISECONDS 1), st))"
    using False q(1) p(1) \<open>ev_repeat e = 0\<close> st1 t
    by (cases "ev_callback e = 0") (simp_all add: interrupt_round_def pq_is_empty_def Let_def)
  then show ?thesis using p st1(2) False by (auto simp: Let_def case_prod_beta)
qed

lemma interrupt_loop_ok:
  assumes "timer_pq st = Some q" "pq_wf q" "single_shot q" "quiet_callbacks env"
  shows "\<exists>r st' q'. interrupt_loop env st = Some (r, st') \<and> r \<in> {None, Some CLOCK_R_FAIL}
    \<and> timer_pq st' = Some q' \<and> pq_wf q' \<and> pq_elems q' \<subseteq># pq_elems q"
  using assms
proof (induction "pq_len q" arbitrary: q st rule: less_induct)
  case less
  from interrupt_round_ok [OF less.prems]
  consider st' where "interrupt_round env st = Some (Inl CLOCK_R_FAIL, st')" "timer_pq st' = Some q"
    | b st' q' e where "interrupt_round env st = Some (Inr b, st')" "timer_pq st' = Some q'" "pq_wf q'"
      "pq_elems q = add_mset e (pq_elems q')" "pq_len q' < pq_len q"
    by blast
  then show ?case
  proof cases
    case 1
    then show ?thesis using less.prems(2) by (subst interrupt_loop.simps) auto
  next
    case 2
    have "single_shot q'" using less.prems(3) 2(4) by (simp add: single_shot_def)
    from less.hyps [OF 2(5,2,3) this less.prems(4)] obtain r st2 q2 where
      "interrupt_loop env st' = Some (r, st2)" "r \<in> {None, Some CLOCK_R_FAIL}"
      "timer_pq st2 = Some q2" "pq_wf q2" "pq_elems q2 \<subseteq># pq_elems q'" by blast
    moreover have "pq_elems q' \<subseteq># pq_elems q" using 2(4) by simp
    ultimately show ?thesis using 2(1,2,3)
      by (subst interrupt_loop.simps) (cases b; fastforce intro: subset_mset.trans)
  qed
qed

text \<open>
  C10: With single-shot events whose callbacks return and leave the queue alone, the interrupt
  handler always returns, with one of its three result codes, whatever the timer shows in the
  meantime, whether or not memory can be allocated and however the kernel answers; the events
  still queued are some of those queued before, in a well-formed queue.
\<close>

theorem timer_interrupt_returns:
  assumes "timer_pq st = Some q" "pq_wf q" "single_shot q" "quiet_callbacks env"
  shows "\<exists>r st' q'. timer_interrupt env st = Some (r, st') \<and> r \<in> {CLOCK_R_OK, CLOCK_R_UINT, CLOCK_R_FAIL}
    \<and> timer_pq st' = Some q' \<and> pq_wf q' \<and> pq_elems q' \<subseteq># pq_elems q"
proof (cases "timer_started st")
  case False
  then show ?thesis using assms by (simp add: timer_interrupt_def)
next
  case True
  define st1 where "st1 = snd (read_status env (check_for_rollover env st))"
  define sr where "sr = fst (read_status env (check_for_rollover env st))"
  have q1: "timer_pq st1 = Some q" using assms(1) by (simp add: st1_def read_status_def)
  have ti: "timer_interrupt env st = (do {
      (ret, st) \<leftarrow> (if sr AND OUTPUT_COMPARE_MASK \<noteq> 0 then do {
             (ret, st) \<leftarrow> interrupt_loop env st1;
             case ret of
               Some code \<Rightarrow> Some (Some code, st)
             | None \<Rightarrow> do {
                 st \<leftarrow> (if pq_is_empty (timer_pq st)
                        then Some (st\<lparr>interrupt_register := interrupt_register st AND NOT OUTPUT_COMPARE_MASK\<rparr>)
                        else do { t \<leftarrow> pq_time_peek (timer_pq st); Some (st\<lparr>compare_register := ucast t\<rparr>) });
                 let (sr, st) = read_status env st;
                 Some (None, write_status (sr OR OUTPUT_COMPARE_MASK) st) } }
           else Some (None, st1));
      case ret of
        Some code \<Rightarrow> Some (code, st)
      | None \<Rightarrow>
          let ack = env_ack env (accesses st); st = st\<lparr>accesses := accesses st + 1\<rparr> in
          if ack \<noteq> 0 then Some (CLOCK_R_FAIL, st) else Some (CLOCK_R_OK, st) })"
    unfolding timer_interrupt_def st1_def sr_def using True by (simp add: Let_def case_prod_beta)
  obtain r st2 q2 where l: "interrupt_loop env st1 = Some (r, st2)" "r \<in> {None, Some CLOCK_R_FAIL}"
    "timer_pq st2 = Some q2" "pq_wf q2" "pq_elems q2 \<subseteq># pq_elems q"
    using interrupt_loop_ok [OF q1 assms(2,3,4)] by blast
  obtain t where t: "pq_time_peek (Some q2) = Some t" using pq_peek_ok [OF l(4)] by blast
  show ?thesis
  proof (cases "sr AND OUTPUT_COMPARE_MASK = 0")
    case True
    then show ?thesis using ti q1 assms(2) by (simp add: Let_def)
  next
    case False
    then show ?thesis using ti l t
      by (cases r; cases "pq_is_empty (Some q2)") (simp_all add: Let_def read_status_def write_status_def)
  qed
qed

theorem timer_interrupt_returns_witness:
  "\<exists>r st'. timer_interrupt example_env (example_clock 0) = Some (r, st')"
  using timer_interrupt_returns [of "example_clock 0" "\<lparr>pq_events = None, pq_len = 0, pq_size = 0, pq_counter = 1\<rparr>"
      example_env]
  by (auto simp: example_clock_def pq_wf_def single_shot_def pq_elems_def quiet_callbacks_def example_env_def)

text \<open>
  A failed push is reported by \<^verbatim>\<open>pq_push\<close> as \<open>-1\<close> but tested for as \<open>0\<close>: the caller of
  \<^verbatim>\<open>register_timer\<close> gets the identifier \<open>0xffffffff\<close> for an event that was never queued.
\<close>

lemma add_event_push_failure:
  assumes "timer_started st" "\<not> delay < MILLISECONDS 1" "timer_pq st = Some q" "pq_len q + 1 \<ge> pq_size q" "pq_len q = 0"
    and "\<forall>i. \<not> env_malloc env i"
  shows "\<exists>st' q'. register_timer env delay cb d st = Some (- 1, st') \<and> timer_pq st' = Some q' \<and> pq_len q' = 0"
  using assms
  by (simp add: register_timer_def add_event_to_pq_def Let_def case_prod_beta pq_push_def pq_realloc_def
      pq_time_peek_def pq_is_empty_def)

end
