(* ===== verification/UtilsMath.thy ===== *)
theory UtilsMath
  imports Sos_Prelude
begin

text \<open>
  The arithmetic and page macros of \<^verbatim>\<open>libutils\<close> (\<^verbatim>\<open>arith.h\<close>, \<^verbatim>\<open>page.h\<close>, \<^verbatim>\<open>math.h\<close>). Macros whose
  arguments have any type are given at the type of machine words, or for every linear order
  where they only compare.
\<close>

section \<open>Definitions\<close>

definition BIT :: "nat \<Rightarrow> u32" where
  "BIT n = push_bit n 1"

definition MASK :: "nat \<Rightarrow> u32 option" where
  "MASK n = do { c_assert (n \<le> 31); Some (BIT n - 1) }"

definition IS_ALIGNED :: "u32 \<Rightarrow> nat \<Rightarrow> bool option" where
  "IS_ALIGNED n b = do { m \<leftarrow> MASK b; Some (n AND m = 0) }"

text \<open>The builtin that counts leading zeros, and the logarithm built on it.\<close>

fun clz_from :: "nat \<Rightarrow> u32 \<Rightarrow> nat" where
  "clz_from 0 n = 32"
| "clz_from (Suc k) n = (if bit n k then 31 - k else clz_from k n)"

definition CLZ :: "u32 \<Rightarrow> nat" where
  "CLZ n = clz_from 32 n"

definition LOG_BASE_2 :: "u32 \<Rightarrow> nat" where
  "LOG_BASE_2 n = 32 - CLZ n - 1"

definition IS_POWER_OF_2_OR_ZERO :: "u32 \<Rightarrow> bool" where
  "IS_POWER_OF_2_OR_ZERO x \<longleftrightarrow> 0 = x AND (x - 1)"

definition IS_POWER_OF_2 :: "u32 \<Rightarrow> bool" where
  "IS_POWER_OF_2 x \<longleftrightarrow> x \<noteq> 0 \<and> IS_POWER_OF_2_OR_ZERO x"

definition ALIGN_UP :: "u32 \<Rightarrow> u32 \<Rightarrow> u32" where
  "ALIGN_UP x n = (x + n - 1) AND NOT (n - 1)"

definition ALIGN_DOWN :: "u32 \<Rightarrow> u32 \<Rightarrow> u32" where
  "ALIGN_DOWN x n = x AND NOT (n - 1)"

definition ROUND_DOWN :: "u32 \<Rightarrow> u32 \<Rightarrow> u32" where
  "ROUND_DOWN n b = n - n mod b"

definition ROUND_UP :: "u32 \<Rightarrow> u32 \<Rightarrow> u32" where
  "ROUND_UP n b = n + (if n mod b = 0 then 0 else b - n mod b)"

definition MIN2 :: "'a::linorder \<Rightarrow> 'a \<Rightarrow> 'a" where
  "MIN2 a b = (if a < b then a else b)"

definition MAX2 :: "'a::linorder \<Rightarrow> 'a \<Rightarrow> 'a" where
  "MAX2 a b = (if a > b then a else b)"

definition INRANGE :: "'a::linorder \<Rightarrow> 'a \<Rightarrow> 'a \<Rightarrow> 'a" where
  "INRANGE a x b = MIN2 (MAX2 x a) b"

definition ISINRANGE :: "'a::linorder \<Rightarrow> 'a \<Rightarrow> 'a \<Rightarrow> bool" where
  "ISINRANGE a x b \<longleftrightarrow> x = INRANGE a x b"

definition CLAMP :: "'a::linorder \<Rightarrow> 'a \<Rightarrow> 'a \<Rightarrow> 'a" where
  "CLAMP lo v hi = (if v > hi then hi else if v < lo then lo else v)"

definition PAGE_BITS_4K :: nat where
  "PAGE_BITS_4K = 12"

definition PAGE_SIZE_4K :: u32 where
  "PAGE_SIZE_4K = BIT PAGE_BITS_4K"

definition PAGE_MASK_4K :: u32 where
  "PAGE_MASK_4K = PAGE_SIZE_4K - 1"

definition PAGE_ALIGN_4K :: "u32 \<Rightarrow> u32" where
  "PAGE_ALIGN_4K addr = addr AND NOT PAGE_MASK_4K"

definition IS_ALIGNED_4K :: "u32 \<Rightarrow> bool option" where
  "IS_ALIGNED_4K addr = IS_ALIGNED addr PAGE_BITS_4K"

definition BYTES_TO_4K_PAGES :: "u32 \<Rightarrow> u32" where
  "BYTES_TO_4K_PAGES b = b div PAGE_SIZE_4K + (if b mod PAGE_SIZE_4K > 0 then 1 else 0)"

definition SAME_PAGE_4K :: "u32 \<Rightarrow> u32 \<Rightarrow> bool" where
  "SAME_PAGE_4K a b \<longleftrightarrow> a AND NOT PAGE_MASK_4K = b AND NOT PAGE_MASK_4K"

lemma unat_half_less: "a \<noteq> 0 \<Longrightarrow> unat (drop_bit (Suc 0) (a :: u64)) < unat a"
proof -
  assume "a \<noteq> 0"
  then have "0 < unat a" by (simp add: unat_gt_0)
  moreover have "unat (drop_bit (Suc 0) a) = unat a div 2"
    by (simp add: drop_bit_eq_div unat_div)
  ultimately show ?thesis by simp
qed

text \<open>The loop of \<^verbatim>\<open>muldivu64\<close>: final quotient and remainder, then those of the current power of two.\<close>

function muldiv_loop :: "u64 \<Rightarrow> u64 \<Rightarrow> u64 \<Rightarrow> u64 \<Rightarrow> u64 \<Rightarrow> u64 \<Rightarrow> u64" where
  "muldiv_loop a c quot rmd cq cr =
     (if a \<noteq> 0 then
        let (quot, rmd) =
              (if a AND 1 \<noteq> 0 then
                 let quot = quot + cq; rmd = rmd + cr in
                 if rmd \<ge> c then (quot + 1, rmd - c) else (quot, rmd)
               else (quot, rmd));
            a = drop_bit 1 a; cq = push_bit 1 cq; cr = push_bit 1 cr;
            (cq, cr) = (if cr \<ge> c then (cq + 1, cr - c) else (cq, cr))
        in muldiv_loop a c quot rmd cq cr
      else quot)"
  by pat_completeness auto
termination
  by (relation "measure (\<lambda>(a, _). unat a)") (auto simp: unat_half_less)

declare muldiv_loop.simps [simp del]

text \<open>Division by zero is undefined.\<close>

definition muldivu64 :: "u64 \<Rightarrow> u64 \<Rightarrow> u64 \<Rightarrow> u64 option" where
  "muldivu64 a b c = (if c = 0 then None else Some (muldiv_loop a c 0 0 (b div c) (b mod c)))"

definition nearest_power_of_two :: "u32 \<Rightarrow> u32" where
  "nearest_power_of_two v =
     (let v = v - 1;
          v = v OR drop_bit 1 v;
          v = v OR drop_bit 2 v;
          v = v OR drop_bit 4 v;
          v = v OR drop_bit 8 v;
          v = v OR drop_bit 16 v
      in v + 1)"

section \<open>Comparisons and alignment\<close>

lemma MIN2_min [simp]: "MIN2 a b = min a b"
  by (auto simp: MIN2_def min_def)

lemma MAX2_max [simp]: "MAX2 a b = max a b"
  by (auto simp: MAX2_def max_def)

text \<open>The range test includes its upper bound; an empty range contains exactly its upper bound.\<close>

lemma ISINRANGE_iff: "ISINRANGE a x b \<longleftrightarrow> (if a \<le> b then a \<le> x \<and> x \<le> b else x = b)"
  by (auto simp: ISINRANGE_def INRANGE_def min_def max_def)

lemma PAGE_SIZE_4K_eq: "PAGE_SIZE_4K = 4096"
  by (simp add: PAGE_SIZE_4K_def BIT_def PAGE_BITS_4K_def)

lemma PAGE_MASK_4K_eq: "PAGE_MASK_4K = push_bit 12 1 - 1"
  by (simp add: PAGE_MASK_4K_def PAGE_SIZE_4K_eq)

lemma unat_PAGE_ALIGN_4K: "unat (PAGE_ALIGN_4K a) = unat a div 4096 * 4096"
  unfolding PAGE_ALIGN_4K_def PAGE_MASK_4K_eq unat_word_align by simp

lemma PAGE_ALIGN_4K_idem [simp]: "PAGE_ALIGN_4K (PAGE_ALIGN_4K a) = PAGE_ALIGN_4K a"
  by (simp add: word_unat_eq_iff unat_PAGE_ALIGN_4K)

lemma PAGE_ALIGN_4K_le: "PAGE_ALIGN_4K a \<le> a"
  by (simp add: word_le_nat_alt unat_PAGE_ALIGN_4K)

lemma IS_ALIGNED_4K_iff: "IS_ALIGNED_4K a = Some (unat a mod 4096 = 0)"
  unfolding IS_ALIGNED_4K_def IS_ALIGNED_def MASK_def BIT_def PAGE_BITS_4K_def
  using word_and_mask_0 [of a 12] by simp

lemma IS_ALIGNED_4K_align [simp]: "IS_ALIGNED_4K (PAGE_ALIGN_4K a) = Some True"
  by (simp add: IS_ALIGNED_4K_iff unat_PAGE_ALIGN_4K)

lemma unat_page_offset: "unat (a AND PAGE_MASK_4K) = unat a mod 4096"
  unfolding PAGE_MASK_4K_eq word_and_mask by simp

lemma page_split: "PAGE_ALIGN_4K a + (a AND PAGE_MASK_4K) = a"
proof -
  have "unat (PAGE_ALIGN_4K a) + unat (a AND PAGE_MASK_4K) = unat a"
    unfolding unat_PAGE_ALIGN_4K unat_page_offset by (rule div_mult_mod_eq)
  moreover from this have "unat (PAGE_ALIGN_4K a) + unat (a AND PAGE_MASK_4K) < 2 ^ 32"
    using unat_bound [of a] by simp
  ultimately show ?thesis by (simp add: word_unat_eq_iff unat_plus_if')
qed

section \<open>Multiplication followed by division\<close>

lemma unat_lt64: "unat (x :: u64) < 2 ^ 64"
proof -
  have "unat x < 2 ^ LENGTH(64)" by (rule unsigned_less)
  then show ?thesis by simp
qed

text \<open>Adding two remainders below \<open>c\<close> and carrying: the new remainder is below \<open>c\<close> and nothing overflows.\<close>

lemma carry_step:
  fixes q r dq dr c :: u64
  assumes "r < c" "dr < c" "unat c \<le> 2 ^ 63"
  obtains q' r' e where "(if r + dr \<ge> c then (q + dq + 1, r + dr - c) else (q + dq, r + dr)) = (q', r')"
    "r' < c" "unat r + unat dr = unat r' + e * unat c" "unat q' = (unat q + unat dq + e) mod 2 ^ 64"
proof -
  have lt: "unat r < unat c" "unat dr < unat c" using assms(1,2) by (simp_all add: word_less_nat_alt)
  then have s: "unat (r + dr) = unat r + unat dr" using assms(3) by (simp add: unat_plus_if')
  have qd: "unat (q + dq) = (unat q + unat dq) mod 2 ^ 64" by (simp add: unat_word_ariths)
  show thesis
  proof (cases "r + dr \<ge> c")
    case True
    have d: "unat (r + dr - c) = unat r + unat dr - unat c" using True s by (simp add: unat_sub word_le_nat_alt)
    have "r + dr - c < c" using d lt by (simp add: word_less_nat_alt)
    moreover have "unat r + unat dr = unat (r + dr - c) + 1 * unat c" using d s True by (simp add: word_le_nat_alt)
    moreover have "unat (q + dq + 1) = (unat q + unat dq + 1) mod 2 ^ 64"
      by (simp add: unat_word_ariths mod_simps)
    ultimately show thesis using that [of "q + dq + 1" "r + dr - c" 1] True by simp
  next
    case False
    then show thesis using that [of "q + dq" "r + dr" 0] s qd by (simp add: not_le)
  qed
qed

lemma muldiv_step_arith:
  fixes c :: nat
  assumes "0 < c" "r + b * dr = r' + e * c" "2 * dr = dr' + d * c"
  shows "(r + (2 * a + b) * dr) div c = (r' + a * dr') div c + a * d + e"
proof -
  have "r + (2 * a + b) * dr = (r + b * dr) + a * (2 * dr)" by (simp add: algebra_simps)
  also have "\<dots> = (r' + a * dr') + (a * d + e) * c" unfolding assms(2,3) by (simp add: algebra_simps)
  finally have eq: "r + (2 * a + b) * dr = (r' + a * dr') + (a * d + e) * c" .
  have "((r' + a * dr') + (a * d + e) * c) div c = (a * d + e) + (r' + a * dr') div c"
    using assms(1) by (intro div_mult_self1) simp
  then show ?thesis unfolding eq by simp
qed

text \<open>The lowest bit of the multiplier, and what the round does with it.\<close>

lemma unat_lowest_bit: "unat (a :: u64) = 2 * unat (drop_bit 1 a) + (if a AND 1 \<noteq> 0 then 1 else 0)"
proof -
  have "unat (drop_bit 1 a) = unat a div 2" by (simp add: drop_bit_eq_div unat_div)
  moreover have "odd a \<longleftrightarrow> odd (unat a)" using bit_unsigned_iff [of a 0, where 'a = nat] by (simp add: bit_0)
  then have "(if a AND 1 \<noteq> 0 then 1 else 0) = unat a mod 2" by (simp add: and_one_eq mod2_eq_if)
  ultimately show ?thesis by simp
qed

lemma add_step:
  fixes a c q r cq cr :: u64
  assumes "unat c \<le> 2 ^ 63" "r < c" "cr < c"
  defines "b \<equiv> (if a AND 1 \<noteq> 0 then 1 else 0 :: nat)"
  obtains q1 r1 e where "(if a AND 1 \<noteq> 0
      then if r + cr \<ge> c then (q + cq + 1, r + cr - c) else (q + cq, r + cr) else (q, r)) = (q1, r1)"
    "r1 < c" "unat r + b * unat cr = unat r1 + e * unat c" "unat q1 = (unat q + b * unat cq + e) mod 2 ^ 64"
proof (cases "a AND 1 = 0")
  case True
  moreover have "unat q = (unat q + b * unat cq + 0) mod 2 ^ 64" using True unat_lt64 [of q] by (simp add: b_def)
  ultimately show thesis using that [of q r 0] assms(2) by (simp add: b_def)
next
  case False
  then have b1: "b = 1" by (simp add: b_def)
  obtain q' r' e' where cs: "(if r + cr \<ge> c then (q + cq + 1, r + cr - c) else (q + cq, r + cr)) = (q', r')"
    "r' < c" "unat r + unat cr = unat r' + e' * unat c" "unat q' = (unat q + unat cq + e') mod 2 ^ 64"
    by (rule carry_step [OF assms(2,3,1), of q cq])
  show thesis by (rule that [of q' r' e']) (use False b1 cs in simp_all)
qed

lemma muldiv_loop_correct:
  assumes "c \<noteq> 0" "unat c \<le> 2 ^ 63" "r < c" "cr < c"
  shows "unat (muldiv_loop a c q r cq cr) =
    (unat q + unat a * unat cq + (unat r + unat a * unat cr) div unat c) mod 2 ^ 64"
  using assms
proof (induction a c q r cq cr rule: muldiv_loop.induct)
  case (1 a c q r cq cr)
  show ?case
  proof (cases "a = 0")
    case True
    then have "muldiv_loop a c q r cq cr = q" by (subst muldiv_loop.simps) simp
    moreover have "unat q < 2 ^ 64" using unat_lt64 [of q] by simp
    ultimately show ?thesis using True "1.prems"(3) by (simp add: word_less_nat_alt)
  next
    case False
    define b where "b = (if a AND 1 \<noteq> 0 then 1 else 0 :: nat)"
    define a' where "a' = drop_bit 1 a"
    have ab: "unat a = 2 * unat a' + b" unfolding a'_def b_def by (rule unat_lowest_bit)
    obtain q1 r1 e where s1: "(if a AND 1 \<noteq> 0
        then if r + cr \<ge> c then (q + cq + 1, r + cr - c) else (q + cq, r + cr) else (q, r)) = (q1, r1)"
      "r1 < c" "unat r + b * unat cr = unat r1 + e * unat c" "unat q1 = (unat q + b * unat cq + e) mod 2 ^ 64"
      unfolding b_def by (rule add_step [OF "1.prems"(2,3,4)])
    obtain cq1 cr1 d where s2: "(if cr + cr \<ge> c then (cq + cq + 1, cr + cr - c) else (cq + cq, cr + cr)) = (cq1, cr1)"
      "cr1 < c" "unat cr + unat cr = unat cr1 + d * unat c" "unat cq1 = (unat cq + unat cq + d) mod 2 ^ 64"
      by (rule carry_step [OF "1.prems"(4,4,2), of cq cq])
    have dbl: "push_bit 1 x = x + x" for x :: u64 by (simp add: push_bit_eq_mult)
    have st: "muldiv_loop a c q r cq cr = muldiv_loop a' c q1 r1 cq1 cr1"
      using False s1(1) s2(1)
      by (subst muldiv_loop.simps) (simp only: Let_def dbl a'_def if_True not_False_eq_True case_prod_conv)
    have ih: "unat (muldiv_loop a' c q1 r1 cq1 cr1) =
        (unat q1 + unat a' * unat cq1 + (unat r1 + unat a' * unat cr1) div unat c) mod 2 ^ 64"
      by (rule "1.IH" [OF False _ refl a'_def refl refl _ refl "1.prems"(1,2) s1(2) s2(2)])
        (use s1(1) s2(1) in \<open>simp_all only: Let_def dbl\<close>)
    have "0 < unat c" using "1.prems"(1) by (simp add: unat_gt_0)
    then have ar: "(unat r + unat a * unat cr) div unat c = (unat r1 + unat a' * unat cr1) div unat c + unat a' * d + e"
      unfolding ab using s1(3) s2(3) by (intro muldiv_step_arith) simp_all
    have mq: "(unat q1 + unat a' * unat cq1 + X) mod 2 ^ 64 =
        ((unat q + b * unat cq + e) + unat a' * (unat cq + unat cq + d) + X) mod 2 ^ 64" for X
      unfolding s1(4) s2(4) by (metis (no_types) mod_add_left_eq mod_add_right_eq mod_mult_right_eq)
    have "(unat q + b * unat cq + e) + unat a' * (unat cq + unat cq + d) + X =
        unat q + (2 * unat a' + b) * unat cq + (X + unat a' * d + e)" for X
      by (simp add: algebra_simps)
    then show ?thesis unfolding st ih ar mq unfolding ab by (simp only:)
  qed
qed

text \<open>
  C23: \<^verbatim>\<open>muldivu64\<close> equals the exact product divided by \<open>c\<close>, reduced to 64 bits, without any
  intermediate overflow, for every divisor up to \<open>2 ^ 63\<close>; its loop terminates for all inputs.
\<close>

theorem muldivu64_correct:
  assumes "c \<noteq> 0" "unat c \<le> 2 ^ 63"
  shows "\<exists>r. muldivu64 a b c = Some r \<and> unat r = (unat a * unat b div unat c) mod 2 ^ 64"
proof -
  have c: "0 < unat c" using assms(1) by (simp add: unat_gt_0)
  then have m: "b mod c < c" "0 < c" by (simp_all add: word_less_nat_alt unat_mod)
  have "unat (muldiv_loop a c 0 0 (b div c) (b mod c)) =
      (unat a * (unat b div unat c) + (unat a * (unat b mod unat c)) div unat c) mod 2 ^ 64"
    using muldiv_loop_correct [OF assms m(2) m(1), of a 0 "b div c"] by (simp add: unat_div unat_mod)
  moreover have "unat a * unat b div unat c = unat a * (unat b div unat c) + (unat a * (unat b mod unat c)) div unat c"
  proof -
    have "unat a * unat b = unat a * (unat b mod unat c) + (unat a * (unat b div unat c)) * unat c"
      by (metis add_mult_distrib2 mod_div_mult_eq mult.assoc)
    then show ?thesis using c by (simp only: div_mult_self1 [OF gr_implies_not0 [OF c]])
  qed
  ultimately show ?thesis using assms(1) by (simp add: muldivu64_def)
qed

theorem muldivu64_correct_witness:
  "\<exists>r. muldivu64 0xFFFFFFFFFFFFFFFF 66000000 1000000 = Some r \<and> unat r = (18446744073709551615 * 66000000 div 1000000) mod 2 ^ 64"
  using muldivu64_correct [of 1000000 "0xFFFFFFFFFFFFFFFF" 66000000] by simp

text \<open>With a divisor above \<open>2 ^ 63\<close> doubling the running remainder overflows and the result is wrong.\<close>

lemma muldivu64_large_divisor:
  "muldivu64 2 0xFFFFFFFFFFFFFFFE 0xFFFFFFFFFFFFFFFF = Some 0" "2 * 0xFFFFFFFFFFFFFFFE div 0xFFFFFFFFFFFFFFFF = (1::nat)"
  by code_simp simp

section \<open>Rounding up to a power of two\<close>

definition smeared :: "u32 \<Rightarrow> nat \<Rightarrow> u32 \<Rightarrow> bool" where
  "smeared x n y \<longleftrightarrow> (\<forall>i. bit y i \<longleftrightarrow> (\<exists>d<n. bit x (i + d)))"

lemma smear_step: "smeared x n y \<Longrightarrow> smeared x (2 * n) (y OR drop_bit n y)"
  unfolding smeared_def
proof (intro allI)
  fix i
  assume s: "\<forall>i. bit y i \<longleftrightarrow> (\<exists>d<n. bit x (i + d))"
  have "bit (y OR drop_bit n y) i \<longleftrightarrow> (\<exists>d<n. bit x (i + d)) \<or> (\<exists>d<n. bit x (i + n + d))"
    by (simp add: bit_simps s add.commute add.left_commute)
  also have "\<dots> \<longleftrightarrow> (\<exists>d<2 * n. bit x (i + d))"
  proof
    assume "\<exists>d<2 * n. bit x (i + d)"
    then obtain d where d: "d < 2 * n" "bit x (i + d)" by blast
    show "(\<exists>d<n. bit x (i + d)) \<or> (\<exists>d<n. bit x (i + n + d))"
    proof (cases "d < n")
      case False
      then have "d - n < n" "i + n + (d - n) = i + d" using d(1) by auto
      then show ?thesis using d(2) by metis
    qed (use d in blast)
  next
    assume "(\<exists>d<n. bit x (i + d)) \<or> (\<exists>d<n. bit x (i + n + d))"
    then show "\<exists>d<2 * n. bit x (i + d)"
    proof
      assume "\<exists>d<n. bit x (i + n + d)"
      then obtain d where "d < n" "bit x (i + (n + d))" by (auto simp: add.assoc)
      then show ?thesis by (intro exI [of _ "n + d"]) auto
    next
      assume "\<exists>d<n. bit x (i + d)"
      then obtain d where "d < n" "bit x (i + d)" by blast
      then show ?thesis by (intro exI [of _ d]) auto
    qed
  qed
  finally show "bit (y OR drop_bit n y) i \<longleftrightarrow> (\<exists>d<2 * n. bit x (i + d))" .
qed

lemma smear_all: "smeared x 32 y \<Longrightarrow> bit y i \<longleftrightarrow> (\<exists>j\<ge>i. bit x j)"
proof -
  assume "smeared x 32 y"
  then have "bit y i \<longleftrightarrow> (\<exists>d<32. bit x (i + d))" by (simp add: smeared_def)
  also have "\<dots> \<longleftrightarrow> (\<exists>j\<ge>i. bit x j)"
  proof
    assume "\<exists>j\<ge>i. bit x j"
    then obtain j where "i \<le> j" "bit x j" by blast
    moreover from this have "j < 32" by (auto dest: bit_imp_le_length)
    ultimately show "\<exists>d<32. bit x (i + d)" by (intro exI [of _ "j - i"]) auto
  next
    assume "\<exists>d<32. bit x (i + d)"
    then obtain d where "bit x (i + d)" by blast
    then show "\<exists>j\<ge>i. bit x j" by (intro exI [of _ "i + d"]) simp
  qed
  finally show ?thesis .
qed

text \<open>The position of the highest set bit bounds a word.\<close>

lemma top_bit_bounds:
  fixes x :: u32
  assumes "bit x k" "\<And>j. k < j \<Longrightarrow> \<not> bit x j"
  shows "2 ^ k \<le> unat x" "unat x < 2 ^ (k + 1)"
proof -
  have k: "k < 32" using assms(1) by (auto dest: bit_imp_le_length)
  have "take_bit (k + 1) x = x"
    by (rule bit_word_eqI) (use assms(2) in \<open>auto simp: bit_simps less_Suc_eq_le intro: leI\<close>)
  then have "unat x = take_bit (k + 1) (unat x)" by (metis unsigned_take_bit_eq)
  also have "\<dots> < 2 ^ (k + 1)" by (rule take_bit_nat_less_exp)
  finally show "unat x < 2 ^ (k + 1)" .
  have "bit (unat x) k" using assms(1) by (simp add: bit_simps)
  then have "odd (unat x div 2 ^ k)" by (simp add: bit_iff_odd)
  then have "0 < unat x div 2 ^ k" by (cases "unat x div 2 ^ k") auto
  then show "2 ^ k \<le> unat x" by (simp add: div_greater_zero_iff)
qed

lemma nearest_power_of_two_spec:
  assumes "2 \<le> unat v" "unat v \<le> 2 ^ 31"
  shows "\<exists>k\<le>31. unat (nearest_power_of_two v) = 2 ^ k \<and> 2 ^ (k - 1) < unat v \<and> unat v \<le> 2 ^ k"
proof -
  define x where "x = v - 1"
  have "1 \<le> v" using assms(1) by (simp add: word_le_nat_alt)
  then have ux: "unat x = unat v - 1" by (simp add: x_def unat_sub)
  define y where "y = nearest_power_of_two v - 1"
  have "smeared x 1 x" by (simp add: smeared_def)
  from smear_step [OF smear_step [OF smear_step [OF smear_step [OF smear_step [OF this]]]]]
  have "smeared x 32 y" by (simp add: y_def x_def nearest_power_of_two_def Let_def)
  then have yb: "bit y i \<longleftrightarrow> (\<exists>j\<ge>i. bit x j)" for i by (rule smear_all)
  have "x \<noteq> 0" using ux assms(1) by auto
  then obtain j where j: "bit x j" by (auto simp: bit_eq_iff)
  define k where "k = Max {i. bit x i}"
  have fin: "finite {i. bit x i}" by (rule finite_subset [of _ "{..<32}"]) (auto dest: bit_imp_le_length)
  have k: "bit x k" using Max_in [OF fin] j by (auto simp: k_def)
  have hi: "\<not> bit x i" if "k < i" for i using Max_ge [OF fin, of i] that unfolding k_def by fastforce
  note tb = top_bit_bounds [OF k hi]
  have k30: "k \<le> 30"
  proof (rule ccontr)
    assume "\<not> k \<le> 30"
    then have "(2::nat) ^ 31 \<le> 2 ^ k" by (intro power_increasing) auto
    then show False using tb(1) ux assms by simp
  qed
  have "y = mask (k + 1)"
    by (rule bit_word_eqI) (use yb k hi k30 in \<open>auto simp: bit_simps not_less_eq less_Suc_eq_le; metis leI le_trans\<close>)
  then have "nearest_power_of_two v = 2 ^ (k + 1)"
    by (simp add: y_def mask_eq_exp_minus_1 diff_eq_eq)
  then have "unat (nearest_power_of_two v) = 2 ^ (k + 1)" using unat_two_exp [of "k + 1"] k30 by simp
  moreover have "2 ^ (k + 1 - 1) < unat v" "unat v \<le> 2 ^ (k + 1)" using tb ux assms(1) by simp_all
  ultimately show ?thesis using k30 by (intro exI [of _ "k + 1"]) simp
qed

text \<open>
  C24: For every argument from \<open>2\<close> to \<open>2 ^ 31\<close>, \<^verbatim>\<open>nearest_power_of_two\<close> returns the least power of two
  that is not below it.
\<close>

theorem nearest_power_of_two_correct:
  assumes "2 \<le> unat v" "unat v \<le> 2 ^ 31"
  shows "\<exists>k\<le>31. unat (nearest_power_of_two v) = 2 ^ k \<and> 2 ^ (k - 1) < unat v \<and> unat v \<le> 2 ^ k"
  using assms by (rule nearest_power_of_two_spec)

theorem nearest_power_of_two_correct_witness:
  "\<exists>k\<le>31. unat (nearest_power_of_two 100) = 2 ^ k \<and> 2 ^ (k - 1) < (100::nat) \<and> (100::nat) \<le> 2 ^ k"
  using nearest_power_of_two_correct [of 100] by simp

end
