(* ===== verification/Sos_State.thy ===== *)
theory Sos_State
  imports UtAlloc_Sub UtilsMath RingBuf Clock
begin

text \<open>
  The state of the operating system server: one record with the globals of the frame table, the
  pager, the process table, the virtual file system and its drivers, together with the untyped
  allocator, the timer driver and the memory the server addresses.

  The microkernel, the capability space, the C allocator and the NFS server are the environment.
  Each call to one of them is a value of \<open>kcall\<close>; it is recorded in \<open>klog\<close>, latest first, and
  answered by the environment, which may take the whole history into account. Where the source
  yields to other coroutines, the environment may change the state (\<open>interfere\<close>).
\<close>

section \<open>Data\<close>

datatype chance_type = FIRST_CHANCE | SECOND_CHANCE | PINNED

record frame_entry =
  fe_cap :: u32
  fe_chance :: chance_type
  fe_pid :: u32
  fe_page_id :: u32

record region =
  r_start :: u32
  r_end :: u32
  r_permissions :: u32

text \<open>The two tables of a page directory, by their addresses in the server's memory.\<close>

record page_directory =
  directory :: u32
  kernel_page_table_caps :: u32

text \<open>Regions in list order; the stack and heap regions are pointers into the list, kept as positions.\<close>

record addrspace =
  region_list :: "region list"
  region_stack :: "nat option"
  region_heap :: "nat option"
  vspace_addr :: u32
  vspace :: u32
  as_directory :: "page_directory option"

datatype vnode_ops = device_vnode_ops | serial_vnode_ops | nfs_dir_ops | nfs_vnode_ops

record vnode =
  vn_data :: u32
  vn_ops :: vnode_ops
  readcount :: u32
  writecount :: u32

record uiovec =
  uiov_base :: u32
  uiov_len :: u32
  uiov_pos :: u32

record sos_stat_t =
  st_type :: u32
  st_fmode :: u32
  st_size :: u32
  st_ctime :: u32
  st_atime :: u32

text \<open>File attributes as the NFS server reports them.\<close>

record fattr_t =
  fa_type :: u32
  fa_mode :: u32
  fa_size :: u32
  fa_ctime :: "u32 \<times> u32"
  fa_atime :: "u32 \<times> u32"

type_synonym vptr = nat

record file_t =
  fp :: u32
  vn :: vptr
  mode :: u32

datatype proc_states = CREATED | ZOMBIE | RUNNING | BLOCKED

record proc =
  tcb_addr :: u32
  tcb_cap :: u32
  ipc_buffer_cap :: u32
  croot :: u32
  p_addrspace :: "addrspace option"
  file_table :: "file_t option list option"
  children :: "int list"
  waiting_on :: int
  waiting_coro :: u32
  ppid :: int
  pid :: int
  proc_name :: "string option"
  stime :: u64
  p_state :: proc_states
  blocked_ref :: u32
  kill_flag :: bool
  protected :: bool

section \<open>Calls to the environment\<close>

datatype kcall =
    K_malloc
  | K_ut_alloc nat nat
  | K_retype u32 nat
  | K_copy_cap u32
  | K_mint_cap u32 u32
  | K_delete_cap u32
  | K_free_slot u32
  | K_save_reply
  | K_cspace_create
  | K_cspace_destroy u32
  | K_page_map u32 u32 u32 u32
  | K_page_unmap u32
  | K_page_get_address u32
  | K_page_unify u32
  | K_pt_map u32 u32 u32
  | K_pt_unmap u32
  | K_tcb_configure u32
  | K_tcb_suspend u32
  | K_tcb_start u32 u32 u32
  | K_send u32 nat
  | K_nfs_lookup string
  | K_nfs_create string
  | K_nfs_read u32 u32 u32
  | K_nfs_write u32 u32 "u8 list"
  | K_nfs_getattr u32
  | K_nfs_readdir u32
  | K_nfs_status
  | K_nfs_count
  | K_nfs_handle
  | K_nfs_cookie
  | K_serial_init
  | K_serial_packet "u8 list"
  | K_coro_getcur
  | K_coro_resume u32 u32
  | K_get_mr nat
  | K_set_mr nat u32
  | K_yield
  | K_wait
  | K_label
  | K_network_irq
  | K_bind_aep u32
  | K_cache_op u32 u32
  | K_cspace_bootstrap
  | K_network_init u32

record sos =
  frame_table :: "frame_entry list option"
  ut_base :: u32
  ut_top :: u32
  frame_table_max :: u32
  frame_table_cnt :: u32
  free_frames :: "u32 list"
  free_index :: u32
  current_page :: u32
  pagefile_metatable :: "u32 list"
  pagefile_handle :: u32
  global_page_lock :: bool
  lock_free_coro :: u32
  pagefile_operations :: "u32 list"
  sos_procs :: "proc option list"
  curr_pid :: u32
  vnodes :: "vptr \<Rightarrow> vnode option"
  next_vptr :: vptr
  mount_points :: "vptr list"
  devices :: "(string \<times> vptr) list"
  global_uio :: "uiovec option"
  nbytes_read :: u32
  input_buffer :: "ring_buffer_t option"
  serial_routine :: u32
  serial_stat :: "sos_stat_t option"
  global_dir :: "string list"
  global_cookie :: u32
  timer_fired :: bool
  pager_initialised :: bool
  sos_ipc_ep_cap :: u32
  sos_interrupt_ep_cap :: u32
  ut_state :: ut_allocator
  clock :: clock_state
  mem :: "u32 \<Rightarrow> u8"
  klog :: "kcall list"

record sos_env =
  answer :: "kcall list \<Rightarrow> kcall \<Rightarrow> u32"
  nfs_byte :: "kcall list \<Rightarrow> nat \<Rightarrow> u8"
  nfs_names :: "kcall list \<Rightarrow> string list"
  nfs_attr :: "kcall list \<Rightarrow> fattr_t"
  interfere :: "kcall list \<Rightarrow> sos \<Rightarrow> sos"
  clk_env :: clock_env

definition ask :: "sos_env \<Rightarrow> kcall \<Rightarrow> sos \<Rightarrow> u32 \<times> sos" where
  "ask E c s = (answer E (klog s) c, s\<lparr>klog := c # klog s\<rparr>)"

text \<open>Other coroutines run until this one is resumed.\<close>

definition coro_yield :: "sos_env \<Rightarrow> sos \<Rightarrow> sos" where
  "coro_yield E s = interfere E (klog s) s"

text \<open>\<^verbatim>\<open>malloc\<close> may fail; only success or failure matters, the objects are fields of the state.\<close>

definition do_malloc :: "sos_env \<Rightarrow> sos \<Rightarrow> bool \<times> sos" where
  "do_malloc E s = (let (r, s) = ask E K_malloc s in (r \<noteq> 0, s))"

text \<open>The untyped allocator, with its own uses of \<^verbatim>\<open>malloc\<close> answered by the environment.\<close>

definition sos_ut_alloc :: "sos_env \<Rightarrow> nat \<Rightarrow> sos \<Rightarrow> (u32 \<times> sos) option" where
  "sos_ut_alloc E sizebits s = do {
     (addr, ua) \<leftarrow> ut_alloc (\<lambda>i. answer E (klog s) (K_ut_alloc sizebits i) \<noteq> 0) sizebits (ut_state s);
     Some (addr, s\<lparr>ut_state := ua, klog := K_ut_alloc sizebits 0 # klog s\<rparr>) }"

definition sos_ut_free :: "u32 \<Rightarrow> nat \<Rightarrow> sos \<Rightarrow> sos option" where
  "sos_ut_free addr sizebits s = do {
     ua \<leftarrow> ut_free addr sizebits (ut_state s);
     Some (s\<lparr>ut_state := ua\<rparr>) }"

text \<open>\<^verbatim>\<open>cspace_ut_retype_addr\<close>: an error code and the capability; slot \<open>0\<close> is never handed out.\<close>

definition cspace_ut_retype_addr :: "sos_env \<Rightarrow> u32 \<Rightarrow> nat \<Rightarrow> sos \<Rightarrow> u32 \<times> u32 \<times> sos" where
  "cspace_ut_retype_addr E paddr sizebits s =
     (let (c, s) = ask E (K_retype paddr sizebits) s in (if c = 0 then 1 else 0, c, s))"

section \<open>The server's memory\<close>

text \<open>Little-endian words at byte addresses that wrap around.\<close>

definition load32 :: "(u32 \<Rightarrow> u8) \<Rightarrow> u32 \<Rightarrow> u32" where
  "load32 m a = ucast (m a) OR push_bit 8 (ucast (m (a + 1))) OR push_bit 16 (ucast (m (a + 2)))
                  OR push_bit 24 (ucast (m (a + 3)))"

definition store32 :: "u32 \<Rightarrow> u32 \<Rightarrow> (u32 \<Rightarrow> u8) \<Rightarrow> u32 \<Rightarrow> u8" where
  "store32 a v m = m(a := ucast v, a + 1 := ucast (drop_bit 8 v), a + 2 := ucast (drop_bit 16 v),
                     a + 3 := ucast (drop_bit 24 v))"

definition bzero :: "u32 \<Rightarrow> u32 \<Rightarrow> (u32 \<Rightarrow> u8) \<Rightarrow> u32 \<Rightarrow> u8" where
  "bzero a n m = (\<lambda>b. if b - a < n then 0 else m b)"

text \<open>Reading and writing a run of bytes.\<close>

fun load_bytes :: "(u32 \<Rightarrow> u8) \<Rightarrow> u32 \<Rightarrow> nat \<Rightarrow> u8 list" where
  "load_bytes m a 0 = []"
| "load_bytes m a (Suc n) = m a # load_bytes m (a + 1) n"

fun store_bytes :: "u32 \<Rightarrow> u8 list \<Rightarrow> (u32 \<Rightarrow> u8) \<Rightarrow> u32 \<Rightarrow> u8" where
  "store_bytes a [] m = m"
| "store_bytes a (x # xs) m = store_bytes (a + 1) xs (m(a := x))"

lemma load32_store32 [simp]: "load32 (store32 a v m) a = v"
proof -
  have "(a + 1 \<noteq> a) \<and> (a + 2 \<noteq> a) \<and> (a + 3 \<noteq> a) \<and> (a + 1 \<noteq> a + 2) \<and> (a + 1 \<noteq> a + 3) \<and> (a + 2 \<noteq> a + 3)" by simp
  then have "load32 (store32 a v m) a = ucast (ucast v :: u8) OR push_bit 8 (ucast (ucast (drop_bit 8 v) :: u8))
      OR push_bit 16 (ucast (ucast (drop_bit 16 v) :: u8)) OR push_bit 24 (ucast (ucast (drop_bit 24 v) :: u8))"
    by (simp add: load32_def store32_def)
  also have "\<dots> = v"
    by (rule bit_word_eqI) (auto simp: bit_simps not_less le_Suc_eq intro: ccontr)
  finally show ?thesis .
qed

lemma load32_cong: "m a = n a \<Longrightarrow> m (a + 1) = n (a + 1) \<Longrightarrow> m (a + 2) = n (a + 2) \<Longrightarrow> m (a + 3) = n (a + 3) \<Longrightarrow> load32 m a = load32 n a"
  by (simp add: load32_def)

lemma load32_zero: "m a = 0 \<Longrightarrow> m (a + 1) = 0 \<Longrightarrow> m (a + 2) = 0 \<Longrightarrow> m (a + 3) = 0 \<Longrightarrow> load32 m a = 0"
  by (simp add: load32_def)

lemma store32_other: "b - a \<ge> 4 \<Longrightarrow> store32 a v m b = m b"
proof -
  assume d: "b - a \<ge> 4"
  have "b \<noteq> a + k" if "k < 4" for k using d that by auto
  from this [of 0] this [of 1] this [of 2] this [of 3] show ?thesis by (simp add: store32_def)
qed

lemma length_load_bytes [simp]: "length (load_bytes m a n) = n"
  by (induction n arbitrary: a) auto

end
