(* ===== verification/AddrSpace.thy ===== *)
theory AddrSpace
  imports Sos_State
begin

text \<open>
  Regions of an address space (\<^verbatim>\<open>vm/addrspace.c\<close>), the growth of the stack in \<^verbatim>\<open>vm_map\<close> and the heap
  break. Creation and destruction of whole address spaces need the page tables and are in the
  theory of virtual memory.
\<close>

section \<open>Definitions\<close>

definition seL4_CanWrite :: u32 where "seL4_CanWrite = 1"
definition seL4_CanRead :: u32 where "seL4_CanRead = 2"
definition ACCESS_READ :: u32 where "ACCESS_READ = 0"
definition ACCESS_WRITE :: u32 where "ACCESS_WRITE = 1"
definition PROCESS_STACK_TOP :: u32 where "PROCESS_STACK_TOP = 0x90000000"
definition PROCESS_IPC_BUFFER :: u32 where "PROCESS_IPC_BUFFER = 0xA0000000"
definition RLIMIT_STACK_SZ :: u32 where "RLIMIT_STACK_SZ = 16780000"

definition WITHIN_REGION :: "region \<Rightarrow> u32 \<Rightarrow> bool" where
  "WITHIN_REGION r addr \<longleftrightarrow> addr \<ge> r_start r \<and> addr < r_end r"

definition as_create_region :: "sos_env \<Rightarrow> u32 \<Rightarrow> u32 \<Rightarrow> u32 \<Rightarrow> sos \<Rightarrow> region option \<times> sos" where
  "as_create_region E start sz permissions s =
     (let (ok, s) = do_malloc E s in
      (if ok then Some \<lparr>r_start = start, r_end = start + sz, r_permissions = permissions\<rparr> else None, s))"

text \<open>The new region is dereferenced without a test.\<close>

definition as_add_region :: "addrspace \<Rightarrow> region option \<Rightarrow> (int \<times> addrspace) option" where
  "as_add_region as new_region = do {
     r \<leftarrow> new_region;
     Some (0, as\<lparr>region_list := region_list as @ [r]\<rparr>) }"

definition as_define_region ::
  "sos_env \<Rightarrow> addrspace \<Rightarrow> u32 \<Rightarrow> u32 \<Rightarrow> u32 \<Rightarrow> sos \<Rightarrow> (int \<times> addrspace \<times> sos) option" where
  "as_define_region E as start sz permissions s =
     (let (r, s) = as_create_region E start sz permissions s in do {
        (ret, as) \<leftarrow> as_add_region as r;
        Some (ret, as, s) })"

definition as_destroy_region :: "region option \<Rightarrow> int" where
  "as_destroy_region reg = (if reg = None then 1 else 0)"

text \<open>The search returns the position of the region found.\<close>

fun find_region :: "region list \<Rightarrow> u32 \<Rightarrow> nat \<Rightarrow> nat option" where
  "find_region [] vaddr i = None"
| "find_region (r # rs) vaddr i =
     (if vaddr \<ge> r_start r \<and> vaddr < r_end r then Some i else find_region rs vaddr (Suc i))"

definition as_find_region :: "addrspace \<Rightarrow> u32 \<Rightarrow> nat option" where
  "as_find_region as vaddr = find_region (region_list as) vaddr 0"

fun collision_loop :: "region list \<Rightarrow> nat \<Rightarrow> nat option \<Rightarrow> u32 \<Rightarrow> u32 \<Rightarrow> int" where
  "collision_loop [] i exempt start end' = 0"
| "collision_loop (r # rs) i exempt start end' =
     (if exempt = Some i then collision_loop rs (Suc i) exempt start end'
      else if ISINRANGE (r_start r) start (r_end r) then 1
      else if ISINRANGE start (r_start r) end' then 1
      else collision_loop rs (Suc i) exempt start end')"

definition as_region_collision_check :: "addrspace \<Rightarrow> nat option \<Rightarrow> u32 \<Rightarrow> u32 \<Rightarrow> int" where
  "as_region_collision_check as exempt start end' =
     (if end' < start then 1 else collision_loop (region_list as) 0 exempt start end')"

definition as_region_permission_check :: "region \<Rightarrow> u32 \<Rightarrow> bool" where
  "as_region_permission_check reg access_type \<longleftrightarrow>
     access_type = ACCESS_READ \<and> r_permissions reg AND seL4_CanRead \<noteq> 0
     \<or> access_type = ACCESS_WRITE \<and> r_permissions reg AND seL4_CanWrite \<noteq> 0"

definition as_define_stack :: "sos_env \<Rightarrow> addrspace option \<Rightarrow> sos \<Rightarrow> (int \<times> addrspace option \<times> sos) option" where
  "as_define_stack E as s =
     (case as of
        None \<Rightarrow> Some (1, None, s)
      | Some a \<Rightarrow>
          if region_stack a \<noteq> None then Some (1, Some a, s)
          else
            let (stack, s) = as_create_region E (PROCESS_STACK_TOP - PAGE_SIZE_4K) PAGE_SIZE_4K
                               (seL4_CanRead OR seL4_CanWrite) s in
            if stack = None then Some (1, Some a, s)
            else do {
              (ret, a) \<leftarrow> as_add_region (a\<lparr>region_stack := Some (length (region_list a))\<rparr>) stack;
              Some (ret, Some a, s) })"

definition as_define_heap :: "sos_env \<Rightarrow> addrspace option \<Rightarrow> u32 \<Rightarrow> sos \<Rightarrow> (int \<times> addrspace option \<times> sos) option" where
  "as_define_heap E as heap_loc s =
     (case as of
        None \<Rightarrow> Some (1, None, s)
      | Some a \<Rightarrow>
          if region_heap a \<noteq> None then Some (1, Some a, s)
          else
            let (heap, s) = as_create_region E heap_loc 0 (seL4_CanRead OR seL4_CanWrite) s in
            if heap = None then Some (1, Some a, s)
            else do {
              (ret, a) \<leftarrow> as_add_region (a\<lparr>region_heap := Some (length (region_list a))\<rparr>) heap;
              Some (ret, Some a, s) })"

text \<open>
  The stack extension at the start of \<^verbatim>\<open>vm_map\<close>: \<^const>\<open>True\<close> when the function goes on to map the
  page, \<^const>\<open>False\<close> when it returns an error at once.
\<close>

definition stack_extend :: "addrspace \<Rightarrow> u32 \<Rightarrow> (bool \<times> addrspace) option" where
  "stack_extend as vaddr =
     (if as_find_region as vaddr \<noteq> None then Some (True, as)
      else do {
        i \<leftarrow> region_stack as;
        stack \<leftarrow> arr_get (region_list as) (int i);
        if as_region_collision_check as (Some i) (PAGE_ALIGN_4K vaddr) (r_end stack) = 0 then
          if PAGE_ALIGN_4K vaddr \<ge> r_end stack then Some (True, as)
          else if r_end stack - PAGE_ALIGN_4K vaddr > RLIMIT_STACK_SZ then Some (False, as)
          else Some (True, as\<lparr>region_list := (region_list as)[i := stack\<lparr>r_start := PAGE_ALIGN_4K vaddr\<rparr>]\<rparr>)
        else Some (True, as) })"

text \<open>The heap break of \<^verbatim>\<open>syscall_brk\<close>: the new end of the heap region is returned.\<close>

definition heap_brk :: "addrspace \<Rightarrow> u32 \<Rightarrow> (u32 \<times> addrspace) option" where
  "heap_brk as newbrk = do {
     i \<leftarrow> region_heap as;
     heap \<leftarrow> arr_get (region_list as) (int i);
     if newbrk \<noteq> 0 then
       if as_region_collision_check as (Some i) (r_start heap) newbrk \<noteq> 0 then Some (r_end heap, as)
       else Some (newbrk, as\<lparr>region_list := (region_list as)[i := heap\<lparr>r_end := newbrk\<rparr>]\<rparr>)
     else Some (r_end heap, as) }"

section \<open>Search and collisions\<close>

lemma find_region_Some:
  "find_region rs vaddr i = Some k \<longleftrightarrow>
     i \<le> k \<and> k < i + length rs \<and> WITHIN_REGION (rs ! (k - i)) vaddr \<and> (\<forall>j<k - i. \<not> WITHIN_REGION (rs ! j) vaddr)"
proof (induction rs vaddr i rule: find_region.induct)
  case (2 r rs vaddr i)
  show ?case
  proof (cases "WITHIN_REGION r vaddr")
    case True
    then have "find_region (r # rs) vaddr i = Some i" by (simp add: WITHIN_REGION_def)
    moreover have "k = i" if "\<forall>j<k - i. \<not> WITHIN_REGION ((r # rs) ! j) vaddr" "i \<le> k"
      using that(1) [rule_format, of 0] that(2) True by (cases "k - i") auto
    ultimately show ?thesis using True by auto
  next
    case False
    then have f: "find_region (r # rs) vaddr i = find_region rs vaddr (Suc i)" by (auto simp: WITHIN_REGION_def)
    have n: "find_region (r # rs) vaddr i = Some k \<longleftrightarrow> Suc i \<le> k \<and> k < Suc i + length rs
        \<and> WITHIN_REGION (rs ! (k - Suc i)) vaddr \<and> (\<forall>j<k - Suc i. \<not> WITHIN_REGION (rs ! j) vaddr)"
      unfolding f using 2 False by (simp add: WITHIN_REGION_def)
    show ?thesis
    proof (cases "k \<le> i")
      case True
      then show ?thesis unfolding n using False by (cases "k = i") auto
    next
      case k: False
      then have "k - i = Suc (k - Suc i)" by simp
      then show ?thesis unfolding n using False k by (simp add: All_less_Suc2)
    qed
  qed
qed auto

lemma find_region_None: "find_region rs vaddr i = None \<longleftrightarrow> (\<forall>r\<in>set rs. \<not> WITHIN_REGION r vaddr)"
  by (induction rs vaddr i rule: find_region.induct) (auto simp: WITHIN_REGION_def)

text \<open>Two address ranges with a gap between them.\<close>

definition apart :: "u32 \<Rightarrow> u32 \<Rightarrow> region \<Rightarrow> bool" where
  "apart start end' r \<longleftrightarrow> r_end r < start \<or> end' < r_start r"

lemma collision_loop_iff:
  assumes "start \<le> end'" "\<forall>r\<in>set rs. r_start r \<le> r_end r"
  shows "collision_loop rs i exempt start end' = 0 \<longleftrightarrow>
    (\<forall>k<length rs. exempt \<noteq> Some (i + k) \<longrightarrow> apart start end' (rs ! k))"
  using assms(2)
proof (induction rs arbitrary: i)
  case (Cons r rs)
  have hd: "ISINRANGE (r_start r) start (r_end r) \<or> ISINRANGE start (r_start r) end' \<longleftrightarrow> \<not> apart start end' r"
    using Cons.prems assms(1) by (auto simp: ISINRANGE_iff apart_def)
  have ih: "collision_loop rs (Suc i) exempt start end' = 0 \<longleftrightarrow>
      (\<forall>k<length rs. exempt \<noteq> Some (Suc i + k) \<longrightarrow> apart start end' (rs ! k))"
    using Cons by simp
  have "(\<forall>k<length (r # rs). exempt \<noteq> Some (i + k) \<longrightarrow> apart start end' ((r # rs) ! k)) \<longleftrightarrow>
      (exempt \<noteq> Some i \<longrightarrow> apart start end' r) \<and> (\<forall>k<length rs. exempt \<noteq> Some (Suc i + k) \<longrightarrow> apart start end' (rs ! k))"
    by (simp add: All_less_Suc2)
  then show ?case using hd ih by auto
qed simp

section \<open>Disjoint regions\<close>

text \<open>
  The invariant of an address space: no region ends before it starts, no two regions overlap, and
  the stack and heap pointers point into the list.
\<close>

definition as_inv :: "addrspace \<Rightarrow> bool" where
  "as_inv as \<longleftrightarrow> (\<forall>r\<in>set (region_list as). r_start r \<le> r_end r)
     \<and> (\<forall>i<length (region_list as). \<forall>j<length (region_list as). i \<noteq> j \<longrightarrow>
          r_end (region_list as ! i) \<le> r_start (region_list as ! j) \<or> r_end (region_list as ! j) \<le> r_start (region_list as ! i))
     \<and> (\<forall>i. region_stack as = Some i \<or> region_heap as = Some i \<longrightarrow> i < length (region_list as))"

text \<open>In such an address space an address belongs to at most one region.\<close>

lemma as_inv_unique:
  assumes "as_inv as" "i < length (region_list as)" "j < length (region_list as)"
    and "WITHIN_REGION (region_list as ! i) a" "WITHIN_REGION (region_list as ! j) a"
  shows "i = j"
proof (rule ccontr)
  assume "i \<noteq> j"
  with assms(1-3) have "r_end (region_list as ! i) \<le> r_start (region_list as ! j)
      \<or> r_end (region_list as ! j) \<le> r_start (region_list as ! i)" unfolding as_inv_def by blast
  with assms(4,5) show False unfolding WITHIN_REGION_def by (auto dest: leD order.strict_trans2)
qed

text \<open>
  C22: The collision check accepts exactly the ranges that do not end before they start and that
  lie strictly apart from every region other than the exempt one.
\<close>

theorem as_region_collision_check_correct:
  assumes "\<forall>r\<in>set (region_list as). r_start r \<le> r_end r"
  shows "as_region_collision_check as exempt start end' = 0 \<longleftrightarrow>
    start \<le> end' \<and> (\<forall>k<length (region_list as). exempt \<noteq> Some k \<longrightarrow>
      r_end (region_list as ! k) < start \<or> end' < r_start (region_list as ! k))"
  using collision_loop_iff [of start end' "region_list as" 0 exempt] assms
  by (auto simp: as_region_collision_check_def apart_def not_less)

theorem as_region_collision_check_correct_witness:
  "as_region_collision_check \<lparr>region_list = [\<lparr>r_start = 0x1000, r_end = 0x2000, r_permissions = 3\<rparr>],
      region_stack = None, region_heap = None, vspace_addr = 0, vspace = 0, as_directory = None\<rparr> None 0x2001 0x3000 = 0"
  using as_region_collision_check_correct [of "\<lparr>region_list = [\<lparr>r_start = 0x1000, r_end = 0x2000, r_permissions = 3\<rparr>],
      region_stack = None, region_heap = None, vspace_addr = 0, vspace = 0, as_directory = None\<rparr>" None "0x2001" "0x3000"]
  by simp

text \<open>Replacing one region by a range the check accepted keeps the invariant.\<close>

lemma as_inv_replace:
  assumes inv: "as_inv as" and i: "i < length (region_list as)"
    and ok: "as_region_collision_check as (Some i) (r_start r) (r_end r) = 0"
  shows "as_inv (as\<lparr>region_list := (region_list as)[i := r]\<rparr>)"
proof -
  let ?rs = "region_list as"
  have "\<forall>r\<in>set ?rs. r_start r \<le> r_end r" using inv by (simp add: as_inv_def)
  then have c: "r_start r \<le> r_end r" "\<And>k. k < length ?rs \<Longrightarrow> k \<noteq> i \<Longrightarrow> r_end (?rs ! k) < r_start r \<or> r_end r < r_start (?rs ! k)"
    using ok collision_loop_iff [of "r_start r" "r_end r" ?rs 0 "Some i"]
    by (auto simp: as_region_collision_check_def apart_def split: if_splits)
  have "\<forall>r\<in>set (?rs[i := r]). r_start r \<le> r_end r"
    using inv c(1) set_update_subset_insert [of ?rs i r] by (auto simp: as_inv_def)
  moreover have "r_end (?rs[i := r] ! j) \<le> r_start (?rs[i := r] ! k) \<or> r_end (?rs[i := r] ! k) \<le> r_start (?rs[i := r] ! j)"
    if "j < length ?rs" "k < length ?rs" "j \<noteq> k" for j k
  proof (cases "j = i \<or> k = i")
    case True
    then show ?thesis
    proof
      assume "j = i"
      then show ?thesis using c(2) [of k] that i by (auto dest: less_imp_le)
    next
      assume "k = i"
      then show ?thesis using c(2) [of j] that i by (auto dest: less_imp_le)
    qed
  next
    case False
    then show ?thesis using inv that by (simp add: as_inv_def)
  qed
  moreover have "\<forall>k. region_stack as = Some k \<or> region_heap as = Some k \<longrightarrow> k < length ?rs"
    using inv by (simp add: as_inv_def)
  ultimately show ?thesis by (simp add: as_inv_def)
qed

lemma stack_extend_cases:
  assumes s: "stack_extend as vaddr = Some (cont, as')"
  obtains (same) "as' = as"
    | (grown) i stack where "region_stack as = Some i" "i < length (region_list as)" "region_list as ! i = stack" "cont"
      "as_region_collision_check as (Some i) (PAGE_ALIGN_4K vaddr) (r_end stack) = 0"
      "r_end stack - PAGE_ALIGN_4K vaddr \<le> RLIMIT_STACK_SZ"
      "as' = as\<lparr>region_list := (region_list as)[i := stack\<lparr>r_start := PAGE_ALIGN_4K vaddr\<rparr>]\<rparr>"
proof (cases "as_find_region as vaddr")
  case None
  with s obtain i where i: "region_stack as = Some i" "i < length (region_list as)"
    unfolding stack_extend_def by (cases "region_stack as") (simp_all split: if_splits)
  let ?stack = "region_list as ! i" and ?v = "PAGE_ALIGN_4K vaddr"
  let ?g = "as\<lparr>region_list := (region_list as)[i := ?stack\<lparr>r_start := ?v\<rparr>]\<rparr>"
  from s None i have "(if as_region_collision_check as (Some i) ?v (r_end ?stack) = 0 then
      if ?v \<ge> r_end ?stack then Some (True, as)
      else if r_end ?stack - ?v > RLIMIT_STACK_SZ then Some (False, as) else Some (True, ?g)
    else Some (True, as)) = Some (cont, as')" unfolding stack_extend_def by simp
  then have "as' = as \<or> (cont \<and> as_region_collision_check as (Some i) ?v (r_end ?stack) = 0
      \<and> r_end ?stack - ?v \<le> RLIMIT_STACK_SZ \<and> as' = ?g)"
    by (simp only: split: if_splits) (simp_all add: not_less)
  then show thesis using same grown [OF i refl] by blast
next
  case (Some k)
  then have "as' = as" using s by (simp add: stack_extend_def)
  then show thesis by (rule same)
qed

lemma heap_brk_cases:
  assumes h: "heap_brk as newbrk = Some (r, as')"
  obtains i where "region_heap as = Some i" "i < length (region_list as)" "as' = as" "r = r_end (region_list as ! i)"
    | i where "region_heap as = Some i" "i < length (region_list as)" "r = newbrk"
      "as_region_collision_check as (Some i) (r_start (region_list as ! i)) newbrk = 0"
      "as' = as\<lparr>region_list := (region_list as)[i := (region_list as ! i)\<lparr>r_end := newbrk\<rparr>]\<rparr>"
proof -
  from h obtain i where i: "region_heap as = Some i" "i < length (region_list as)"
    unfolding heap_brk_def by (cases "region_heap as") (simp_all split: if_splits)
  let ?heap = "region_list as ! i" and ?g = "as\<lparr>region_list := (region_list as)[i := (region_list as ! i)\<lparr>r_end := newbrk\<rparr>]\<rparr>"
  from h i have "(if newbrk \<noteq> 0 then
       if as_region_collision_check as (Some i) (r_start ?heap) newbrk \<noteq> 0 then Some (r_end ?heap, as)
       else Some (newbrk, ?g)
     else Some (r_end ?heap, as)) = Some (r, as')" unfolding heap_brk_def by simp
  then have "as' = as \<and> r = r_end ?heap \<or> r = newbrk \<and> as' = ?g
      \<and> as_region_collision_check as (Some i) (r_start ?heap) newbrk = 0"
    by (auto split: if_splits)
  then show thesis using that(1) [OF i] that(2) [OF i] by blast
qed


definition example_as :: addrspace where
  "example_as = \<lparr>region_list = [\<lparr>r_start = 0x1000, r_end = 0x1000, r_permissions = 3\<rparr>,
       \<lparr>r_start = 0x8FFFF000, r_end = 0x90000000, r_permissions = 3\<rparr>],
     region_stack = Some 1, region_heap = Some 0, vspace_addr = 0, vspace = 0, as_directory = None\<rparr>"


end
