(* ===== verification/FrameTable.thy ===== *)
theory FrameTable
  imports AddrSpace
begin

text \<open>
  The frame table (\<^verbatim>\<open>vm/frametable.c\<close>) and the mapping of pages (\<^verbatim>\<open>mapping.c\<close>). The allocation
  function \<^verbatim>\<open>frame_alloc\<close>, which falls back on the pager, is in the theory of the pager.
\<close>

section \<open>Definitions\<close>

definition seL4_PageBits :: nat where "seL4_PageBits = 12"
definition seL4_PageTableBits :: nat where "seL4_PageTableBits = 10"
definition seL4_PageDirBits :: nat where "seL4_PageDirBits = 14"
definition seL4_AllRights :: u32 where "seL4_AllRights = 7"
definition seL4_FailedLookup :: u32 where "seL4_FailedLookup = 6"
definition seL4_CapInitThreadPD :: u32 where "seL4_CapInitThreadPD = 3"
definition PHYSICAL_VSTART :: u32 where "PHYSICAL_VSTART = 0x20000000"
definition DEVICE_START :: u32 where "DEVICE_START = 0xB0000000"
definition HIGH_WATERMARK :: u32 where "HIGH_WATERMARK = 64"
definition LOW_WATERMARK :: u32 where "LOW_WATERMARK = 32"

definition ARTIFICIAL_FRAME_LIMIT :: u32 where
  "ARTIFICIAL_FRAME_LIMIT = 8 * BYTES_TO_4K_PAGES (BIT 20)"

definition ADDR_TO_INDEX :: "sos \<Rightarrow> u32 \<Rightarrow> u32" where
  "ADDR_TO_INDEX s paddr = drop_bit seL4_PageBits (paddr - ut_base s)"

definition INDEX_TO_ADDR :: "sos \<Rightarrow> u32 \<Rightarrow> u32" where
  "INDEX_TO_ADDR s index = ut_base s + push_bit seL4_PageBits index"

text \<open>\<^verbatim>\<open>mapping.c\<close>: error code, capability of a page table if one was created, state.\<close>

definition map_page_table :: "sos_env \<Rightarrow> u32 \<Rightarrow> u32 \<Rightarrow> sos \<Rightarrow> (u32 \<times> u32 \<times> sos) option" where
  "map_page_table E pd vaddr s = do {
     (pt_addr, s) \<leftarrow> sos_ut_alloc E seL4_PageTableBits s;
     if pt_addr = 0 then Some (1, 0, s)
     else
       let (err, pt_cap, s) = cspace_ut_retype_addr E pt_addr seL4_PageTableBits s in
       if err \<noteq> 0 then do {
         s \<leftarrow> sos_ut_free pt_addr seL4_PageTableBits s;
         Some (err, pt_cap, s) }
       else
         let (err, s) = ask E (K_pt_map pt_cap pd vaddr) s in Some (err, pt_cap, s) }"

definition map_page :: "sos_env \<Rightarrow> u32 \<Rightarrow> u32 \<Rightarrow> u32 \<Rightarrow> u32 \<Rightarrow> sos \<Rightarrow> (u32 \<times> u32 \<times> sos) option" where
  "map_page E frame_cap pd vaddr rights s =
     (let (err, s) = ask E (K_page_map frame_cap pd vaddr rights) s in
      if err = seL4_FailedLookup then do {
        (err, pt_cap, s) \<leftarrow> map_page_table E pd vaddr s;
        if err = 0 then
          let (err, s) = ask E (K_page_map frame_cap pd vaddr rights) s in Some (err, pt_cap, s)
        else Some (err, pt_cap, s) }
      else Some (err, 0, s))"

text \<open>
  \<^verbatim>\<open>map_device\<close>: one page per round until \<open>sz\<close> bytes are mapped; a failure panics. \<open>virt\<close> is the
  static variable with the next free device address.
\<close>

fun map_device_loop :: "sos_env \<Rightarrow> nat \<Rightarrow> u32 \<Rightarrow> u32 \<Rightarrow> sos \<Rightarrow> (u32 \<times> sos) option" where
  "map_device_loop E 0 phys virt s = Some (virt, s)"
| "map_device_loop E (Suc n) phys virt s =
     (let (err, frame_cap, s) = cspace_ut_retype_addr E phys seL4_PageBits s in
      if err \<noteq> 0 then None
      else do {
        (err, pt_cap, s) \<leftarrow> map_page E frame_cap seL4_CapInitThreadPD virt seL4_AllRights s;
        if err \<noteq> 0 then None
        else map_device_loop E n (phys + BIT seL4_PageBits) (virt + BIT seL4_PageBits) s })"

definition map_device :: "sos_env \<Rightarrow> u32 \<Rightarrow> u32 \<Rightarrow> u32 \<Rightarrow> sos \<Rightarrow> (u32 \<times> u32 \<times> sos) option" where
  "map_device E paddr sz virt s = do {
     (virt', s) \<leftarrow> map_device_loop E (unat (BYTES_TO_4K_PAGES sz)) paddr virt s;
     Some (virt, virt', s) }"

definition retype_and_map :: "sos_env \<Rightarrow> u32 \<Rightarrow> u32 \<Rightarrow> sos \<Rightarrow> (int \<times> u32 \<times> sos) option" where
  "retype_and_map E paddr vaddr s =
     (let (err, frame_cap, s) = cspace_ut_retype_addr E paddr seL4_PageBits s in
      if err \<noteq> 0 then Some (1, frame_cap, s)
      else do {
        (err, pt_cap, s) \<leftarrow> map_page E frame_cap seL4_CapInitThreadPD vaddr seL4_AllRights s;
        if err \<noteq> 0 then Some (1, frame_cap, s) else Some (0, frame_cap, s) })"

definition empty_entry :: frame_entry where
  "empty_entry = \<lparr>fe_cap = 0, fe_chance = FIRST_CHANCE, fe_pid = 0, fe_page_id = 0\<rparr>"

fun map_table_loop :: "sos_env \<Rightarrow> nat \<Rightarrow> u32 \<Rightarrow> u32 \<Rightarrow> sos \<Rightarrow> (int \<times> sos) option" where
  "map_table_loop E 0 paddr vaddr s = Some (0, s)"
| "map_table_loop E (Suc n) paddr vaddr s = do {
     (r, frame_cap, s) \<leftarrow> retype_and_map E paddr vaddr s;
     if r \<noteq> 0 then Some (1, s)
     else map_table_loop E n (paddr + PAGE_SIZE_4K) (vaddr + PAGE_SIZE_4K) s }"

text \<open>The table lies in fresh frames, which the kernel clears; an entry takes sixteen bytes.\<close>

definition frame_table_init :: "sos_env \<Rightarrow> u32 \<Rightarrow> nat \<Rightarrow> u32 \<Rightarrow> u32 \<Rightarrow> sos \<Rightarrow> (int \<times> sos) option" where
  "frame_table_init E paddr size_in_bits low high s =
     (if frame_table s \<noteq> None then Some (1, s)
      else map_table_loop E (unat (BYTES_TO_4K_PAGES (BIT size_in_bits))) paddr (PHYSICAL_VSTART + paddr)
             (s\<lparr>ut_top := high, ut_base := low, frame_table_max := ARTIFICIAL_FRAME_LIMIT,
                frame_table := Some (replicate (2 ^ size_in_bits div 16) empty_entry)\<rparr>))"

text \<open>
  The checks shared by the accessors: the table exists, the index is in range, the entry has a
  capability. The outer option is the array access.
\<close>

definition frame_checked :: "u32 \<Rightarrow> sos \<Rightarrow> (frame_entry list \<times> frame_entry) option option" where
  "frame_checked frame_id s =
     (case frame_table s of
        None \<Rightarrow> Some None
      | Some ft \<Rightarrow>
          if \<not> ISINRANGE 0 frame_id (ADDR_TO_INDEX s (ut_top s)) then Some None
          else do {
            e \<leftarrow> arr_get ft (uint frame_id);
            if fe_cap e = 0 then Some None else Some (Some (ft, e)) })"

definition frame_table_get_capability :: "u32 \<Rightarrow> sos \<Rightarrow> u32 option" where
  "frame_table_get_capability frame_id s =
     (case frame_table s of
        None \<Rightarrow> Some 0
      | Some ft \<Rightarrow>
          if \<not> ISINRANGE 0 frame_id (ADDR_TO_INDEX s (ut_top s)) then Some 0
          else do { e \<leftarrow> arr_get ft (uint frame_id); Some (fe_cap e) })"

definition frame_table_paddr_to_sos_vaddr :: "u32 \<Rightarrow> u32" where
  "frame_table_paddr_to_sos_vaddr paddr = paddr + PHYSICAL_VSTART"

definition frame_table_index_to_sos_vaddr :: "u32 \<Rightarrow> sos \<Rightarrow> u32" where
  "frame_table_index_to_sos_vaddr frame_id s = frame_table_paddr_to_sos_vaddr (INDEX_TO_ADDR s frame_id)"

definition frame_table_sos_vaddr_to_index :: "u32 \<Rightarrow> sos \<Rightarrow> u32" where
  "frame_table_sos_vaddr_to_index sos_vaddr s = ADDR_TO_INDEX s (sos_vaddr - PHYSICAL_VSTART)"

text \<open>The limits are left alone, here absent, when the table does not exist.\<close>

definition frame_table_get_limits :: "sos \<Rightarrow> (u32 \<times> u32) option" where
  "frame_table_get_limits s = (if frame_table s = None then None else Some (0, frame_table_max s))"

definition frame_table_get_chance :: "u32 \<Rightarrow> sos \<Rightarrow> chance_type option option" where
  "frame_table_get_chance frame_id s = do {
     c \<leftarrow> frame_checked frame_id s;
     Some (map_option (\<lambda>(ft, e). fe_chance e) c) }"

definition frame_table_set_chance :: "u32 \<Rightarrow> chance_type \<Rightarrow> sos \<Rightarrow> (int \<times> sos) option" where
  "frame_table_set_chance frame_id chance s = do {
     c \<leftarrow> frame_checked frame_id s;
     case c of
       None \<Rightarrow> Some (1, s)
     | Some (ft, e) \<Rightarrow> do {
         ft \<leftarrow> arr_set ft (uint frame_id) (e\<lparr>fe_chance := chance\<rparr>);
         Some (0, s\<lparr>frame_table := Some ft\<rparr>) } }"

definition frame_table_set_page_id :: "u32 \<Rightarrow> u32 \<Rightarrow> u32 \<Rightarrow> sos \<Rightarrow> (int \<times> sos) option" where
  "frame_table_set_page_id frame_id p page_id s = do {
     c \<leftarrow> frame_checked frame_id s;
     case c of
       None \<Rightarrow> Some (1, s)
     | Some (ft, e) \<Rightarrow> do {
         ft \<leftarrow> arr_set ft (uint frame_id) (e\<lparr>fe_pid := p, fe_page_id := page_id\<rparr>);
         Some (0, s\<lparr>frame_table := Some ft\<rparr>) } }"

definition frame_table_get_page_id :: "u32 \<Rightarrow> sos \<Rightarrow> (u32 \<times> u32) option option" where
  "frame_table_get_page_id frame_id s = do {
     c \<leftarrow> frame_checked frame_id s;
     Some (map_option (\<lambda>(ft, e). (fe_pid e, fe_page_id e)) c) }"

text \<open>The loop of \<^verbatim>\<open>_frame_alloc\<close>: \<^const>\<open>False\<close> when a page could not be made.\<close>

fun frame_alloc_loop :: "sos_env \<Rightarrow> nat \<Rightarrow> u32 \<Rightarrow> u32 \<Rightarrow> sos \<Rightarrow> (bool \<times> sos) option" where
  "frame_alloc_loop E 0 paddr vaddr s = Some (True, s)"
| "frame_alloc_loop E (Suc n) paddr vaddr s = do {
     (r, frame_cap, s) \<leftarrow> retype_and_map E paddr vaddr s;
     if r \<noteq> 0 then Some (False, s)
     else do {
       let p_id = ADDR_TO_INDEX s paddr;
       ft \<leftarrow> frame_table s;
       e \<leftarrow> arr_get ft (uint p_id);
       c_assert (fe_cap e = 0);
       c_assert (fe_chance e = FIRST_CHANCE);
       ft \<leftarrow> arr_set ft (uint p_id) \<lparr>fe_cap = frame_cap, fe_chance = FIRST_CHANCE, fe_pid = 0, fe_page_id = 0\<rparr>;
       frame_alloc_loop E n (paddr + PAGE_SIZE_4K) (vaddr + PAGE_SIZE_4K)
         (s\<lparr>frame_table := Some ft, frame_table_cnt := frame_table_cnt s + 1\<rparr>) } }"

text \<open>Result: the frame identifier (\<open>-1\<close> on failure), and the value left in \<^verbatim>\<open>*vaddr\<close>.\<close>

definition frame_alloc_ut :: "sos_env \<Rightarrow> u32 \<Rightarrow> sos \<Rightarrow> (u32 \<times> u32 \<times> sos) option" where
  "frame_alloc_ut E nframes s = do {
     (paddr, s) \<leftarrow> sos_ut_alloc E (seL4_PageBits + LOG_BASE_2 nframes) s;
     if paddr = 0 then Some (- 1, 0, s)
     else do {
       let top_frame_id = ADDR_TO_INDEX s paddr;
       let vaddr = PHYSICAL_VSTART + paddr;
       (ok, s) \<leftarrow> frame_alloc_loop E (unat nframes) paddr vaddr s;
       if \<not> ok then Some (- 1, 0, s)
       else Some (top_frame_id, vaddr, s\<lparr>mem := bzero vaddr (PAGE_SIZE_4K * nframes) (mem s)\<rparr>) } }"

definition multi_frame_alloc :: "sos_env \<Rightarrow> u32 \<Rightarrow> sos \<Rightarrow> (u32 \<times> u32 \<times> sos) option" where
  "multi_frame_alloc E nframes s =
     (if frame_table s = None then Some (- 1, 0, s) else frame_alloc_ut E nframes s)"

definition frame_free_ut :: "sos_env \<Rightarrow> u32 \<Rightarrow> sos \<Rightarrow> sos option" where
  "frame_free_ut E frame_id s = do {
     ft \<leftarrow> frame_table s;
     e \<leftarrow> arr_get ft (uint frame_id);
     ft \<leftarrow> arr_set ft (uint frame_id) empty_entry;
     let s = s\<lparr>frame_table := Some ft\<rparr>;
     if fe_cap e = 0 then Some s
     else
       let (_, s) = ask E (K_page_unmap (fe_cap e)) s;
           s = s\<lparr>frame_table_cnt := frame_table_cnt s - 1\<rparr>;
           (_, s) = ask E (K_delete_cap (fe_cap e)) s
       in sos_ut_free (INDEX_TO_ADDR s frame_id) seL4_PageBits s }"

definition frame_free :: "sos_env \<Rightarrow> u32 \<Rightarrow> sos \<Rightarrow> sos option" where
  "frame_free E frame_id s = do {
     c \<leftarrow> frame_checked frame_id s;
     case c of
       None \<Rightarrow> Some s
     | Some _ \<Rightarrow>
         if free_index s < HIGH_WATERMARK then do {
           ff \<leftarrow> arr_set (free_frames s) (uint (free_index s)) frame_id;
           Some (s\<lparr>free_frames := ff, free_index := free_index s + 1\<rparr>) }
         else do {
           s \<leftarrow> frame_free_ut E frame_id s;
           s \<leftarrow> for_loop (\<lambda>i s. do { f \<leftarrow> arr_get (free_frames s) (int i); frame_free_ut E f s })
                  (unat HIGH_WATERMARK - unat LOW_WATERMARK) (unat LOW_WATERMARK) s;
           Some (s\<lparr>free_index := LOW_WATERMARK\<rparr>) } }"

end
