(* ===== verification/PageDir.thy ===== *)
theory PageDir
  imports FrameTable
begin

text \<open>
  The two-level page tables of \<^verbatim>\<open>vm/vm.c\<close>: lookup and eviction of entries, which the pager uses.
  Tables are pages of the server's memory, addressed by the pointers the code stores.
\<close>

section \<open>Definitions\<close>

definition EVICTED_BIT :: u32 where
  "EVICTED_BIT = BIT 31"

definition IS_EVICTED :: "u32 \<Rightarrow> bool" where
  "IS_EVICTED x \<longleftrightarrow> x AND EVICTED_BIT \<noteq> 0"

definition DIRECTORY_INDEX :: "u32 \<Rightarrow> u32" where
  "DIRECTORY_INDEX x = drop_bit 22 (x AND push_bit 22 (BIT 10 - 1))"

definition TABLE_INDEX :: "u32 \<Rightarrow> u32" where
  "TABLE_INDEX x = drop_bit 12 (x AND push_bit 12 (BIT 10 - 1))"

definition CAP_INDEX :: "u32 \<Rightarrow> u32" where
  "CAP_INDEX x = drop_bit 20 (x AND push_bit 20 (BIT 12 - 1))"

text \<open>A process by its slot in the table; the range test admits the slot one past the end.\<close>

definition MAX_PROCS :: nat where "MAX_PROCS = 16"

definition get_proc :: "int \<Rightarrow> sos \<Rightarrow> proc option option" where
  "get_proc p s = (if \<not> ISINRANGE 0 p (int MAX_PROCS) then Some None else arr_get (sos_procs s) p)"

definition page_directory_lookup :: "page_directory option \<Rightarrow> u32 \<Rightarrow> sos \<Rightarrow> u32 option option" where
  "page_directory_lookup dir page_id s = do {
     al \<leftarrow> IS_ALIGNED_4K page_id;
     c_assert al;
     case dir of
       None \<Rightarrow> Some None
     | Some d \<Rightarrow>
         if directory d = 0 then Some None
         else
           let second_level = load32 (mem s) (directory d + 4 * DIRECTORY_INDEX page_id) in
           if second_level = 0 then Some None
           else
             let page = load32 (mem s) (second_level + 4 * TABLE_INDEX page_id) in
             if page = 0 then Some None else Some (Some page) }"

definition page_directory_evict :: "sos_env \<Rightarrow> page_directory option \<Rightarrow> u32 \<Rightarrow> u32 \<Rightarrow> sos \<Rightarrow> (int \<times> sos) option" where
  "page_directory_evict E dir page_id free_id s = do {
     al \<leftarrow> IS_ALIGNED_4K page_id;
     c_assert al;
     case dir of
       None \<Rightarrow> Some (1, s)
     | Some d \<Rightarrow>
         if directory d = 0 then Some (1, s)
         else do {
           let second_level = load32 (mem s) (directory d + 4 * DIRECTORY_INDEX page_id);
           if second_level = 0 then Some (1, s)
           else do {
             let entry = second_level + 4 * TABLE_INDEX page_id;
             let cap = load32 (mem s) entry;
             if cap = 0 then Some (1, s)
             else do {
               c_assert (\<not> IS_EVICTED cap);
               if IS_EVICTED free_id then Some (1, s)
               else
                 let s = s\<lparr>mem := store32 entry free_id (mem s)\<rparr>;
                     s = s\<lparr>mem := store32 entry (load32 (mem s) entry OR EVICTED_BIT) (mem s)\<rparr>;
                     (_, s) = ask E (K_page_unmap cap) s;
                     (_, s) = ask E (K_delete_cap cap) s
                 in Some (0, s) } } } }"

section \<open>Indices\<close>

lemma unat_bits_field:
  fixes x :: u32
  assumes "a + n \<le> 32"
  shows "unat (drop_bit a (x AND push_bit a (BIT n - 1))) = unat x div 2 ^ a mod 2 ^ n"
proof -
  have "drop_bit a (x AND push_bit a (BIT n - 1)) = drop_bit a x AND (BIT n - 1)"
    using assms by (intro bit_word_eqI) (auto simp: bit_simps dest: bit_imp_le_length [of x])
  then have "unat (drop_bit a (x AND push_bit a (BIT n - 1))) = unat (drop_bit a x) mod 2 ^ n"
    by (simp only: BIT_def word_and_mask)
  also have "unat (drop_bit a x) = unat x div 2 ^ a" unfolding unat_drop_bit_eq by (rule drop_bit_eq_div)
  finally show ?thesis .
qed

lemma unat_DIRECTORY_INDEX: "unat (DIRECTORY_INDEX x) = unat x div 2 ^ 22"
proof -
  have "unat x div 2 ^ 22 < 2 ^ 10" using unat_bound [of x] by (simp add: div_less_iff_less_mult)
  then show ?thesis unfolding DIRECTORY_INDEX_def using unat_bits_field [of 22 10 x] by simp
qed

lemma unat_TABLE_INDEX: "unat (TABLE_INDEX x) = unat x div 2 ^ 12 mod 2 ^ 10"
  unfolding TABLE_INDEX_def using unat_bits_field [of 12 10 x] by simp

lemma unat_CAP_INDEX: "unat (CAP_INDEX x) = unat x div 2 ^ 20"
proof -
  have "unat x div 2 ^ 20 < 2 ^ 12" using unat_bound [of x] by (simp add: div_less_iff_less_mult)
  then show ?thesis unfolding CAP_INDEX_def using unat_bits_field [of 20 12 x] by simp
qed

text \<open>The two indices determine a page.\<close>

lemma page_index_inject:
  assumes "DIRECTORY_INDEX p = DIRECTORY_INDEX q" "TABLE_INDEX p = TABLE_INDEX q"
    and "unat p mod 4096 = 0" "unat q mod 4096 = 0"
  shows "p = q"
proof -
  have "unat p div 4096 div 1024 = unat q div 4096 div 1024" "unat p div 4096 mod 1024 = unat q div 4096 mod 1024"
    using assms(1,2) unat_DIRECTORY_INDEX [of p] unat_DIRECTORY_INDEX [of q] unat_TABLE_INDEX [of p] unat_TABLE_INDEX [of q]
    by (simp_all add: div_mult2_eq [symmetric])
  then have "unat p div 4096 = unat q div 4096" by (metis div_mult_mod_eq)
  then show ?thesis using assms(3,4) by (metis div_mult_mod_eq word_unat_eq_iff)
qed

end
