(* ===== verification/Nfs.thy ===== *)
theory Nfs
  imports PageDir
begin

text \<open>
  Vnodes, mount points and the device name space (\<^verbatim>\<open>vfs/vfs.c\<close>, \<^verbatim>\<open>vfs/device.c\<close>), and the NFS file system
  (\<^verbatim>\<open>fs/sos_nfs.c\<close>). Vnodes are allocated in a store; a freed vnode is absent from it. An NFS
  request is answered by a callback that runs while the requesting coroutine has yielded: its effect
  is modelled right after the yield, with the status, counts, handles and data of the reply coming
  from the environment.
\<close>

section \<open>Definitions\<close>

definition O_RDONLY :: u32 where "O_RDONLY = 0"
definition O_WRONLY :: u32 where "O_WRONLY = 1"
definition O_RDWR :: u32 where "O_RDWR = 2"
definition RPC_OK :: u32 where "RPC_OK = 0"
definition NFS_OK :: u32 where "NFS_OK = 0"

definition vnode_create :: "sos_env \<Rightarrow> u32 \<Rightarrow> vnode_ops \<Rightarrow> u32 \<Rightarrow> u32 \<Rightarrow> sos \<Rightarrow> vptr option \<times> sos" where
  "vnode_create E data ops rc wc s =
     (let (ok, s) = do_malloc E s in
      if \<not> ok then (None, s)
      else (Some (next_vptr s),
            s\<lparr>vnodes := (vnodes s)(next_vptr s \<mapsto> \<lparr>vn_data = data, vn_ops = ops, readcount = rc, writecount = wc\<rparr>),
              next_vptr := next_vptr s + 1\<rparr>))"

definition vfs_mount :: "sos_env \<Rightarrow> vptr \<Rightarrow> sos \<Rightarrow> int \<times> sos" where
  "vfs_mount E v s =
     (let (ok, s) = do_malloc E s in
      if \<not> ok then (1, s) else (0, s\<lparr>mount_points := mount_points s @ [v]\<rparr>))"

definition vfs_init :: "sos_env \<Rightarrow> sos \<Rightarrow> int \<times> sos" where
  "vfs_init E s =
     (let (v, s) = vnode_create E 0 device_vnode_ops 0 0 s in
      case v of
        None \<Rightarrow> (1, s)
      | Some v \<Rightarrow> let (r, s) = vfs_mount E v s in if r \<noteq> 0 then (1, s) else (0, s))"

definition device_register :: "sos_env \<Rightarrow> string \<Rightarrow> vptr \<Rightarrow> sos \<Rightarrow> int \<times> sos" where
  "device_register E name v s =
     (let (ok, s) = do_malloc E s in
      if \<not> ok then (1, s) else (0, s\<lparr>devices := (name, v) # devices s\<rparr>))"

fun device_scan :: "string \<Rightarrow> (string \<times> vptr) list \<Rightarrow> vptr option" where
  "device_scan name [] = None"
| "device_scan name ((n, v) # ds) = (if name = n then Some v else device_scan name ds)"

definition device_lookup :: "string \<Rightarrow> sos \<Rightarrow> vptr option" where
  "device_lookup name s = device_scan name (devices s)"

text \<open>Every entry gets the name at the head of the list; the count is added to what \<^verbatim>\<open>*nfiles\<close> held.\<close>

definition device_list :: "sos_env \<Rightarrow> nat \<Rightarrow> sos \<Rightarrow> (string list option \<times> nat \<times> sos) option" where
  "device_list E nfiles s =
     (let nfiles = nfiles + length (devices s); (ok, s) = do_malloc E s in
      if \<not> ok then Some (None, nfiles, s)
      else Some (Some (map (\<lambda>_. fst (hd (devices s))) (devices s)), nfiles, s))"

text \<open>\<^verbatim>\<open>sos_nfs_lookup_callback\<close>: a vnode for the handle of the reply, if there is one.\<close>

definition sos_nfs_lookup_callback :: "sos_env \<Rightarrow> sos \<Rightarrow> vptr option \<times> sos" where
  "sos_nfs_lookup_callback E s =
     (let (status, s) = ask E K_nfs_status s in
      if status \<noteq> NFS_OK then (None, s)
      else
        let (ok, s) = do_malloc E s in
        if \<not> ok then (None, s)
        else let (fh, s) = ask E K_nfs_handle s in vnode_create E fh nfs_vnode_ops 0 0 s)"

definition sos_nfs_lookup :: "sos_env \<Rightarrow> string \<Rightarrow> bool \<Rightarrow> sos \<Rightarrow> int \<times> vptr option \<times> sos" where
  "sos_nfs_lookup E name create_file s =
     (let (_, s) = ask E (K_nfs_lookup name) s;
          (v, s) = sos_nfs_lookup_callback E (coro_yield E s) in
      if v = None then
        if create_file then
          let (_, s) = ask E (K_nfs_create name) s;
              (v, s) = sos_nfs_lookup_callback E (coro_yield E s)
          in (0, v, s)
        else (1, None, s)
      else (0, v, s))"

text \<open>\<^verbatim>\<open>sos_nfs_readdir_callback\<close>: \<open>0\<close>, or \<open>-1\<close> when the directory could not be read or stored.\<close>

definition sos_nfs_readdir_callback :: "sos_env \<Rightarrow> sos \<Rightarrow> u32 \<times> sos" where
  "sos_nfs_readdir_callback E s =
     (let (status, s) = ask E K_nfs_status s in
      if status \<noteq> NFS_OK then (- 1, s)
      else
        let names = nfs_names E (klog s); (ok, s) = do_malloc E s in
        if \<not> ok then (- 1, s)
        else let (cookie, s) = ask E K_nfs_cookie s in (0, s\<lparr>global_dir := names, global_cookie := cookie\<rparr>))"

partial_function (option) nfs_list_loop :: "sos_env \<Rightarrow> string list \<Rightarrow> sos \<Rightarrow> (string list option \<times> sos) option" where
  [code]: "nfs_list_loop E big_list s =
     (let (rpc, s) = ask E (K_nfs_readdir (global_cookie s)) s in
      if rpc \<noteq> RPC_OK then Some (None, s)
      else
        let (ret, s) = sos_nfs_readdir_callback E (coro_yield E s) in
        if ret \<noteq> 0 then Some (None, s)
        else
          let big_list = big_list @ global_dir s in
          if global_cookie s \<noteq> 0 then nfs_list_loop E big_list s else Some (Some big_list, s))"

definition sos_nfs_list :: "sos_env \<Rightarrow> sos \<Rightarrow> (string list option \<times> sos) option" where
  "sos_nfs_list E s =
     (let (ok, s) = do_malloc E s in if \<not> ok then Some (None, s) else nfs_list_loop E [] s)"

definition sos_nfs_open :: "vptr \<Rightarrow> u32 \<Rightarrow> sos \<Rightarrow> (int \<times> sos) option" where
  "sos_nfs_open v m s = do {
     node \<leftarrow> vnodes s v;
     let node = (if m = O_RDONLY \<or> m = O_RDWR then node\<lparr>readcount := readcount node + 1\<rparr> else node);
     let node = (if m = O_RDONLY then node else node\<lparr>writecount := writecount node + 1\<rparr>);
     Some (0, s\<lparr>vnodes := (vnodes s)(v \<mapsto> node)\<rparr>) }"

definition sos_nfs_write_callback :: "u32 \<Rightarrow> u32 \<Rightarrow> u32" where
  "sos_nfs_write_callback status cnt = (if status \<noteq> NFS_OK then - 1 else cnt)"

partial_function (option) nfs_write_loop :: "sos_env \<Rightarrow> u32 \<Rightarrow> uiovec \<Rightarrow> sos \<Rightarrow> (bool \<times> uiovec \<times> sos) option" where
  [code]: "nfs_write_loop E fh iov s =
     (if uiov_len iov > 0 then
        let (rpc, s) = ask E (K_nfs_write fh (uiov_pos iov) (load_bytes (mem s) (uiov_base iov) (unat (uiov_len iov)))) s in
        if rpc \<noteq> RPC_OK then Some (False, iov, s)
        else
          let (status, s) = ask E K_nfs_status (coro_yield E s);
              (cnt, s) = ask E K_nfs_count s;
              ret = sos_nfs_write_callback status cnt in
          if ret = 0 \<or> ret = - 1 then Some (True, iov, s)
          else nfs_write_loop E fh
                 \<lparr>uiov_base = uiov_base iov + ret, uiov_len = uiov_len iov - ret, uiov_pos = uiov_pos iov + ret\<rparr> s
      else Some (True, iov, s))"

text \<open>The number of bytes written, or \<open>-1\<close>.\<close>

definition sos_nfs_write :: "sos_env \<Rightarrow> u32 \<Rightarrow> uiovec \<Rightarrow> sos \<Rightarrow> (u32 \<times> sos) option" where
  "sos_nfs_write E fh iov s = do {
     (ok, iov', s) \<leftarrow> nfs_write_loop E fh iov s;
     Some (if ok then uiov_len iov - uiov_len iov' else - 1, s) }"

text \<open>\<^verbatim>\<open>sos_nfs_read_callback\<close>: the data of the reply are copied to the current base address.\<close>

definition sos_nfs_read_callback :: "sos_env \<Rightarrow> uiovec \<Rightarrow> sos \<Rightarrow> u32 \<times> sos" where
  "sos_nfs_read_callback E iov s =
     (let (status, s) = ask E K_nfs_status s in
      if status \<noteq> NFS_OK then (- 1, s)
      else
        let (cnt, s) = ask E K_nfs_count s;
            data = map (nfs_byte E (klog s)) [0..<unat cnt]
        in (cnt, s\<lparr>mem := store_bytes (uiov_base iov) data (mem s)\<rparr>))"

partial_function (option) nfs_read_loop :: "sos_env \<Rightarrow> u32 \<Rightarrow> uiovec \<Rightarrow> sos \<Rightarrow> (bool \<times> uiovec \<times> sos) option" where
  [code]: "nfs_read_loop E fh iov s =
     (if uiov_len iov > 0 then
        let (rpc, s) = ask E (K_nfs_read fh (uiov_pos iov) (uiov_len iov)) s in
        if rpc \<noteq> RPC_OK then Some (False, iov, s)
        else
          let (ret, s) = sos_nfs_read_callback E iov (coro_yield E s) in
          if ret = 0 \<or> ret = - 1 then Some (True, iov, s)
          else nfs_read_loop E fh
                 \<lparr>uiov_base = uiov_base iov + ret, uiov_len = uiov_len iov - ret, uiov_pos = uiov_pos iov + ret\<rparr> s
      else Some (True, iov, s))"

definition sos_nfs_read :: "sos_env \<Rightarrow> u32 \<Rightarrow> uiovec \<Rightarrow> sos \<Rightarrow> (u32 \<times> sos) option" where
  "sos_nfs_read E fh iov s =
     (let (ok, s) = do_malloc E s in
      if \<not> ok then Some (- 1, s)
      else do {
        (ok, iov', s) \<leftarrow> nfs_read_loop E fh iov s;
        Some (if ok then uiov_len iov - uiov_len iov' else - 1, s) })"

text \<open>Times in milliseconds, computed at 64 bits and cut to the 32 bits of a \<^verbatim>\<open>long\<close>.\<close>

definition nfs_time :: "u32 \<times> u32 \<Rightarrow> u32" where
  "nfs_time t = ucast (ucast (fst t) * 1000 + ucast (snd t) div 1000 :: u64)"

definition sos_nfs_getattr_callback :: "sos_env \<Rightarrow> sos \<Rightarrow> sos_stat_t option \<times> sos" where
  "sos_nfs_getattr_callback E s =
     (let (status, s) = ask E K_nfs_status s in
      if status \<noteq> NFS_OK then (None, s)
      else
        let fa = nfs_attr E (klog s); (ok, s) = do_malloc E s in
        if \<not> ok then (None, s)
        else (Some \<lparr>st_type = fa_type fa, st_fmode = fa_mode fa, st_size = fa_size fa,
                    st_ctime = nfs_time (fa_ctime fa), st_atime = nfs_time (fa_atime fa)\<rparr>, s))"

definition sos_nfs_stat :: "sos_env \<Rightarrow> vptr \<Rightarrow> sos \<Rightarrow> (int \<times> sos_stat_t option \<times> sos) option" where
  "sos_nfs_stat E v s = do {
     node \<leftarrow> vnodes s v;
     let (rpc, s) = ask E (K_nfs_getattr (vn_data node)) s;
     if rpc \<noteq> RPC_OK then Some (1, None, s)
     else
       let (st, s) = sos_nfs_getattr_callback E (coro_yield E s) in
       Some (if st = None then 1 else 0, st, s) }"

text \<open>The vnode is freed when the counts are \<^emph>\<open>not\<close> both zero.\<close>

definition sos_nfs_close :: "vptr \<Rightarrow> u32 \<Rightarrow> sos \<Rightarrow> (int \<times> sos) option" where
  "sos_nfs_close v m s = do {
     node \<leftarrow> vnodes s v;
     let node = (if m = O_RDONLY \<or> m = O_RDWR then node\<lparr>readcount := readcount node - 1\<rparr> else node);
     let node = (if m = O_RDONLY then node else node\<lparr>writecount := writecount node - 1\<rparr>);
     if readcount node > 0 \<or> writecount node > 0
     then Some (0, s\<lparr>vnodes := (vnodes s)(v := None)\<rparr>)
     else Some (0, s\<lparr>vnodes := (vnodes s)(v \<mapsto> node)\<rparr>) }"

text \<open>Function pointers of the two timer callbacks.\<close>

definition nfs_timer_second_stage_ptr :: u32 where "nfs_timer_second_stage_ptr = 1"
definition nfs_timer_callback_ptr :: u32 where "nfs_timer_callback_ptr = 2"

definition sos_nfs_init :: "sos_env \<Rightarrow> sos \<Rightarrow> (int \<times> sos) option" where
  "sos_nfs_init E s =
     (let (v, s) = vnode_create E 0 nfs_dir_ops 0 0 s in
      case v of
        None \<Rightarrow> Some (1, s)
      | Some v \<Rightarrow> do {
          (i, clk) \<leftarrow> register_timer (clk_env E) 1000000 nfs_timer_second_stage_ptr 0 (clock s);
          let s = s\<lparr>clock := clk\<rparr>;
          if i = 0 then Some (1, s)
          else let (r, s) = vfs_mount E v s in if r \<noteq> 0 then Some (1, s) else Some (0, s) })"

definition sos_nfs_timer_second_stage :: "clock_env \<Rightarrow> clock_state \<Rightarrow> clock_state option" where
  "sos_nfs_timer_second_stage ce st = do {
     (i, st) \<leftarrow> register_repeating_timer ce (MILLISECONDS 100) nfs_timer_callback_ptr 0 st;
     c_assert (i \<noteq> 0);
     Some st }"

section \<open>Writing to the server\<close>

text \<open>
  The contents of a file on the server, replayed from the log: a write counts with the number of bytes
  its reply reports.
\<close>

definition accepted_write :: "sos_env \<Rightarrow> u32 \<Rightarrow> kcall list \<Rightarrow> (nat \<times> u8 list) option" where
  "accepted_write E fh log =
     (if 3 \<le> length log \<and> log ! 0 = K_nfs_count \<and> log ! 1 = K_nfs_status then
        case log ! 2 of
          K_nfs_write h pos data \<Rightarrow>
            if h = fh \<and> answer E (drop 2 log) K_nfs_status = NFS_OK
            then Some (unat pos, take (unat (answer E (drop 1 log) K_nfs_count)) data) else None
        | _ \<Rightarrow> None
      else None)"

fun server_file :: "sos_env \<Rightarrow> u32 \<Rightarrow> kcall list \<Rightarrow> (nat \<Rightarrow> u8) \<Rightarrow> nat \<Rightarrow> u8" where
  "server_file E fh [] f = f"
| "server_file E fh (c # log) f =
     (case accepted_write E fh (c # log) of
        None \<Rightarrow> server_file E fh log f
      | Some (pos, data) \<Rightarrow> (\<lambda>i. if pos \<le> i \<and> i < pos + length data then data ! (i - pos) else server_file E fh log f i))"

text \<open>A server that takes the call, reports success and accepts between one and all of the bytes offered.\<close>

definition accepting :: "sos_env \<Rightarrow> bool" where
  "accepting E \<longleftrightarrow> (\<forall>log s. interfere E log s = s) \<and>
     (\<forall>log fh pos data. answer E log (K_nfs_write fh pos data) = RPC_OK \<and>
        answer E (K_nfs_write fh pos data # log) K_nfs_status = NFS_OK \<and>
        (let n = unat (answer E (K_nfs_status # K_nfs_write fh pos data # log) K_nfs_count)
         in 0 < n \<and> n \<le> max 1 (length data) \<and> n < 2 ^ 31))"

lemma load_bytes_nth: "i < n \<Longrightarrow> load_bytes m a n ! i = m (a + of_nat i)"
proof (induction n arbitrary: a i)
  case (Suc n)
  then show ?case by (cases i) (simp_all add: ac_simps)
qed simp

lemma server_file_write:
  assumes "answer E (K_nfs_write fh pos data # log) K_nfs_status = NFS_OK"
    and "n = unat (answer E (K_nfs_status # K_nfs_write fh pos data # log) K_nfs_count)" "n \<le> length data"
  shows "server_file E fh (K_nfs_count # K_nfs_status # K_nfs_write fh pos data # log) f i =
    (if unat pos \<le> i \<and> i < unat pos + n then data ! (i - unat pos) else server_file E fh log f i)"
  using assms by (auto simp: accepted_write_def)

lemma nfs_write_loop_accepting:
  assumes "accepting E"
  shows "unat (uiov_pos iov) + unat (uiov_len iov) < 2 ^ 32 \<Longrightarrow>
    \<exists>iov' s'. nfs_write_loop E fh iov s = Some (True, iov', s') \<and> uiov_len iov' = 0 \<and> mem s' = mem s \<and>
      (\<forall>f i. server_file E fh (klog s') f i =
        (if unat (uiov_pos iov) \<le> i \<and> i < unat (uiov_pos iov) + unat (uiov_len iov)
         then mem s (uiov_base iov + of_nat (i - unat (uiov_pos iov))) else server_file E fh (klog s) f i))"
proof (induction "unat (uiov_len iov)" arbitrary: iov s rule: less_induct)
  case less
  show ?case
  proof (cases "uiov_len iov = 0")
    case True
    then show ?thesis by (subst nfs_write_loop.simps) auto
  next
    case False
    define data where "data = load_bytes (mem s) (uiov_base iov) (unat (uiov_len iov))"
    define w where "w = K_nfs_write fh (uiov_pos iov) data"
    define ret where "ret = answer E (K_nfs_status # w # klog s) K_nfs_count"
    define iov1 where "iov1 = \<lparr>uiov_base = uiov_base iov + ret, uiov_len = uiov_len iov - ret, uiov_pos = uiov_pos iov + ret\<rparr>"
    define s1 where "s1 = s\<lparr>klog := K_nfs_count # K_nfs_status # w # klog s\<rparr>"
    have pos: "0 < unat (uiov_len iov)" using False by (simp add: unat_gt_0)
    have st: "answer E (klog s) w = RPC_OK" "answer E (w # klog s) K_nfs_status = NFS_OK" "interfere E l t = t" for l t
      using assms by (simp_all add: accepting_def w_def)
    have "0 < unat ret \<and> unat ret \<le> max 1 (length data) \<and> unat ret < 2 ^ 31"
      using assms unfolding accepting_def ret_def w_def Let_def by blast
    then have r: "0 < unat ret" "unat ret \<le> unat (uiov_len iov)" "unat ret < 2 ^ 31" using pos by (auto simp: data_def)
    have ne: "ret \<noteq> 0" "ret \<noteq> - 1" using r(1,3) by (auto simp: unsigned_minus_1_eq_mask mask_eq_exp_minus_1)
    have step: "nfs_write_loop E fh iov s = nfs_write_loop E fh iov1 s1"
      by (subst nfs_write_loop.simps)
        (use False st ne in \<open>simp add: ask_def coro_yield_def sos_nfs_write_callback_def data_def w_def ret_def iov1_def s1_def word_gt_0 Let_def\<close>)
    have len1: "unat (uiov_len iov1) = unat (uiov_len iov) - unat ret" using r(2) by (simp add: iov1_def unat_sub word_le_nat_alt)
    have pos1: "unat (uiov_pos iov1) = unat (uiov_pos iov) + unat ret"
      using r(2) less.prems by (simp add: iov1_def unat_word_ariths)
    obtain iov' s' where IH: "nfs_write_loop E fh iov1 s1 = Some (True, iov', s')" "uiov_len iov' = 0" "mem s' = mem s1"
      "\<And>f i. server_file E fh (klog s') f i =
        (if unat (uiov_pos iov1) \<le> i \<and> i < unat (uiov_pos iov1) + unat (uiov_len iov1)
         then mem s1 (uiov_base iov1 + of_nat (i - unat (uiov_pos iov1))) else server_file E fh (klog s1) f i)"
      using less.hyps [of iov1 s1] less.prems r len1 pos1 by force
    have "server_file E fh (klog s') f i =
        (if unat (uiov_pos iov) \<le> i \<and> i < unat (uiov_pos iov) + unat (uiov_len iov)
         then mem s (uiov_base iov + of_nat (i - unat (uiov_pos iov))) else server_file E fh (klog s) f i)" for f i
    proof -
      have now: "server_file E fh (klog s1) f i = (if unat (uiov_pos iov) \<le> i \<and> i < unat (uiov_pos iov) + unat ret
          then data ! (i - unat (uiov_pos iov)) else server_file E fh (klog s) f i)"
        using server_file_write [of E fh "uiov_pos iov" data "klog s" "unat ret"] st r
        by (simp add: s1_def w_def ret_def data_def)
      have later: "uiov_base iov1 + of_nat (i - unat (uiov_pos iov1)) = uiov_base iov + of_nat (i - unat (uiov_pos iov))"
        if "unat (uiov_pos iov) + unat ret \<le> i"
      proof -
        have "i - unat (uiov_pos iov) = unat ret + (i - unat (uiov_pos iov1))" using that pos1 by simp
        then have "(of_nat (i - unat (uiov_pos iov)) :: u32) = ret + of_nat (i - unat (uiov_pos iov1))" by simp
        then show ?thesis by (simp add: iov1_def)
      qed
      show ?thesis
        unfolding IH(4) now using later r(2) pos1 len1 by (auto simp: data_def load_bytes_nth s1_def simp del: of_nat_diff)
    qed
    then show ?thesis using IH(1-3) step by (auto simp: s1_def)
  qed
qed


text \<open>The global variables before initialisation, and a server that takes three bytes at a time.\<close>

definition initial_sos :: sos where
  "initial_sos = \<lparr>frame_table = None, ut_base = 0, ut_top = 0, frame_table_max = 0, frame_table_cnt = 0,
     free_frames = replicate 64 0, free_index = 0, current_page = 0, pagefile_metatable = [], pagefile_handle = 0,
     global_page_lock = False, lock_free_coro = 0, pagefile_operations = [], sos_procs = replicate MAX_PROCS None,
     curr_pid = 0, vnodes = Map.empty, next_vptr = 0, mount_points = [], devices = [], global_uio = None,
     nbytes_read = 0, input_buffer = None, serial_routine = 0, serial_stat = None, global_dir = [], global_cookie = 0,
     timer_fired = False, pager_initialised = False, sos_ipc_ep_cap = 0, sos_interrupt_ep_cap = 0,
     ut_state = ut_boot_state, clock = example_clock 0, mem = (\<lambda>_. 0), klog = []\<rparr>"

definition three_bytes :: sos_env where
  "three_bytes = \<lparr>answer = (\<lambda>log c. if c = K_nfs_count then
       case log ! 1 of K_nfs_write fh pos data \<Rightarrow> of_nat (min 3 (max 1 (length data))) | _ \<Rightarrow> 0 else 0),
     nfs_byte = (\<lambda>_ _. 0), nfs_names = (\<lambda>_. []), nfs_attr = (\<lambda>_. \<lparr>fa_type = 0, fa_mode = 0, fa_size = 0, fa_ctime = (0, 0), fa_atime = (0, 0)\<rparr>),
     interfere = (\<lambda>_ s. s), clk_env = example_env\<rparr>"

lemma accepting_three_bytes: "accepting three_bytes"
  by (auto simp: accepting_def three_bytes_def RPC_OK_def NFS_OK_def Let_def unat_of_nat min_def max_def)


end
