(* ===== verification/Pager.thy ===== *)
theory Pager
  imports Nfs
begin

text \<open>
  The demand pager (\<^verbatim>\<open>vm/pager.c\<close>): the gate that serialises paging operations, the second-chance
  choice of a victim, eviction to the page file, and the allocation of frames on top of it
  (\<^verbatim>\<open>frame_alloc\<close> of \<^verbatim>\<open>vm/frametable.c\<close>).
\<close>

section \<open>Definitions\<close>

definition PAGEFILE_MAX_PAGES :: u32 where
  "PAGEFILE_MAX_PAGES = 80 * BYTES_TO_4K_PAGES (BIT 20)"

text \<open>Handing control to a suspended coroutine and getting it back.\<close>

definition coro_resume :: "sos_env \<Rightarrow> u32 \<Rightarrow> u32 \<Rightarrow> sos \<Rightarrow> sos" where
  "coro_resume E c arg s = coro_yield E (snd (ask E (K_coro_resume c arg) s))"

definition page_gate_open :: "sos_env \<Rightarrow> sos \<Rightarrow> int \<times> sos" where
  "page_gate_open E s =
     (if global_page_lock s then
        let (cur, s) = ask E K_coro_getcur s; (ok, s) = do_malloc E s in
        if \<not> ok then (1, s)
        else
          let s = coro_yield E (s\<lparr>pagefile_operations := pagefile_operations s @ [cur]\<rparr>)
          in (0, s\<lparr>global_page_lock := True\<rparr>)
      else (0, s\<lparr>global_page_lock := True\<rparr>))"

definition page_gate_close :: "sos_env \<Rightarrow> sos \<Rightarrow> sos" where
  "page_gate_close E s =
     (let (cur, s) = ask E K_coro_getcur s in
      if lock_free_coro s = cur then s
      else case pagefile_operations s of
        [] \<Rightarrow> s\<lparr>global_page_lock := False\<rparr>
      | op # ops \<Rightarrow> coro_resume E op 0 (s\<lparr>pagefile_operations := ops\<rparr>))"

definition pagefile_free_add :: "u32 \<Rightarrow> sos \<Rightarrow> sos option" where
  "pagefile_free_add pagefile_id s = do {
     w \<leftarrow> arr_get (pagefile_metatable s) (uint (pagefile_id div 32));
     m \<leftarrow> arr_set (pagefile_metatable s) (uint (pagefile_id div 32)) (w AND NOT (push_bit (unat (pagefile_id mod 32)) 1));
     Some (s\<lparr>pagefile_metatable := m\<rparr>) }"

text \<open>
  One round of the loop in \<^verbatim>\<open>next_victim\<close> up to its label \<^verbatim>\<open>next\<close>: a victim, or none yet. The flag
  \<open>found\<close> is \<^verbatim>\<open>starting_page_found\<close>, which the code never sets.
\<close>

definition victim_round :: "u32 \<Rightarrow> u32 \<Rightarrow> bool \<Rightarrow> u32 \<Rightarrow> bool \<Rightarrow> sos \<Rightarrow> (u32 option \<times> u32 \<times> bool \<times> sos) option" where
  "victim_round lower upper found start looped s = do {
     cap \<leftarrow> frame_table_get_capability (current_page s) s;
     if cap = 0 then Some (None, start, looped, s)
     else do {
       let (looped, start) = (if \<not> found then (False, current_page s) else (looped, start));
       c \<leftarrow> frame_table_get_chance (current_page s) s;
       chance \<leftarrow> c;
       case chance of
         FIRST_CHANCE \<Rightarrow> do {
           (_, s) \<leftarrow> frame_table_set_chance (current_page s) SECOND_CHANCE s;
           Some (None, start, looped, s) }
       | PINNED \<Rightarrow> Some (None, start, looped, s)
       | SECOND_CHANCE \<Rightarrow>
           Some (Some (current_page s), start, looped,
                 s\<lparr>current_page := (current_page s + 1) mod (upper - lower) + lower\<rparr>) } }"

partial_function (option) victim_loop :: "u32 \<Rightarrow> u32 \<Rightarrow> bool \<Rightarrow> u32 \<Rightarrow> bool \<Rightarrow> sos \<Rightarrow> (u32 \<times> sos) option" where
  [code]: "victim_loop lower upper found start looped s = do {
     (v, start, looped, s) \<leftarrow> victim_round lower upper found start looped s;
     case v of
       Some victim \<Rightarrow> Some (victim, s)
     | None \<Rightarrow>
         if found \<and> current_page s = start \<and> looped then Some (- 1, s)
         else victim_loop lower upper found start (looped \<or> found \<and> current_page s = start)
                (s\<lparr>current_page := (current_page s + 1) mod (upper - lower) + lower\<rparr>) }"

definition next_victim :: "sos \<Rightarrow> (u32 \<times> sos) option" where
  "next_victim s = do {
     (lower, upper) \<leftarrow> frame_table_get_limits s;
     victim_loop lower upper False 0 False s }"

text \<open>The search for a clear bit in the page file table, with \<open>n\<close> positions left from \<open>page\<close>.\<close>

fun find_pagefile_slot :: "u32 list \<Rightarrow> nat \<Rightarrow> u32 \<Rightarrow> (u32 \<times> u32 list) option option" where
  "find_pagefile_slot m 0 page = Some None"
| "find_pagefile_slot m (Suc n) page = do {
     w \<leftarrow> arr_get m (uint (page div 32));
     if w AND push_bit (unat (page mod 32)) 1 = 0 then do {
       m \<leftarrow> arr_set m (uint (page div 32)) (w OR push_bit (unat (page mod 32)) 1);
       Some (Some (page, m)) }
     else find_pagefile_slot m n (page + 1) }"

definition evict_frame :: "sos_env \<Rightarrow> u32 \<Rightarrow> sos \<Rightarrow> (int \<times> sos) option" where
  "evict_frame E frame_id s = do {
     r \<leftarrow> frame_table_get_page_id frame_id s;
     (p, page_id) \<leftarrow> r;
     c \<leftarrow> get_proc (sint p) s;
     case c of
       None \<Rightarrow> Some (- 1, s)
     | Some curproc \<Rightarrow> do {
         slot \<leftarrow> find_pagefile_slot (pagefile_metatable s) (unat PAGEFILE_MAX_PAGES) 0;
         case slot of
           None \<Rightarrow> Some (- 1, s)
         | Some (pagefile_id, m) \<Rightarrow> do {
             let s = s\<lparr>pagefile_metatable := m\<rparr>;
             as \<leftarrow> p_addrspace curproc;
             (r, s) \<leftarrow> page_directory_evict E (as_directory as) page_id pagefile_id s;
             if r \<noteq> 0 then do { s \<leftarrow> pagefile_free_add pagefile_id s; Some (- 1, s) }
             else do {
               let iov = \<lparr>uiov_base = frame_table_index_to_sos_vaddr frame_id s, uiov_len = PAGE_SIZE_4K,
                          uiov_pos = pagefile_id * PAGE_SIZE_4K\<rparr>;
               (n, s) \<leftarrow> sos_nfs_write E (pagefile_handle s) iov s;
               if n = - 1 then do { s \<leftarrow> pagefile_free_add pagefile_id s; Some (- 1, s) }
               else Some (0, s) } } } }"

text \<open>Result: the frame (\<open>-1\<close> on failure) and, on success, the address stored through the pointer.\<close>

definition page_out :: "sos_env \<Rightarrow> sos \<Rightarrow> (u32 \<times> u32 \<times> sos) option" where
  "page_out E s =
     (let (r, s) = page_gate_open E s in
      if r \<noteq> 0 then Some (- 1, 0, s)
      else do {
        (frame_id, s) \<leftarrow> next_victim s;
        if frame_id = - 1 then Some (- 1, 0, page_gate_close E s)
        else do {
          (r, s) \<leftarrow> evict_frame E frame_id s;
          if r = - 1 then Some (- 1, 0, page_gate_close E s)
          else do {
            let vaddr = frame_table_index_to_sos_vaddr frame_id s;
            let s = s\<lparr>mem := bzero vaddr PAGE_SIZE_4K (mem s)\<rparr>;
            (r, s) \<leftarrow> frame_table_set_chance frame_id PINNED s;
            c_assert (r = 0);
            Some (frame_id, vaddr, page_gate_close E s) } } })"

text \<open>The tail of \<^verbatim>\<open>frame_alloc\<close> from its label \<^verbatim>\<open>frame_alloc_page\<close>.\<close>

definition frame_alloc_page :: "sos_env \<Rightarrow> sos \<Rightarrow> (u32 \<times> u32 \<times> sos) option" where
  "frame_alloc_page E s = do {
     (p_id, vaddr, s) \<leftarrow> page_out E s;
     if p_id \<noteq> - 1 then Some (p_id, vaddr, s) else Some (- 1, 0, s) }"

definition frame_alloc :: "sos_env \<Rightarrow> sos \<Rightarrow> (u32 \<times> u32 \<times> sos) option" where
  "frame_alloc E s =
     (case frame_table s of
        None \<Rightarrow> Some (- 1, 0, s)
      | Some ft \<Rightarrow>
          if frame_table_cnt s \<ge> frame_table_max s then frame_alloc_page E s
          else if free_index s > 0 then do {
            let s = s\<lparr>free_index := free_index s - 1\<rparr>;
            p_id \<leftarrow> arr_get (free_frames s) (uint (free_index s));
            let vaddr = PHYSICAL_VSTART + INDEX_TO_ADDR s p_id;
            e \<leftarrow> arr_get ft (uint p_id);
            ft \<leftarrow> arr_set ft (uint p_id) (e\<lparr>fe_chance := FIRST_CHANCE\<rparr>);
            Some (p_id, vaddr, s\<lparr>mem := bzero vaddr PAGE_SIZE_4K (mem s), frame_table := Some ft\<rparr>) }
          else do {
            (p_id, vaddr, s) \<leftarrow> frame_alloc_ut E 1 s;
            if p_id \<noteq> - 1 then Some (p_id, vaddr, s) else frame_alloc_page E s })"

section \<open>The page file table\<close>

text \<open>Bit \<open>p\<close> of the table says that slot \<open>p\<close> of the page file is in use.\<close>

definition slot_used :: "u32 list \<Rightarrow> nat \<Rightarrow> bool" where
  "slot_used m p = bit (m ! (p div 32)) (p mod 32)"

lemma unat_PAGEFILE_MAX_PAGES: "unat PAGEFILE_MAX_PAGES = 20480"
  by (simp add: PAGEFILE_MAX_PAGES_def BYTES_TO_4K_PAGES_def PAGE_SIZE_4K_def PAGE_BITS_4K_def BIT_def)

lemma slot_word:
  fixes page :: u32
  shows "unat (page div 32) = unat page div 32" "unat (page mod 32) = unat page mod 32"
  by (simp_all add: unat_div unat_mod)

lemma slot_used_update:
  assumes "p div 32 < length m"
  shows "slot_used (m[p div 32 := w]) q \<longleftrightarrow> (if q div 32 = p div 32 then bit w (q mod 32) else slot_used m q)"
  using assms by (auto simp: slot_used_def nth_list_update)

lemma slot_position: "q div 32 = p div 32 \<Longrightarrow> q mod 32 = p mod 32 \<longleftrightarrow> q = (p :: nat)"
  by (metis div_mult_mod_eq)

lemma and_slot_bit: "(w :: u32) AND 2 ^ (p mod 32) = 0 \<longleftrightarrow> \<not> bit w (p mod 32)"
  by (simp add: and_exp_eq_0_iff_not_bit)

text \<open>The search stops at the first clear bit and sets it, or reports that there is none.\<close>

lemma find_pagefile_slot_cases:
  assumes "unat page + n \<le> 32 * length m" "unat page + n < 2 ^ 32"
  obtains (full) "find_pagefile_slot m n page = Some None" "\<And>q. unat page \<le> q \<Longrightarrow> q < unat page + n \<Longrightarrow> slot_used m q"
  | (found) p where "find_pagefile_slot m n page = Some (Some (p, m[unat p div 32 := m ! (unat p div 32) OR push_bit (unat p mod 32) 1]))"
      "unat page \<le> unat p" "unat p < unat page + n" "\<not> slot_used m (unat p)"
      "\<And>q. unat page \<le> q \<Longrightarrow> q < unat p \<Longrightarrow> slot_used m q"
  using assms
proof (induction n arbitrary: page thesis)
  case 0
  then show ?case by simp
next
  case (Suc n)
  have len: "unat page div 32 < length m" using Suc.prems(3) by linarith
  have get: "arr_get m (uint (page div 32)) = Some (m ! (unat page div 32))"
    using len by (simp add: arr_get_def slot_word)
  have set: "arr_set m (uint (page div 32)) w = Some (m[unat page div 32 := w])" for w
    using len by (simp add: arr_set_def slot_word)
  show ?case
  proof (cases "slot_used m (unat page)")
    case False
    then have "find_pagefile_slot m (Suc n) page
        = Some (Some (page, m[unat page div 32 := m ! (unat page div 32) OR push_bit (unat page mod 32) 1]))"
      by (simp add: get set slot_word and_slot_bit slot_used_def)
    then show ?thesis by (rule Suc.prems(2)) (use False in simp_all)
  next
    case True
    then have step: "find_pagefile_slot m (Suc n) page = find_pagefile_slot m n (page + 1)"
      by (simp add: get slot_word and_slot_bit slot_used_def)
    have next_page: "unat (page + 1) = unat page + 1"
      using Suc.prems(4) by (simp add: unat_word_ariths)
    have used: "slot_used m q" if "unat page \<le> q" "q < r" "\<And>q. unat (page + 1) \<le> q \<Longrightarrow> q < r \<Longrightarrow> slot_used m q" for q r
      using that True next_page by (cases "q = unat page") auto
    show ?thesis
    proof (rule Suc.IH [of "page + 1"])
      assume "find_pagefile_slot m n (page + 1) = Some None" "\<And>q. unat (page + 1) \<le> q \<Longrightarrow> q < unat (page + 1) + n \<Longrightarrow> slot_used m q"
      then show ?thesis using Suc.prems(1) step used [of _ "unat page + Suc n"] next_page by simp
    next
      fix p
      assume "find_pagefile_slot m n (page + 1) = Some (Some (p, m[unat p div 32 := m ! (unat p div 32) OR push_bit (unat p mod 32) 1]))"
        and "unat (page + 1) \<le> unat p" "unat p < unat (page + 1) + n" "\<not> slot_used m (unat p)"
        and "\<And>q. unat (page + 1) \<le> q \<Longrightarrow> q < unat p \<Longrightarrow> slot_used m q"
      then show ?thesis using Suc.prems(2) [of p] step used [of _ "unat p"] next_page by simp
    qed (use Suc.prems next_page in simp_all)
  qed
qed

text \<open>
  C28: The search of the page file table finds the lowest free slot below the limit and marks exactly
  that slot, or finds that all slots are in use; freeing the slot found restores the table.
\<close>

theorem pagefile_slot_roundtrip:
  assumes "20480 \<le> 32 * length (pagefile_metatable s)"
  shows "case find_pagefile_slot (pagefile_metatable s) (unat PAGEFILE_MAX_PAGES) 0 of
      None \<Rightarrow> False
    | Some None \<Rightarrow> (\<forall>q<20480. slot_used (pagefile_metatable s) q)
    | Some (Some (p, m)) \<Rightarrow> unat p < 20480 \<and> \<not> slot_used (pagefile_metatable s) (unat p)
        \<and> (\<forall>q<unat p. slot_used (pagefile_metatable s) q)
        \<and> (\<forall>q. slot_used m q \<longleftrightarrow> q = unat p \<or> slot_used (pagefile_metatable s) q)
        \<and> pagefile_free_add p (s\<lparr>pagefile_metatable := m\<rparr>) = Some s"
proof -
  let ?t = "pagefile_metatable s"
  have "unat (0::u32) + 20480 \<le> 32 * length ?t" using assms by simp
  then show ?thesis
  proof (rule find_pagefile_slot_cases [of 0 20480 ?t])
    fix p :: u32
    let ?i = "unat p div 32" and ?b = "unat p mod 32"
    let ?m = "?t[?i := ?t ! ?i OR push_bit ?b 1]"
    assume r: "find_pagefile_slot ?t 20480 0 = Some (Some (p, ?m))"
      and p: "unat p < unat (0::u32) + 20480" "\<not> slot_used ?t (unat p)" and q: "\<And>q. unat (0::u32) \<le> q \<Longrightarrow> q < unat p \<Longrightarrow> slot_used ?t q"
    have i: "?i < length ?t" using p(1) assms by simp
    have "slot_used ?m q \<longleftrightarrow> q = unat p \<or> slot_used ?t q" for q
      unfolding slot_used_update [OF i] using slot_position [of q "unat p"] by (auto simp: slot_used_def bit_simps)
    moreover have "(?t ! ?i OR push_bit ?b 1) AND NOT (push_bit ?b 1) = ?t ! ?i"
      using p(2) by (intro bit_word_eqI) (auto simp: slot_used_def bit_simps)
    then have "pagefile_free_add p (s\<lparr>pagefile_metatable := ?m\<rparr>) = Some s"
      using i by (simp add: pagefile_free_add_def arr_get_def arr_set_def slot_word)
    ultimately show ?thesis using r p q by (simp add: unat_PAGEFILE_MAX_PAGES)
  qed (simp_all add: unat_PAGEFILE_MAX_PAGES)
qed

theorem pagefile_slot_roundtrip_witness:
  "case find_pagefile_slot (3 # replicate 639 0) (unat PAGEFILE_MAX_PAGES) 0 of
     Some (Some (p, m)) \<Rightarrow> p = 2 \<and> slot_used m 2 \<and> slot_used m 1 \<and> \<not> slot_used m 3
   | _ \<Rightarrow> False"
proof -
  have m: "pagefile_metatable (s\<lparr>pagefile_metatable := 3 # replicate 639 0\<rparr>) = 3 # replicate 639 0" for s :: sos by simp
  have r: "find_pagefile_slot (3 # replicate 639 0) (unat PAGEFILE_MAX_PAGES) 0 = Some (Some (2, 7 # replicate 639 0))"
  proof -
    have n: "unat PAGEFILE_MAX_PAGES = Suc (Suc (Suc 20477))" by (simp add: unat_PAGEFILE_MAX_PAGES)
    show ?thesis unfolding n find_pagefile_slot.simps by (simp add: arr_get_def arr_set_def)
  qed
  then show ?thesis
    using pagefile_slot_roundtrip [of "undefined\<lparr>pagefile_metatable := 3 # replicate 639 0\<rparr>"]
    by (simp add: m slot_used_def)
qed

section \<open>The choice of a victim\<close>

text \<open>
  The frame table covers the frames the pager cycles through, and the hand of the clock points to one
  of them.
\<close>

definition frame_at :: "sos \<Rightarrow> nat \<Rightarrow> frame_entry" where
  "frame_at s k = (case frame_table s of None \<Rightarrow> empty_entry | Some ft \<Rightarrow> ft ! k)"

definition pager_ok :: "sos \<Rightarrow> bool" where
  "pager_ok s \<longleftrightarrow> frame_table s \<noteq> None \<and> unat (frame_table_max s) \<le> length (the (frame_table s))
     \<and> unat (frame_table_max s) \<le> Suc (unat (ADDR_TO_INDEX s (ut_top s)))
     \<and> unat (current_page s) < unat (frame_table_max s)"

definition evictable :: "sos \<Rightarrow> nat \<Rightarrow> bool" where
  "evictable s k \<longleftrightarrow> fe_cap (frame_at s k) \<noteq> 0 \<and> fe_chance (frame_at s k) \<noteq> PINNED"

definition advance :: "sos \<Rightarrow> sos" where
  "advance s = s\<lparr>current_page := (current_page s + 1) mod frame_table_max s\<rparr>"

definition set_frame :: "nat \<Rightarrow> frame_entry \<Rightarrow> sos \<Rightarrow> sos" where
  "set_frame k e s = s\<lparr>frame_table := map_option (\<lambda>ft. ft[k := e]) (frame_table s)\<rparr>"

lemma frame_at_set_frame:
  "k < length (the (frame_table s)) \<Longrightarrow> frame_table s \<noteq> None \<Longrightarrow>
     frame_at (set_frame k e s) j = (if j = k then e else frame_at s j)"
  by (auto simp: frame_at_def set_frame_def)

lemma in_range_u32: "ISINRANGE 0 f b \<longleftrightarrow> unat f \<le> unat (b :: u32)"
  by (simp add: ISINRANGE_iff word_le_nat_alt)

lemma frame_checked_ok:
  assumes "frame_table s = Some ft" "unat f < length ft" "unat f \<le> unat (ADDR_TO_INDEX s (ut_top s))"
  shows "frame_checked f s = Some (if fe_cap (frame_at s (unat f)) = 0 then None else Some (ft, frame_at s (unat f)))"
    and "frame_table_get_capability f s = Some (fe_cap (frame_at s (unat f)))"
  using assms by (simp_all add: frame_checked_def frame_table_get_capability_def frame_at_def arr_get_def in_range_u32)

lemma victim_round_ok:
  assumes "pager_ok s"
  defines "k \<equiv> unat (current_page s)"
  shows "victim_round 0 (frame_table_max s) False start looped s = Some
    (if fe_cap (frame_at s k) = 0 then (None, start, looped, s)
     else case fe_chance (frame_at s k) of
         FIRST_CHANCE \<Rightarrow> (None, current_page s, False, set_frame k ((frame_at s k)\<lparr>fe_chance := SECOND_CHANCE\<rparr>) s)
       | PINNED \<Rightarrow> (None, current_page s, False, s)
       | SECOND_CHANCE \<Rightarrow> (Some (current_page s), current_page s, False, advance s))"
proof -
  from assms(1) obtain ft where ft: "frame_table s = Some ft" "k < length ft" "unat (current_page s) < length ft"
      "unat (current_page s) \<le> unat (ADDR_TO_INDEX s (ut_top s))"
    by (auto simp: pager_ok_def k_def)
  note c = frame_checked_ok [OF ft(1,3,4)]
  show ?thesis
    by (cases "fe_chance (frame_at s k)")
      (use ft(1,2) in \<open>simp_all add: victim_round_def frame_table_get_chance_def frame_table_set_chance_def c advance_def set_frame_def
        arr_set_def k_def [symmetric] del: unat_eq_nat_uint\<close>)
qed

lemma victim_loop_step:
  assumes "pager_ok s"
  defines "k \<equiv> unat (current_page s)"
  shows "victim_loop 0 (frame_table_max s) False start looped s =
    (if fe_cap (frame_at s k) = 0 then victim_loop 0 (frame_table_max s) False start looped (advance s)
     else case fe_chance (frame_at s k) of
         FIRST_CHANCE \<Rightarrow> victim_loop 0 (frame_table_max s) False (current_page s) False
             (advance (set_frame k ((frame_at s k)\<lparr>fe_chance := SECOND_CHANCE\<rparr>) s))
       | PINNED \<Rightarrow> victim_loop 0 (frame_table_max s) False (current_page s) False (advance s)
       | SECOND_CHANCE \<Rightarrow> Some (current_page s, advance s))"
  by (subst victim_loop.simps, cases "fe_chance (frame_at s k)")
    (simp_all add: victim_round_ok [OF assms(1)] k_def advance_def set_frame_def)

text \<open>What a choice may change: chances along the way, and the hand.\<close>

definition victim_result :: "sos \<Rightarrow> u32 \<Rightarrow> sos \<Rightarrow> bool" where
  "victim_result s v s' \<longleftrightarrow> unat v < unat (frame_table_max s) \<and> evictable s (unat v) \<and> pager_ok s'
     \<and> fe_chance (frame_at s' (unat v)) = SECOND_CHANCE
     \<and> (\<forall>j. frame_at s' j = frame_at s j \<or> evictable s j \<and> frame_at s' j = (frame_at s j)\<lparr>fe_chance := SECOND_CHANCE\<rparr>)
     \<and> s'\<lparr>frame_table := frame_table s, current_page := current_page s\<rparr> = s"

definition first_chances :: "sos \<Rightarrow> nat" where
  "first_chances s = card {k. k < unat (frame_table_max s) \<and> fe_cap (frame_at s k) \<noteq> 0 \<and> fe_chance (frame_at s k) = FIRST_CHANCE}"

definition hand_distance :: "nat \<Rightarrow> sos \<Rightarrow> nat" where
  "hand_distance k s = (k + unat (frame_table_max s) - unat (current_page s)) mod unat (frame_table_max s)"

lemma advance_simps [simp]:
  "frame_table (advance s) = frame_table s" "frame_table_max (advance s) = frame_table_max s"
  "frame_at (advance s) = frame_at s" "evictable (advance s) = evictable s" "first_chances (advance s) = first_chances s"
  by (auto simp: advance_def frame_at_def evictable_def first_chances_def fun_eq_iff)

lemma advance_hand:
  assumes "pager_ok s"
  shows "unat (current_page (advance s)) = Suc (unat (current_page s)) mod unat (frame_table_max s)" "pager_ok (advance s)"
proof -
  have "unat (current_page s + 1) = Suc (unat (current_page s))"
    using assms unat_bound [of "frame_table_max s"] by (simp add: pager_ok_def unat_word_ariths)
  then show c: "unat (current_page (advance s)) = Suc (unat (current_page s)) mod unat (frame_table_max s)"
    by (simp add: advance_def unat_mod)
  have "unat (current_page (advance s)) < unat (frame_table_max s)" unfolding c using assms by (simp add: pager_ok_def)
  then show "pager_ok (advance s)" using assms by (simp add: pager_ok_def) (simp add: advance_def ADDR_TO_INDEX_def)
qed

lemma hand_approaches:
  assumes "pager_ok s" "k < unat (frame_table_max s)" "k \<noteq> unat (current_page s)"
  shows "hand_distance k (advance s) < hand_distance k s"
proof -
  define m c where "m = unat (frame_table_max s)" and "c = unat (current_page s)"
  have c: "c < m" "k < m" "k \<noteq> c" using assms by (simp_all add: pager_ok_def m_def c_def)
  have d: "hand_distance k (advance s) = (k + m - Suc c mod m) mod m" "hand_distance k s = (k + m - c) mod m"
    by (simp_all add: hand_distance_def advance_hand [OF assms(1)] m_def c_def)
  consider "Suc c = m" | "Suc c < m" "c < k" | "Suc c < m" "k < c" using c by linarith
  then show ?thesis
  proof cases
    case 1
    then have "(k + m - c) mod m = Suc k" using c by (simp add: 1 [symmetric])
    then show ?thesis unfolding d using 1 c by simp
  next
    case 2
    then have "(k + m - c) mod m = k - c" "(k + m - Suc c) mod m = k - Suc c" using c
      by (metis Nat.add_diff_assoc2 less_imp_le less_imp_diff_less mod_add_self2 mod_less, metis Nat.add_diff_assoc2 Suc_leI less_imp_diff_less mod_add_self2 mod_less)
    then show ?thesis unfolding d using 2 by simp
  next
    case 3
    then show ?thesis unfolding d using c by simp
  qed
qed

lemma hand_distance_less: "pager_ok s \<Longrightarrow> hand_distance k s < unat (frame_table_max s)"
  by (simp add: hand_distance_def pager_ok_def)

text \<open>Taking away a first chance keeps what may be evicted and lowers the number of first chances.\<close>

definition take_chance :: "sos \<Rightarrow> sos" where
  "take_chance s = (let k = unat (current_page s) in set_frame k ((frame_at s k)\<lparr>fe_chance := SECOND_CHANCE\<rparr>) s)"

lemma take_chance_frame:
  assumes "pager_ok s"
  shows "frame_at (take_chance s) j =
    (if j = unat (current_page s) then (frame_at s j)\<lparr>fe_chance := SECOND_CHANCE\<rparr> else frame_at s j)"
  using assms frame_at_set_frame [of "unat (current_page s)" s] by (auto simp: take_chance_def Let_def pager_ok_def)

lemma take_chance_simps [simp]:
  "frame_table_max (take_chance s) = frame_table_max s" "current_page (take_chance s) = current_page s"
  by (simp_all add: take_chance_def set_frame_def Let_def)

lemma take_chance_ok: "pager_ok s \<Longrightarrow> pager_ok (take_chance s)"
  by (auto simp: pager_ok_def take_chance_def set_frame_def Let_def ADDR_TO_INDEX_def)

lemma take_chance_evictable:
  assumes "pager_ok s" "fe_chance (frame_at s (unat (current_page s))) = FIRST_CHANCE"
  shows "evictable (take_chance s) = evictable s"
  using assms by (auto simp: evictable_def take_chance_frame fun_eq_iff)

lemma take_chance_less:
  assumes "pager_ok s" "fe_cap (frame_at s (unat (current_page s))) \<noteq> 0"
    "fe_chance (frame_at s (unat (current_page s))) = FIRST_CHANCE"
  shows "first_chances (take_chance s) < first_chances s"
  unfolding first_chances_def
proof (rule psubset_card_mono)
  show "{k. k < unat (frame_table_max (take_chance s)) \<and> fe_cap (frame_at (take_chance s) k) \<noteq> 0 \<and> fe_chance (frame_at (take_chance s) k) = FIRST_CHANCE}
      \<subset> {k. k < unat (frame_table_max s) \<and> fe_cap (frame_at s k) \<noteq> 0 \<and> fe_chance (frame_at s k) = FIRST_CHANCE}" (is "?A \<subset> ?B")
  proof
    show "?A \<subseteq> ?B" using assms by (auto simp: take_chance_frame split: if_splits)
    have "unat (current_page s) \<in> ?B - ?A" using assms by (simp add: take_chance_frame pager_ok_def)
    then show "?A \<noteq> ?B" by blast
  qed
qed simp

lemma victim_result_advance:
  assumes "victim_result (advance s) v s'"
  shows "victim_result s v s'"
proof -
  have "s'\<lparr>frame_table := frame_table s, current_page := current_page s\<rparr>
      = (s'\<lparr>frame_table := frame_table (advance s), current_page := current_page (advance s)\<rparr>)\<lparr>current_page := current_page s\<rparr>" by simp
  also have "\<dots> = (advance s)\<lparr>current_page := current_page s\<rparr>" using assms unfolding victim_result_def by (simp only:)
  also have "\<dots> = s" by (simp add: advance_def)
  finally show ?thesis using assms by (simp add: victim_result_def)
qed

lemma victim_result_take:
  assumes "victim_result (take_chance s) v s'" "pager_ok s"
    and f: "fe_chance (frame_at s (unat (current_page s))) = FIRST_CHANCE" "fe_cap (frame_at s (unat (current_page s))) \<noteq> 0"
  shows "victim_result s v s'"
proof -
  note r = assms(1) [unfolded victim_result_def take_chance_evictable [OF assms(2) f(1)]]
  have "s'\<lparr>frame_table := frame_table s, current_page := current_page s\<rparr>
      = (s'\<lparr>frame_table := frame_table (take_chance s), current_page := current_page (take_chance s)\<rparr>)\<lparr>frame_table := frame_table s\<rparr>" by simp
  also have "\<dots> = (take_chance s)\<lparr>frame_table := frame_table s\<rparr>" using r by (simp only:)
  also have "\<dots> = s" by (simp add: take_chance_def set_frame_def Let_def)
  finally have same: "s'\<lparr>frame_table := frame_table s, current_page := current_page s\<rparr> = s" .
  have "frame_at s' j = frame_at s j \<or> evictable s j \<and> frame_at s' j = (frame_at s j)\<lparr>fe_chance := SECOND_CHANCE\<rparr>" for j
  proof -
    from r have "frame_at s' j = frame_at (take_chance s) j \<or> evictable s j \<and> frame_at s' j = (frame_at (take_chance s) j)\<lparr>fe_chance := SECOND_CHANCE\<rparr>"
      by blast
    then show ?thesis using f unfolding take_chance_frame [OF assms(2), of j]
      by (cases "j = unat (current_page s)") (auto simp: evictable_def)
  qed
  then show ?thesis using r same unfolding victim_result_def by simp
qed

lemma victim_loop_returns:
  assumes "pager_ok s" "k < unat (frame_table_max s)" "evictable s k"
  shows "\<exists>v s'. victim_loop 0 (frame_table_max s) False start looped s = Some (v, s') \<and> victim_result s v s'"
  using assms
proof (induction "first_chances s * unat (frame_table_max s) + hand_distance k s" arbitrary: s start looped rule: less_induct)
  case less
  let ?c = "unat (current_page s)" and ?m = "unat (frame_table_max s)"
  have skip: "\<exists>v s'. victim_loop 0 (frame_table_max s) False start looped (advance s) = Some (v, s') \<and> victim_result s v s'"
    if "\<not> evictable s ?c" for start looped
  proof -
    have "k \<noteq> ?c" using that less.prems(3) by auto
    then have "hand_distance k (advance s) < hand_distance k s" using less.prems hand_approaches by blast
    then show ?thesis
      using less.hyps [of "advance s" start looped] less.prems advance_hand(2) victim_result_advance by auto
  qed
  consider "\<not> evictable s ?c" | "evictable s ?c" "fe_chance (frame_at s ?c) = FIRST_CHANCE"
    | "evictable s ?c" "fe_chance (frame_at s ?c) = SECOND_CHANCE"
    by (cases "fe_chance (frame_at s ?c)") (auto simp: evictable_def)
  then show ?case
  proof cases
    case 1
    then show ?thesis unfolding victim_loop_step [OF less.prems(1)] using skip
      by (cases "fe_chance (frame_at s ?c)") (auto simp: evictable_def)
  next
    case 2
    let ?t = "take_chance s"
    note f = 2(2) 2(1) [unfolded evictable_def, THEN conjunct1]
    have ok: "pager_ok (advance ?t)" using less.prems(1) take_chance_ok advance_hand(2) by blast
    have "Suc (first_chances ?t) * ?m \<le> first_chances s * ?m"
      using take_chance_less [OF less.prems(1) f(2,1)] by (intro mult_right_mono) simp_all
    moreover have "hand_distance k (advance ?t) < ?m" using hand_distance_less [OF ok] by simp
    ultimately obtain v s' where v: "victim_loop 0 (frame_table_max (advance ?t)) False (current_page s) False (advance ?t) = Some (v, s')"
        "victim_result (advance ?t) v s'"
      using less.prems ok less.hyps [of "advance ?t" "current_page s" False] by (auto simp: take_chance_evictable f)
    have "victim_result s v s'" using victim_result_take [OF _ less.prems(1) f] victim_result_advance v(2) by blast
    moreover have "victim_loop 0 (frame_table_max s) False start looped s = Some (v, s')"
      unfolding victim_loop_step [OF less.prems(1)] using f v(1) by (simp add: take_chance_def Let_def set_frame_def)
    ultimately show ?thesis by blast
  next
    case 3
    have "victim_result s (current_page s) (advance s)"
      using 3 less.prems(1) advance_hand(2) by (simp add: victim_result_def pager_ok_def) (simp add: advance_def)
    then show ?thesis unfolding victim_loop_step [OF less.prems(1)] using 3 by (auto simp: evictable_def)
  qed
qed

text \<open>
  C25: Whenever some frame in the pager's range has a capability and is not pinned, the choice of a
  victim ends and returns such a frame, which has used up its second chance; nothing changes but
  first chances that became second chances and the hand.
\<close>

theorem next_victim_returns:
  assumes "pager_ok s" "k < unat (frame_table_max s)" "evictable s k"
  shows "\<exists>v s'. next_victim s = Some (v, s') \<and> v \<noteq> - 1 \<and> victim_result s v s'"
proof -
  obtain v s' where v: "victim_loop 0 (frame_table_max s) False 0 False s = Some (v, s')" "victim_result s v s'"
    using victim_loop_returns [OF assms] by blast
  have "unat v < unat (frame_table_max s)" using v(2) by (simp add: victim_result_def)
  then have "v \<noteq> - 1" using unat_bound [of "frame_table_max s"] by (auto simp: unsigned_minus_1_eq_mask mask_eq_exp_minus_1)
  moreover have "next_victim s = Some (v, s')" using v(1) assms(1) by (simp add: next_victim_def frame_table_get_limits_def pager_ok_def)
  ultimately show ?thesis using v(2) by blast
qed

text \<open>With every frame pinned the loop goes round for ever, since \<open>found\<close> stays false.\<close>

definition can_choose :: "u32 \<Rightarrow> u32 \<Rightarrow> bool \<Rightarrow> sos \<Rightarrow> bool" where
  "can_choose lower upper found s \<longleftrightarrow> (lower = 0 \<and> upper = frame_table_max s \<and> \<not> found \<and> pager_ok s \<longrightarrow>
     (\<exists>k<unat (frame_table_max s). evictable s k))"

lemma victim_loop_pinned:
  assumes "victim_loop lower upper found start looped s = Some r"
  shows "can_choose lower upper found s"
proof (rule victim_loop.raw_induct [of "\<lambda>lower upper found start looped s r. can_choose lower upper found s", OF _ assms])
  fix f lower upper found start looped s r
  assume IH: "\<And>lower upper found start looped s r. f lower upper found start looped s = Some r \<Longrightarrow> can_choose lower upper found s"
    and run: "(do { (v, start, looped, s) \<leftarrow> victim_round lower upper found start looped s;
        case v of
          None \<Rightarrow> if found \<and> current_page s = start \<and> looped then Some (- 1, s)
                  else f lower upper found start (looped \<or> found \<and> current_page s = start)
                    (s\<lparr>current_page := (current_page s + 1) mod (upper - lower) + lower\<rparr>)
        | Some victim \<Rightarrow> Some (victim, s) }) = Some r"
  have "\<exists>k<unat (frame_table_max s). evictable s k"
    if h: "lower = 0" "upper = frame_table_max s" "\<not> found" "pager_ok s"
  proof (cases "evictable s (unat (current_page s))")
    case True
    then show ?thesis using h(4) by (auto simp: pager_ok_def)
  next
    case False
    then have "\<exists>st lp. victim_round 0 (frame_table_max s) False start looped s = Some (None, st, lp, s)"
      unfolding victim_round_ok [OF h(4)] by (cases "fe_cap (frame_at s (unat (current_page s))) = 0") (auto simp: evictable_def intro: exI [of _ False])
    then obtain st lp where "victim_round 0 (frame_table_max s) False start looped s = Some (None, st, lp, s)" by blast
    then have "f 0 (frame_table_max s) False st lp (advance s) = Some r" using run h by (simp add: advance_def)
    from IH [OF this] show ?thesis using advance_hand(2) [OF h(4)] by (simp add: can_choose_def)
  qed
  then show "can_choose lower upper found s" by (auto simp: can_choose_def)
qed

text \<open>
  C26: When every frame with a capability is pinned, \<^verbatim>\<open>next_victim\<close> never returns: the test for having
  come full circle is guarded by a flag that is never set, so the documented failure value is unreachable.
\<close>

theorem next_victim_all_pinned:
  assumes "pager_ok s" "\<forall>k<unat (frame_table_max s). \<not> evictable s k"
  shows "next_victim s = None"
proof (rule ccontr)
  assume "next_victim s \<noteq> None"
  then obtain r where "victim_loop 0 (frame_table_max s) False 0 False s = Some r"
    using assms(1) by (auto simp: next_victim_def frame_table_get_limits_def pager_ok_def)
  from victim_loop_pinned [OF this] show False using assms unfolding can_choose_def by blast
qed

section \<open>Witnesses\<close>

text \<open>A table of two frames.\<close>

definition example_frames :: "chance_type \<Rightarrow> sos" where
  "example_frames c = initial_sos\<lparr>
     frame_table := Some [\<lparr>fe_cap = 0x50, fe_chance = PINNED, fe_pid = 0, fe_page_id = 0\<rparr>,
                          \<lparr>fe_cap = 0x51, fe_chance = c, fe_pid = 0, fe_page_id = 0x1000\<rparr>],
     ut_base := 0x10000000, ut_top := 0x10002000, frame_table_max := 2\<rparr>"

lemma example_frames_ok:
  "pager_ok (example_frames c)" "evictable (example_frames c) (Suc 0) \<longleftrightarrow> c \<noteq> PINNED" "\<not> evictable (example_frames c) 0"
  by (simp_all add: pager_ok_def example_frames_def initial_sos_def ADDR_TO_INDEX_def seL4_PageBits_def drop_bit_eq_div
    evictable_def frame_at_def)

theorem next_victim_returns_witness:
  "\<exists>v s'. next_victim (example_frames FIRST_CHANCE) = Some (v, s') \<and> v = 1 \<and> pager_ok s'"
proof -
  have m: "frame_table_max (example_frames FIRST_CHANCE) = 2" by (simp add: example_frames_def)
  then obtain v s' where v: "next_victim (example_frames FIRST_CHANCE) = Some (v, s')"
      "victim_result (example_frames FIRST_CHANCE) v s'"
    using next_victim_returns [of "example_frames FIRST_CHANCE" 1] example_frames_ok [of FIRST_CHANCE] by auto
  then have "unat v < 2" "evictable (example_frames FIRST_CHANCE) (unat v)" "pager_ok s'" by (simp_all add: victim_result_def m)
  then have "unat v = 1" using example_frames_ok(3) [of FIRST_CHANCE] by (auto simp: less_2_cases_iff)
  then show ?thesis using v(1) \<open>pager_ok s'\<close> by (metis unat_1 word_unat_eq_iff)
qed

theorem next_victim_all_pinned_witness: "next_victim (example_frames PINNED) = None"
proof (rule next_victim_all_pinned)
  show "\<forall>k<unat (frame_table_max (example_frames PINNED)). \<not> evictable (example_frames PINNED) k"
    using example_frames_ok [of PINNED] by (auto simp: example_frames_def less_2_cases_iff)
qed (rule example_frames_ok)

section \<open>A rejected write\<close>

text \<open>A server that answers every write with an error.\<close>

definition rejecting :: "sos_env \<Rightarrow> bool" where
  "rejecting E \<longleftrightarrow> (\<forall>log s. interfere E log s = s) \<and> (\<forall>log fh pos data. answer E log (K_nfs_write fh pos data) = RPC_OK)
     \<and> (\<forall>log. answer E log K_nfs_status \<noteq> NFS_OK)"

lemma nfs_write_rejected:
  assumes "rejecting E" "uiov_len iov \<noteq> 0"
  shows "\<exists>s'. sos_nfs_write E fh iov s = Some (0, s') \<and> mem s' = mem s \<and> server_file E fh (klog s') = server_file E fh (klog s)"
  using assms
  by (simp add: sos_nfs_write_def nfs_write_loop.simps [of E fh iov] ask_def coro_yield_def sos_nfs_write_callback_def rejecting_def
    word_gt_0 Let_def fun_eq_iff accepted_write_def)


definition example_proc :: proc where
  "example_proc = \<lparr>tcb_addr = 0, tcb_cap = 0, ipc_buffer_cap = 0, croot = 0,
     p_addrspace = Some (example_as\<lparr>as_directory := Some \<lparr>directory = 0x21000000, kernel_page_table_caps = 0x21010000\<rparr>\<rparr>),
     file_table = None, children = [], waiting_on = - 1, waiting_coro = 0, ppid = 0, pid = 0, proc_name = None, stime = 0,
     p_state = RUNNING, blocked_ref = 0, kill_flag = False, protected = False\<rparr>"

definition example_paging :: sos where
  "example_paging = (example_frames SECOND_CHANCE)\<lparr>sos_procs := Some example_proc # replicate 15 None,
     pagefile_metatable := 0 # replicate 639 0, pagefile_handle := 7,
     mem := store32 0x21000000 0x21020000 (store32 0x21020004 0x51 (\<lambda>_. 0))\<rparr>"

definition failing_server :: sos_env where
  "failing_server = three_bytes\<lparr>answer := (\<lambda>log c. if c = K_nfs_status then 5 else 0)\<rparr>"


end
