(* ===== verification/Vm.thy ===== *)
theory Vm
  imports Pager
begin

text \<open>
  Virtual memory (\<^verbatim>\<open>vm/vm.c\<close>), page mapping for processes (\<^verbatim>\<open>sos_map_page\<close> of \<^verbatim>\<open>mapping.c\<close>), paging in
  (\<^verbatim>\<open>page_in\<close> of \<^verbatim>\<open>vm/pager.c\<close>) and whole address spaces (\<^verbatim>\<open>as_create\<close>, \<^verbatim>\<open>as_destroy\<close> of
  \<^verbatim>\<open>vm/addrspace.c\<close>). A process is named by its slot in the process table.
\<close>

section \<open>Definitions\<close>

subsection \<open>Page directories\<close>

text \<open>Pinning a run of frames, asserting each time that it worked.\<close>

definition pin_frames :: "u32 \<Rightarrow> nat \<Rightarrow> sos \<Rightarrow> sos option" where
  "pin_frames frame_id n s =
     for_loop (\<lambda>i s. do {
       (r, s) \<leftarrow> frame_table_set_chance (frame_id + of_nat i) PINNED s;
       c_assert (r = 0);
       Some s }) n 0 s"

definition page_directory_create :: "sos_env \<Rightarrow> sos \<Rightarrow> (page_directory option \<times> sos) option" where
  "page_directory_create E s =
     (let (ok, s) = do_malloc E s in
      if \<not> ok then Some (None, s)
      else do {
        (frame_id, directory_vaddr, s) \<leftarrow> frame_alloc E s;
        if frame_id = - 1 then Some (None, s)
        else do {
          s \<leftarrow> pin_frames frame_id 1 s;
          let nframes = BIT (seL4_PageDirBits - seL4_PageBits);
          (frame_id, kernel_cap_table_vaddr, s) \<leftarrow> multi_frame_alloc E nframes s;
          if frame_id = - 1 then do {
            s \<leftarrow> frame_free E frame_id s;
            Some (None, s) }
          else do {
            s \<leftarrow> pin_frames frame_id (unat nframes) s;
            Some (Some \<lparr>directory = directory_vaddr, kernel_page_table_caps = kernel_cap_table_vaddr\<rparr>, s) } } })"

definition page_directory_insert ::
  "sos_env \<Rightarrow> page_directory option \<Rightarrow> u32 \<Rightarrow> u32 \<Rightarrow> u32 \<Rightarrow> sos \<Rightarrow> (int \<times> sos) option" where
  "page_directory_insert E dir page_id cap kernel_cap s = do {
     al \<leftarrow> IS_ALIGNED_4K page_id;
     c_assert al;
     case dir of
       None \<Rightarrow> Some (1, s)
     | Some d \<Rightarrow>
         if directory d = 0 then Some (1, s)
         else do {
           let slot = directory d + 4 * DIRECTORY_INDEX page_id;
           (r, s) \<leftarrow> (if load32 (mem s) slot = 0 then do {
                (frame_id, page_table_vaddr, s) \<leftarrow> frame_alloc E s;
                if frame_id = - 1 then Some (1, s)
                else do {
                  s \<leftarrow> pin_frames frame_id 1 s;
                  Some (0, s\<lparr>mem := store32 slot page_table_vaddr (mem s)\<rparr>) } }
              else Some (0, s));
           if r \<noteq> (0::int) then Some (1, s)
           else do {
             let second_level = load32 (mem s) slot;
             if IS_EVICTED cap then Some (1, s)
             else do {
               let s = s\<lparr>mem := store32 (second_level + 4 * TABLE_INDEX page_id) cap (mem s)\<rparr>;
               if kernel_cap \<noteq> 0 then do {
                 let entry = kernel_page_table_caps d + 4 * CAP_INDEX page_id;
                 c_assert (load32 (mem s) entry = 0);
                 Some (0, s\<lparr>mem := store32 entry kernel_cap (mem s)\<rparr>) }
               else Some (0, s) } } } }"

definition page_destroy :: "sos_env \<Rightarrow> u32 \<Rightarrow> sos \<Rightarrow> (int \<times> sos) option" where
  "page_destroy E page_cap s =
     (if IS_EVICTED page_cap then do {
        s \<leftarrow> pagefile_free_add (page_cap AND NOT EVICTED_BIT) s;
        Some (0, s) }
      else
        let (r, s) = ask E (K_page_unmap page_cap) s in
        if r \<noteq> 0 then Some (1, s)
        else
          let (paddr, s) = ask E (K_page_get_address page_cap) s;
              (r, s) = ask E (K_delete_cap page_cap) s in
          if r \<noteq> 0 then Some (1, s)
          else do {
            s \<leftarrow> frame_free E (frame_table_sos_vaddr_to_index (frame_table_paddr_to_sos_vaddr paddr) s) s;
            Some (0, s) })"

fun page_table_loop :: "sos_env \<Rightarrow> u32 \<Rightarrow> nat \<Rightarrow> nat \<Rightarrow> sos \<Rightarrow> (int \<times> sos) option" where
  "page_table_loop E table 0 i s = Some (0, s)"
| "page_table_loop E table (Suc n) i s = do {
     let page = load32 (mem s) (table + 4 * of_nat i);
     (r, s) \<leftarrow> (if page \<noteq> 0 then page_destroy E page s else Some (0, s));
     if r \<noteq> 0 then Some (1, s) else page_table_loop E table n (Suc i) s }"

definition page_table_destroy :: "sos_env \<Rightarrow> u32 \<Rightarrow> sos \<Rightarrow> (int \<times> sos) option" where
  "page_table_destroy E table s = do {
     (r, s) \<leftarrow> page_table_loop E table 1024 0 s;
     if r \<noteq> 0 then Some (1, s)
     else do {
       s \<leftarrow> frame_free E (frame_table_sos_vaddr_to_index table s) s;
       Some (0, s) } }"

fun directory_loop :: "sos_env \<Rightarrow> u32 \<Rightarrow> nat \<Rightarrow> nat \<Rightarrow> sos \<Rightarrow> (int \<times> sos) option" where
  "directory_loop E dir 0 i s = Some (0, s)"
| "directory_loop E dir (Suc n) i s = do {
     let table = load32 (mem s) (dir + 4 * of_nat i);
     (r, s) \<leftarrow> (if table \<noteq> 0 then page_table_destroy E table s else Some (0, s));
     if r \<noteq> 0 then Some (1, s) else directory_loop E dir n (Suc i) s }"

fun cap_table_loop :: "sos_env \<Rightarrow> u32 \<Rightarrow> nat \<Rightarrow> nat \<Rightarrow> sos \<Rightarrow> int \<times> sos" where
  "cap_table_loop E caps 0 i s = (0, s)"
| "cap_table_loop E caps (Suc n) i s =
     (let cap = load32 (mem s) (caps + 4 * of_nat i);
          (r, s) = (if cap \<noteq> 0 then ask E (K_pt_unmap cap) s else (0, s))
      in if r \<noteq> 0 then (1, s) else cap_table_loop E caps n (Suc i) s)"

definition page_directory_destroy :: "sos_env \<Rightarrow> page_directory option \<Rightarrow> sos \<Rightarrow> (int \<times> sos) option" where
  "page_directory_destroy E dir s =
     (case dir of
        None \<Rightarrow> Some (1, s)
      | Some d \<Rightarrow>
          if kernel_page_table_caps d = 0 then Some (1, s)
          else if directory d = 0 then Some (1, s)
          else do {
            (r, s) \<leftarrow> directory_loop E (directory d) 1024 0 s;
            if r \<noteq> 0 then Some (1, s)
            else do {
              s \<leftarrow> frame_free E (frame_table_sos_vaddr_to_index (directory d) s) s;
              let nframes = BIT (seL4_PageDirBits - seL4_PageBits);
              let (r, s) = cap_table_loop E (kernel_page_table_caps d) 4096 0 s;
              if r \<noteq> 0 then Some (1, s)
              else do {
                let first = frame_table_sos_vaddr_to_index (kernel_page_table_caps d) s;
                s \<leftarrow> for_loop (\<lambda>i s. frame_free E (of_nat i) s) (unat nframes - unat first) (unat first) s;
                Some (0, s) } } })"

definition page_directory_count :: "proc \<Rightarrow> sos \<Rightarrow> nat option" where
  "page_directory_count curproc s =
     (case p_addrspace curproc of
        None \<Rightarrow> Some 0
      | Some as \<Rightarrow> do {
          d \<leftarrow> as_directory as;
          Some (sum_list (map (\<lambda>i. let sec = load32 (mem s) (directory d + 4 * of_nat i) in
                 if sec \<noteq> 0 then length (filter (\<lambda>j. load32 (mem s) (sec + 4 * of_nat j) \<noteq> 0) [0..<1024]) else 0)
               [0..<1024])) })"

subsection \<open>Mapping, paging in and translation\<close>

text \<open>Dereferencing a process pointer, and writing back its address space.\<close>

definition proc_at :: "int \<Rightarrow> sos \<Rightarrow> proc option" where
  "proc_at p s = do { c \<leftarrow> arr_get (sos_procs s) p; c }"

definition set_proc :: "int \<Rightarrow> proc \<Rightarrow> sos \<Rightarrow> sos option" where
  "set_proc p pr s = do {
     procs \<leftarrow> arr_set (sos_procs s) p (Some pr);
     Some (s\<lparr>sos_procs := procs\<rparr>) }"

definition sos_map_page :: "sos_env \<Rightarrow> int \<Rightarrow> u32 \<Rightarrow> u32 \<Rightarrow> sos \<Rightarrow> (int \<times> u32 \<times> sos) option" where
  "sos_map_page E p page_id permissions s = do {
     al \<leftarrow> IS_ALIGNED_4K page_id;
     c_assert al;
     (frame_id, kvaddr, s) \<leftarrow> frame_alloc E s;
     if frame_id = - 1 then Some (1, kvaddr, s)
     else do {
       frame_cap \<leftarrow> frame_table_get_capability frame_id s;
       c_assert (frame_cap \<noteq> 0);
       let (new_frame_cap, s) = ask E (K_copy_cap frame_cap) s;
       if new_frame_cap = 0 then do {
         s \<leftarrow> frame_free E frame_id s;
         Some (1, kvaddr, s) }
       else do {
         curproc \<leftarrow> proc_at p s;
         as \<leftarrow> p_addrspace curproc;
         (err, pt_cap, s) \<leftarrow> map_page E new_frame_cap (vspace as) page_id permissions s;
         if err \<noteq> 0 then do {
           let (_, s) = ask E (K_delete_cap new_frame_cap) s;
           s \<leftarrow> frame_free E frame_id s;
           Some (1, kvaddr, s) }
         else do {
           (r, s) \<leftarrow> page_directory_insert E (as_directory as) page_id new_frame_cap pt_cap s;
           if r \<noteq> 0 then do {
             let (_, s) = ask E (K_page_unmap new_frame_cap) s;
             let (_, s) = ask E (K_delete_cap new_frame_cap) s;
             s \<leftarrow> frame_free E frame_id s;
             Some (1, kvaddr, s) }
           else do {
             (r, s) \<leftarrow> frame_table_set_page_id frame_id (word_of_int (pid curproc)) page_id s;
             c_assert (r = 0);
             (r, s) \<leftarrow> frame_table_set_chance frame_id FIRST_CHANCE s;
             c_assert (r = 0);
             Some (0, kvaddr, s) } } } } }"

definition vm_map :: "sos_env \<Rightarrow> int \<Rightarrow> u32 \<Rightarrow> u32 \<Rightarrow> sos \<Rightarrow> (int \<times> u32 \<times> sos) option" where
  "vm_map E p vaddr access_type s = do {
     curproc \<leftarrow> proc_at p s;
     as \<leftarrow> p_addrspace curproc;
     (cont, as) \<leftarrow> stack_extend as vaddr;
     s \<leftarrow> set_proc p (curproc\<lparr>p_addrspace := Some as\<rparr>) s;
     if \<not> cont then Some (1, 0, s)
     else case as_find_region as vaddr of
       None \<Rightarrow> Some (1, 0, s)
     | Some i \<Rightarrow> do {
         r \<leftarrow> arr_get (region_list as) (int i);
         if \<not> as_region_permission_check r access_type then Some (1, 0, s)
         else do {
           (err, kvaddr, s) \<leftarrow> sos_map_page E p (PAGE_ALIGN_4K vaddr) (r_permissions r) s;
           Some (if err \<noteq> 0 then 1 else 0, kvaddr, s) } } }"

definition proc_directory :: "int \<Rightarrow> sos \<Rightarrow> page_directory option option" where
  "proc_directory p s = do {
     curproc \<leftarrow> proc_at p s;
     as \<leftarrow> p_addrspace curproc;
     Some (as_directory as) }"

definition page_table_is_evicted :: "int \<Rightarrow> u32 \<Rightarrow> sos \<Rightarrow> bool option" where
  "page_table_is_evicted p page_id s = do {
     dir \<leftarrow> proc_directory p s;
     c \<leftarrow> page_directory_lookup dir (PAGE_ALIGN_4K page_id) s;
     Some (case c of None \<Rightarrow> False | Some cap \<Rightarrow> IS_EVICTED cap) }"

definition page_in :: "sos_env \<Rightarrow> int \<Rightarrow> u32 \<Rightarrow> u32 \<Rightarrow> sos \<Rightarrow> (int \<times> sos) option" where
  "page_in E p page_id access_type s =
     (let (r, s) = page_gate_open E s in
      if r \<noteq> 0 then Some (1, s)
      else do {
        dir \<leftarrow> proc_directory p s;
        c \<leftarrow> page_directory_lookup dir (PAGE_ALIGN_4K page_id) s;
        case c of
          None \<Rightarrow> Some (1, page_gate_close E s)
        | Some cap \<Rightarrow> do {
            c_assert (cap AND EVICTED_BIT \<noteq> 0);
            let pagefile_id = cap AND NOT EVICTED_BIT;
            let (cur, s) = ask E K_coro_getcur s;
            (r, sos_vaddr, s) \<leftarrow> vm_map E p page_id access_type (s\<lparr>global_page_lock := False, lock_free_coro := cur\<rparr>);
            let s = s\<lparr>global_page_lock := True, lock_free_coro := 0\<rparr>;
            if r \<noteq> 0 then Some (1, page_gate_close E s)
            else do {
              let iov = \<lparr>uiov_base = sos_vaddr, uiov_len = PAGE_SIZE_4K, uiov_pos = pagefile_id * PAGE_SIZE_4K\<rparr>;
              (n, s) \<leftarrow> sos_nfs_read E (pagefile_handle s) iov s;
              if n = - 1 then Some (1, page_gate_close E s)
              else do {
                s \<leftarrow> pagefile_free_add pagefile_id s;
                frame_cap \<leftarrow> frame_table_get_capability (frame_table_sos_vaddr_to_index sos_vaddr s) s;
                let (_, s) = ask E (K_page_unify frame_cap) s;
                Some (0, page_gate_close E s) } } } })"

definition vm_translate :: "sos_env \<Rightarrow> int \<Rightarrow> u32 \<Rightarrow> u32 \<Rightarrow> sos \<Rightarrow> (int \<times> u32 \<times> sos) option" where
  "vm_translate E p vaddr access_type s = do {
     let offset = vaddr AND PAGE_MASK_4K;
     let page_id = PAGE_ALIGN_4K vaddr;
     ev \<leftarrow> page_table_is_evicted p page_id s;
     (r, s) \<leftarrow> (if ev then page_in E p page_id access_type s else Some (0, s));
     if r \<noteq> 0 then Some (1, 0, s)
     else do {
       dir \<leftarrow> proc_directory p s;
       c \<leftarrow> page_directory_lookup dir page_id s;
       case c of
         None \<Rightarrow> Some (1, 0, s)
       | Some page_cap \<Rightarrow>
           let (paddr, s) = ask E (K_page_get_address page_cap) s
           in Some (0, frame_table_paddr_to_sos_vaddr (paddr + offset), s) } }"

definition vaddr_to_sos_vaddr :: "sos_env \<Rightarrow> int \<Rightarrow> u32 \<Rightarrow> u32 \<Rightarrow> sos \<Rightarrow> (u32 \<times> sos) option" where
  "vaddr_to_sos_vaddr E p vaddr access_type s = do {
     let offset = vaddr AND PAGE_MASK_4K;
     let page_id = PAGE_ALIGN_4K vaddr;
     (r, sos_vaddr, s) \<leftarrow> vm_translate E p vaddr access_type s;
     (ok, sos_vaddr, s) \<leftarrow>
       (if r \<noteq> 0 then do {
          (r, _, s) \<leftarrow> vm_map E p page_id access_type s;
          if r \<noteq> 0 then Some (False, 0, s)
          else do {
            (r, sos_vaddr, s) \<leftarrow> vm_translate E p vaddr access_type s;
            c_assert (r = 0);
            Some (True, sos_vaddr, s) } }
        else do {
          curproc \<leftarrow> proc_at p s;
          as \<leftarrow> p_addrspace curproc;
          case as_find_region as vaddr of
            None \<Rightarrow> Some (False, 0, s)
          | Some i \<Rightarrow> do {
              reg \<leftarrow> arr_get (region_list as) (int i);
              Some (as_region_permission_check reg access_type, sos_vaddr, s) } });
     if \<not> ok then Some (0, s)
     else do {
       frame_cap \<leftarrow> frame_table_get_capability (frame_table_sos_vaddr_to_index sos_vaddr s) s;
       let (paddr, s) = ask E (K_page_get_address frame_cap) s;
       Some (frame_table_paddr_to_sos_vaddr (paddr + offset), s) } }"

subsection \<open>Copying between a process and the server\<close>

text \<open>What is left of the page from an address on; on the last page the sum wraps to zero.\<close>

definition page_rest :: "u32 \<Rightarrow> u32" where
  "page_rest a = (PAGE_ALIGN_4K a + PAGE_SIZE_4K) - a"

lemma unat_page_rest: "unat (page_rest a) = 4096 - unat a mod 4096"
proof -
  have "page_rest a = PAGE_SIZE_4K - (a AND PAGE_MASK_4K)"
    unfolding page_rest_def using page_split [of a] by (metis add_diff_cancel_left diff_diff_eq)
  moreover have "unat (a AND PAGE_MASK_4K) = unat a mod 4096" by (rule unat_page_offset)
  moreover have "a AND PAGE_MASK_4K \<le> PAGE_SIZE_4K"
    by (simp add: word_le_nat_alt unat_page_offset PAGE_SIZE_4K_eq)
  ultimately show ?thesis by (simp add: unat_sub PAGE_SIZE_4K_eq)
qed

lemma page_rest_round:
  assumes "0 < n"
  shows "unat (MIN2 (page_rest a) n) = min (4096 - unat a mod 4096) (unat n)" "0 < unat (MIN2 (page_rest a) n)"
    "unat (n - MIN2 (page_rest a) n) = unat n - unat (MIN2 (page_rest a) n)"
proof -
  show m: "unat (MIN2 (page_rest a) n) = min (4096 - unat a mod 4096) (unat n)"
    by (simp add: min_def word_le_nat_alt unat_page_rest)
  have "0 < unat n" using assms by (simp add: word_less_nat_alt)
  then show "0 < unat (MIN2 (page_rest a) n)" unfolding m by simp
  have "MIN2 (page_rest a) n \<le> n" by simp
  then show "unat (n - MIN2 (page_rest a) n) = unat n - unat (MIN2 (page_rest a) n)" by (rule unat_sub)
qed

text \<open>The bytes copied are the second component: the kernel's buffer, or what was copied before a failure.\<close>

function copy_in :: "sos_env \<Rightarrow> int \<Rightarrow> u32 \<Rightarrow> u32 \<Rightarrow> sos \<Rightarrow> (int \<times> u8 list \<times> sos) option" where
  "copy_in E p vaddr_src bytes_remaining s =
     (if bytes_remaining > 0 then
        case vaddr_to_sos_vaddr E p vaddr_src ACCESS_READ s of
          None \<Rightarrow> None
        | Some (sos_vaddr, s) \<Rightarrow>
            if sos_vaddr = 0 then Some (1, [], s)
            else
              let bytes_this_round = MIN2 (page_rest vaddr_src) bytes_remaining;
                  now = load_bytes (mem s) sos_vaddr (unat bytes_this_round)
              in (case copy_in E p (vaddr_src + bytes_this_round) (bytes_remaining - bytes_this_round) s of
                    None \<Rightarrow> None
                  | Some (r, rest, s) \<Rightarrow> Some (r, now @ rest, s))
      else Some (0, [], s))"
  by pat_completeness auto
termination
proof (relation "measure (\<lambda>(_, _, _, n, _). unat n)", goal_cases)
  case (2 E p a n s)
  then show ?case using page_rest_round [of n a] by simp
qed simp

function copy_out :: "sos_env \<Rightarrow> int \<Rightarrow> u32 \<Rightarrow> u8 list \<Rightarrow> u32 \<Rightarrow> sos \<Rightarrow> (int \<times> sos) option" where
  "copy_out E p dst src bytes_remaining s =
     (if bytes_remaining > 0 then
        case vaddr_to_sos_vaddr E p dst ACCESS_WRITE s of
          None \<Rightarrow> None
        | Some (sos_vaddr, s) \<Rightarrow>
            if sos_vaddr = 0 then Some (1, s)
            else
              let bytes_this_round = MIN2 (page_rest dst) bytes_remaining in
              if length src < unat bytes_this_round then None
              else copy_out E p (dst + bytes_this_round) (drop (unat bytes_this_round) src)
                     (bytes_remaining - bytes_this_round)
                     (s\<lparr>mem := store_bytes sos_vaddr (take (unat bytes_this_round) src) (mem s)\<rparr>)
      else Some (0, s))"
  by pat_completeness auto
termination
proof (relation "measure (\<lambda>(_, _, _, _, n, _). unat n)", goal_cases)
  case (2 E p a src n s)
  then show ?case using page_rest_round [of n a] by simp
qed simp

declare copy_in.simps [simp del] copy_out.simps [simp del]

subsection \<open>Faults and whole address spaces\<close>

definition ACCESS_TYPE :: "u32 \<Rightarrow> u32" where
  "ACCESS_TYPE x = drop_bit 11 (x AND BIT 11)"

definition PERMISSION_FAULT_PAGE :: u32 where
  "PERMISSION_FAULT_PAGE = 15"

definition get_fault_status :: "u32 \<Rightarrow> u32" where
  "get_fault_status fault_cause =
     (let bit_12 = fault_cause AND BIT 12;
          bit_10 = fault_cause AND BIT 10;
          lower_bits = fault_cause AND (BIT 3 OR BIT 2 OR BIT 1 OR BIT 0)
      in push_bit 5 bit_12 OR push_bit 4 bit_10 OR lower_bits)"

definition as_create :: "sos_env \<Rightarrow> sos \<Rightarrow> (addrspace option \<times> sos) option" where
  "as_create E s =
     (let (ok, s) = do_malloc E s in
      if \<not> ok then Some (None, s)
      else do {
        (addr, s) \<leftarrow> sos_ut_alloc E seL4_PageDirBits s;
        if addr = 0 then Some (None, s)
        else do {
          let (err, cap, s) = cspace_ut_retype_addr E addr seL4_PageDirBits s;
          if err \<noteq> 0 then do {
            s \<leftarrow> sos_ut_free addr seL4_PageDirBits s;
            Some (None, s) }
          else do {
            (dir, s) \<leftarrow> page_directory_create E s;
            if dir = None then do {
              let (_, s) = ask E (K_delete_cap cap) s;
              s \<leftarrow> sos_ut_free addr seL4_PageBits s;
              Some (None, s) }
            else Some (Some \<lparr>region_list = [], region_stack = None, region_heap = None, vspace_addr = addr,
                             vspace = cap, as_directory = dir\<rparr>, s) } } })"

text \<open>
  The last loop frees each region and then follows the link in the region just freed; the model takes
  the link to be still what it was. Every element is non-null, so destroying it succeeds.
\<close>

definition as_destroy :: "sos_env \<Rightarrow> addrspace \<Rightarrow> sos \<Rightarrow> (int \<times> sos) option" where
  "as_destroy E as s = do {
     (r, s) \<leftarrow> page_directory_destroy E (as_directory as) s;
     if r \<noteq> 0 then Some (1, s)
     else do {
       let (r, s) = ask E (K_delete_cap (vspace as)) s;
       if r \<noteq> 0 then Some (1, s)
       else do {
         s \<leftarrow> sos_ut_free (vspace_addr as) seL4_PageDirBits s;
         if (\<exists>reg\<in>set (region_list as). as_destroy_region (Some reg) \<noteq> 0) then Some (1, s) else Some (0, s) } } }"

end
