(* ===== verification/Vfs.thy ===== *)
theory Vfs
  imports Vm
begin

text \<open>
  The console (\<^verbatim>\<open>dev/sos_serial.c\<close> and the sending side of \<^verbatim>\<open>libserial\<close>), the virtual file system's
  dispatch to its name spaces (\<^verbatim>\<open>vfs/vfs.c\<close>), and open files and descriptor tables (\<^verbatim>\<open>vfs/file.c\<close>).
\<close>

section \<open>Definitions\<close>

subsection \<open>The console\<close>

definition NEWLINE :: u8 where "NEWLINE = 10"
definition ST_SPECIAL :: u32 where "ST_SPECIAL = 2"
definition FM_WRITE :: u32 where "FM_WRITE = 2"
definition FM_READ :: u32 where "FM_READ = 4"
definition MAX_PAYLOAD_SIZE :: nat where "MAX_PAYLOAD_SIZE = 500"

text \<open>The receive handler: a byte goes to the waiting reader, or into the buffer unless that is full.\<close>

definition serial_handler :: "sos_env \<Rightarrow> u8 \<Rightarrow> sos \<Rightarrow> sos option" where
  "serial_handler E c s =
     (case global_uio s of
        Some iov \<Rightarrow>
          let s = s\<lparr>mem := (mem s)(uiov_base iov + nbytes_read s := c), nbytes_read := nbytes_read s + 1\<rparr> in
          if c = NEWLINE \<or> nbytes_read s \<ge> uiov_len iov then Some (coro_resume E (serial_routine s) 0 s)
          else Some s
      | None \<Rightarrow> do {
          rb \<leftarrow> input_buffer s;
          if \<not> ring_buffer_is_full rb then do {
            rb \<leftarrow> ring_buffer_queue rb c;
            Some (s\<lparr>input_buffer := Some rb\<rparr>) }
          else Some s })"

definition sos_serial_init :: "sos_env \<Rightarrow> ring_buffer_t \<Rightarrow> sos \<Rightarrow> int \<times> sos" where
  "sos_serial_init E junk s =
     (let (port, s) = ask E K_serial_init s in
      if port = 0 then (1, s)
      else
        let (v, s) = vnode_create E port serial_vnode_ops 0 0 s in
        case v of
          None \<Rightarrow> (1, s)
        | Some v \<Rightarrow>
            let (r, s) = device_register E ''console'' v s in
            if r \<noteq> 0 then (1, s\<lparr>vnodes := (vnodes s)(v := None)\<rparr>)
            else
              let (ok, s) = do_malloc E s in
              if \<not> ok then (1, s\<lparr>vnodes := (vnodes s)(v := None)\<rparr>)
              else
                let s = s\<lparr>input_buffer := Some (ring_buffer_init junk)\<rparr>; (ok, s) = do_malloc E s in
                if \<not> ok then (1, s)
                else (0, s\<lparr>serial_stat := Some \<lparr>st_type = ST_SPECIAL, st_fmode = FM_READ OR FM_WRITE, st_size = 0,
                                                st_ctime = 0, st_atime = 0\<rparr>\<rparr>))"

definition sos_serial_open :: "sos_env \<Rightarrow> vptr \<Rightarrow> u32 \<Rightarrow> sos \<Rightarrow> (int \<times> sos) option" where
  "sos_serial_open E v m s = do {
     node \<leftarrow> vnodes s v;
     if (m = O_RDONLY \<or> m = O_RDWR) \<and> readcount node > 0 then Some (1, s)
     else do {
       let node = (if m = O_RDONLY \<or> m = O_RDWR then node\<lparr>readcount := readcount node + 1\<rparr> else node);
       if m = O_RDONLY then Some (0, s\<lparr>vnodes := (vnodes s)(v \<mapsto> node)\<rparr>)
       else do {
         let node = node\<lparr>writecount := writecount node + 1\<rparr>;
         st \<leftarrow> serial_stat s;
         let (t, clk) = time_stamp (clk_env E) (clock s);
         Some (0, s\<lparr>vnodes := (vnodes s)(v \<mapsto> node), clock := clk,
                    serial_stat := Some (st\<lparr>st_atime := ucast (t div 1000)\<rparr>)\<rparr>) } } }"

text \<open>
  \<^verbatim>\<open>serial_send\<close>: packets of at most 500 bytes; \<open>sent\<close> counts the bytes that went out before a
  packet could not be built or sent.
\<close>

function serial_send_loop :: "sos_env \<Rightarrow> u8 list \<Rightarrow> nat \<Rightarrow> sos \<Rightarrow> nat \<times> sos" where
  "serial_send_loop E data sent s =
     (if data \<noteq> [] then
        let (err, s) = ask E (K_serial_packet (take MAX_PAYLOAD_SIZE data)) s in
        if err \<noteq> 0 then (sent, s)
        else serial_send_loop E (drop MAX_PAYLOAD_SIZE data) (sent + length (take MAX_PAYLOAD_SIZE data)) s
      else (sent, s))"
  by pat_completeness auto
termination
  by (relation "measure (\<lambda>(_, data, _, _). length data)") (auto simp: MAX_PAYLOAD_SIZE_def)

declare serial_send_loop.simps [simp del]

definition serial_send :: "sos_env \<Rightarrow> u32 \<Rightarrow> u32 \<Rightarrow> sos \<Rightarrow> u32 \<times> sos" where
  "serial_send E data len s =
     (if sint len \<le> 0 then (len, s)
      else let (n, s) = serial_send_loop E (load_bytes (mem s) data (unat len)) 0 s in (of_nat n, s))"

definition sos_serial_write :: "sos_env \<Rightarrow> uiovec \<Rightarrow> sos \<Rightarrow> u32 \<times> sos" where
  "sos_serial_write E iov s = serial_send E (uiov_base iov) (uiov_len iov) s"

text \<open>
  The loop that empties the buffer into the reader: \<^const>\<open>True\<close> and the count when a newline ends
  the read early.
\<close>

fun serial_drain :: "u32 \<Rightarrow> nat \<Rightarrow> nat \<Rightarrow> ring_buffer_t \<Rightarrow> (u32 \<Rightarrow> u8) \<Rightarrow> (bool \<times> nat \<times> ring_buffer_t \<times> (u32 \<Rightarrow> u8)) option" where
  "serial_drain buf 0 i rb m = Some (False, i, rb, m)"
| "serial_drain buf (Suc n) i rb m = do {
     (r, rb) \<leftarrow> ring_buffer_dequeue rb;
     c \<leftarrow> r;
     let m = m(buf + of_nat i := c);
     if c = NEWLINE then Some (True, Suc i, rb, m) else serial_drain buf n (Suc i) rb m }"

definition sos_serial_read :: "sos_env \<Rightarrow> uiovec \<Rightarrow> sos \<Rightarrow> (u32 \<times> sos) option" where
  "sos_serial_read E iov s =
     (if global_uio s \<noteq> None then Some (- 1, s)
      else do {
        rb \<leftarrow> input_buffer s;
        let bytes_read = MIN2 (ring_buffer_num_items rb) (uiov_len iov);
        (line, n, rb, m) \<leftarrow> serial_drain (uiov_base iov) (unat bytes_read) 0 rb (mem s);
        let s = s\<lparr>input_buffer := Some rb, mem := m\<rparr>;
        if line then Some (of_nat n, s)
        else if bytes_read = uiov_len iov then Some (bytes_read, s)
        else
          let (cur, s) = ask E K_coro_getcur (s\<lparr>nbytes_read := bytes_read, global_uio := Some iov\<rparr>);
              s = coro_yield E (s\<lparr>serial_routine := cur\<rparr>)
          in Some (nbytes_read s, s\<lparr>global_uio := None, nbytes_read := 0\<rparr>) })"

definition sos_serial_close :: "vptr \<Rightarrow> u32 \<Rightarrow> sos \<Rightarrow> (int \<times> sos) option" where
  "sos_serial_close v m s = do {
     node \<leftarrow> vnodes s v;
     if m = O_RDONLY then Some (0, s\<lparr>vnodes := (vnodes s)(v \<mapsto> node\<lparr>readcount := readcount node - 1\<rparr>)\<rparr>)
     else if m = O_RDWR then
       Some (0, s\<lparr>vnodes := (vnodes s)(v \<mapsto> node\<lparr>readcount := readcount node - 1, writecount := writecount node - 1\<rparr>)\<rparr>)
     else if m = O_WRONLY then
       Some (0, s\<lparr>vnodes := (vnodes s)(v \<mapsto> node\<lparr>writecount := writecount node - 1\<rparr>)\<rparr>)
     else Some (1, s) }"

definition sos_serial_stat :: "sos \<Rightarrow> int \<times> sos_stat_t option" where
  "sos_serial_stat s = (0, serial_stat s)"

subsection \<open>Dispatch\<close>

text \<open>Calling an operation a vnode's table does not have is a jump to a null pointer.\<close>

definition vop_open :: "sos_env \<Rightarrow> vptr \<Rightarrow> u32 \<Rightarrow> sos \<Rightarrow> (int \<times> sos) option" where
  "vop_open E v m s = do {
     node \<leftarrow> vnodes s v;
     case vn_ops node of
       serial_vnode_ops \<Rightarrow> sos_serial_open E v m s
     | nfs_vnode_ops \<Rightarrow> sos_nfs_open v m s
     | _ \<Rightarrow> None }"

definition vop_close :: "vptr \<Rightarrow> u32 \<Rightarrow> sos \<Rightarrow> (int \<times> sos) option" where
  "vop_close v m s = do {
     node \<leftarrow> vnodes s v;
     case vn_ops node of
       serial_vnode_ops \<Rightarrow> sos_serial_close v m s
     | nfs_vnode_ops \<Rightarrow> sos_nfs_close v m s
     | _ \<Rightarrow> None }"

definition vop_read :: "sos_env \<Rightarrow> vptr \<Rightarrow> uiovec \<Rightarrow> sos \<Rightarrow> (u32 \<times> sos) option" where
  "vop_read E v iov s = do {
     node \<leftarrow> vnodes s v;
     case vn_ops node of
       serial_vnode_ops \<Rightarrow> sos_serial_read E iov s
     | nfs_vnode_ops \<Rightarrow> sos_nfs_read E (vn_data node) iov s
     | _ \<Rightarrow> None }"

definition vop_write :: "sos_env \<Rightarrow> vptr \<Rightarrow> uiovec \<Rightarrow> sos \<Rightarrow> (u32 \<times> sos) option" where
  "vop_write E v iov s = do {
     node \<leftarrow> vnodes s v;
     case vn_ops node of
       serial_vnode_ops \<Rightarrow> Some (sos_serial_write E iov s)
     | nfs_vnode_ops \<Rightarrow> sos_nfs_write E (vn_data node) iov s
     | _ \<Rightarrow> None }"

definition vop_stat :: "sos_env \<Rightarrow> vptr \<Rightarrow> sos \<Rightarrow> (int \<times> sos_stat_t option \<times> sos) option" where
  "vop_stat E v s = do {
     node \<leftarrow> vnodes s v;
     case vn_ops node of
       serial_vnode_ops \<Rightarrow> let (r, st) = sos_serial_stat s in Some (r, st, s)
     | nfs_vnode_ops \<Rightarrow> sos_nfs_stat E v s
     | _ \<Rightarrow> None }"

definition vop_lookup :: "sos_env \<Rightarrow> vptr \<Rightarrow> string \<Rightarrow> bool \<Rightarrow> sos \<Rightarrow> (int \<times> vptr option \<times> sos) option" where
  "vop_lookup E mnt name create_file s = do {
     node \<leftarrow> vnodes s mnt;
     case vn_ops node of
       device_vnode_ops \<Rightarrow>
         (case device_lookup name s of None \<Rightarrow> Some (1, None, s) | Some v \<Rightarrow> Some (0, Some v, s))
     | nfs_dir_ops \<Rightarrow> Some (sos_nfs_lookup E name create_file s)
     | _ \<Rightarrow> None }"

text \<open>The number of names goes through the variable \<^verbatim>\<open>num_files\<close>, which only the NFS listing resets.\<close>

definition vop_list :: "sos_env \<Rightarrow> vptr \<Rightarrow> nat \<Rightarrow> sos \<Rightarrow> (string list option \<times> nat \<times> sos) option" where
  "vop_list E mnt num_files s = do {
     node \<leftarrow> vnodes s mnt;
     case vn_ops node of
       device_vnode_ops \<Rightarrow> device_list E num_files s
     | nfs_dir_ops \<Rightarrow> do {
         (names, s) \<leftarrow> sos_nfs_list E s;
         Some (names, (case names of None \<Rightarrow> 0 | Some ns \<Rightarrow> length ns), s) }
     | _ \<Rightarrow> None }"

fun vfs_lookup_loop :: "sos_env \<Rightarrow> vptr list \<Rightarrow> string \<Rightarrow> bool \<Rightarrow> sos \<Rightarrow> (int \<times> vptr option \<times> sos) option" where
  "vfs_lookup_loop E [] name create_file s = Some (1, None, s)"
| "vfs_lookup_loop E (mnt # mnts) name create_file s = do {
     (r, v, s) \<leftarrow> vop_lookup E mnt name create_file s;
     if r = 0 then Some (0, v, s) else vfs_lookup_loop E mnts name create_file s }"

definition vfs_lookup :: "sos_env \<Rightarrow> string \<Rightarrow> bool \<Rightarrow> sos \<Rightarrow> (int \<times> vptr option \<times> sos) option" where
  "vfs_lookup E name create_file s = vfs_lookup_loop E (mount_points s) name create_file s"

definition vfs_open :: "sos_env \<Rightarrow> string \<Rightarrow> u32 \<Rightarrow> sos \<Rightarrow> (int \<times> vptr option \<times> sos) option" where
  "vfs_open E name m s =
     (if m \<noteq> O_RDONLY \<and> m \<noteq> O_WRONLY \<and> m \<noteq> O_RDWR then Some (1, None, s)
      else do {
        (r, v, s) \<leftarrow> vfs_lookup E name (m = O_WRONLY \<or> m = O_RDWR) s;
        if r \<noteq> 0 then Some (1, None, s)
        else do {
          v \<leftarrow> v;
          (r, s) \<leftarrow> vop_open E v m s;
          if r \<noteq> 0 then Some (1, None, s) else Some (0, Some v, s) } })"

definition vfs_close :: "vptr \<Rightarrow> u32 \<Rightarrow> sos \<Rightarrow> sos option" where
  "vfs_close v m s = do { (_, s) \<leftarrow> vop_close v m s; Some s }"

definition vfs_stat :: "sos_env \<Rightarrow> string \<Rightarrow> sos \<Rightarrow> (int \<times> sos_stat_t option \<times> sos) option" where
  "vfs_stat E name s = do {
     (r, v, s) \<leftarrow> vfs_lookup E name False s;
     if r \<noteq> 0 then Some (1, None, s)
     else do {
       v \<leftarrow> v;
       (r, st, s) \<leftarrow> vop_stat E v s;
       if r \<noteq> 0 then Some (1, None, s) else Some (0, st, s) } }"

text \<open>
  The names of all name spaces; \<open>num_files\<close> names are copied from each list, whatever its length. A
  failed \<^verbatim>\<open>realloc\<close> is not noticed before the null pointer is written through.
\<close>

fun vfs_list_loop :: "sos_env \<Rightarrow> vptr list \<Rightarrow> nat \<Rightarrow> string list \<Rightarrow> sos \<Rightarrow> (string list option \<times> sos) option" where
  "vfs_list_loop E [] num_files master s = Some (Some master, s)"
| "vfs_list_loop E (mnt # mnts) num_files master s = do {
     (names, num_files, s) \<leftarrow> vop_list E mnt num_files s;
     case names of
       None \<Rightarrow> Some (None, s)
     | Some ns \<Rightarrow> do {
         let (ok, s) = do_malloc E s;
         c_assert (num_files \<le> length ns \<and> (ok \<or> num_files = 0));
         vfs_list_loop E mnts num_files (master @ take num_files ns) s } }"

definition vfs_list :: "sos_env \<Rightarrow> sos \<Rightarrow> (string list option \<times> sos) option" where
  "vfs_list E s =
     (let (ok, s) = do_malloc E s in
      if \<not> ok then Some (None, s) else vfs_list_loop E (mount_points s) 0 [] s)"

subsection \<open>Open files and descriptor tables\<close>

definition PROCESS_MAX_FILES :: nat where "PROCESS_MAX_FILES = 16"

definition file_open :: "sos_env \<Rightarrow> string \<Rightarrow> u32 \<Rightarrow> sos \<Rightarrow> (int \<times> file_t option \<times> sos) option" where
  "file_open E filename m s = do {
     (r, node, s) \<leftarrow> vfs_open E filename m s;
     if r \<noteq> 0 then Some (1, None, s)
     else do {
       v \<leftarrow> node;
       let (ok, s) = do_malloc E s;
       if \<not> ok then Some (1, None, s) else Some (0, Some \<lparr>fp = 0, vn = v, mode = m\<rparr>, s) } }"

definition file_close :: "file_t \<Rightarrow> sos \<Rightarrow> sos option" where
  "file_close f s = vfs_close (vn f) (mode f) s"

definition fdtable_create :: "sos_env \<Rightarrow> sos \<Rightarrow> file_t option list option \<times> sos" where
  "fdtable_create E s =
     (let (ok, s) = do_malloc E s in (if ok then Some (replicate PROCESS_MAX_FILES None) else None, s))"

text \<open>The range test of the descriptor admits the number one past the end of the table.\<close>

definition fdtable_get :: "file_t option list \<Rightarrow> int \<Rightarrow> file_t option option" where
  "fdtable_get fdt fd =
     (if \<not> ISINRANGE 0 fd (int PROCESS_MAX_FILES) then Some None else arr_get fdt fd)"

definition fdtable_insert :: "file_t option list \<Rightarrow> int \<Rightarrow> file_t option \<Rightarrow> file_t option list option" where
  "fdtable_insert fdt fd open_file = do {
     c_assert (fd \<ge> 0 \<and> open_file \<noteq> None);
     old \<leftarrow> arr_get fdt fd;
     c_assert (old = None);
     arr_set fdt fd open_file }"

fun unused_index :: "file_t option list \<Rightarrow> nat \<Rightarrow> nat \<Rightarrow> int option" where
  "unused_index table 0 i = Some (- 1)"
| "unused_index table (Suc n) i = do {
     f \<leftarrow> arr_get table (int i);
     if f = None then Some (int i) else unused_index table n (Suc i) }"

definition fdtable_next_unused_index :: "file_t option list \<Rightarrow> int option" where
  "fdtable_next_unused_index table = unused_index table PROCESS_MAX_FILES 0"

definition fdtable_get_unused_fd :: "file_t option list \<Rightarrow> (int \<times> int) option" where
  "fdtable_get_unused_fd fdt = do {
     fd \<leftarrow> fdtable_next_unused_index fdt;
     Some (if fd = - 1 then 1 else 0, fd) }"

definition fdtable_close_fd :: "file_t option list \<Rightarrow> int \<Rightarrow> (file_t option \<times> file_t option list) option" where
  "fdtable_close_fd fdt fd =
     (if \<not> ISINRANGE 0 fd (int PROCESS_MAX_FILES) then Some (None, fdt)
      else do {
        f \<leftarrow> arr_get fdt fd;
        if f = None then Some (None, fdt)
        else do { fdt \<leftarrow> arr_set fdt fd None; Some (f, fdt) } })"

definition fdtable_destroy :: "file_t option list \<Rightarrow> sos \<Rightarrow> (int \<times> sos) option" where
  "fdtable_destroy table s = do {
     (_, s) \<leftarrow> for_loop (\<lambda>fd (table, s). do {
       (f, table) \<leftarrow> fdtable_close_fd table (int fd);
       case f of
         None \<Rightarrow> Some (table, s)
       | Some f \<Rightarrow> do { s \<leftarrow> file_close f s; Some (table, s) } }) PROCESS_MAX_FILES 0 (table, s);
     Some (0, s) }"

end
