(* ===== verification/PageMap.thy ===== *)
theory PageMap
  imports Vm
begin

text \<open>
  The two-level page table as a map from pages to entries. Tables are frames of the frame table that
  are pinned and not in the buffer of free frames; inserting and evicting an entry update the map at
  one page, also when a second-level table has to be allocated.
\<close>

section \<open>Frames as memory\<close>

abbreviation frame_vaddr :: "sos \<Rightarrow> u32 \<Rightarrow> u32" where
  "frame_vaddr s f \<equiv> frame_table_index_to_sos_vaddr f s"

definition free_buffer :: "sos \<Rightarrow> u32 set" where
  "free_buffer s = set (take (unat (free_index s)) (free_frames s))"

text \<open>A frame the accessors accept.\<close>

definition valid_frame :: "sos \<Rightarrow> u32 \<Rightarrow> bool" where
  "valid_frame s f \<longleftrightarrow> frame_table s \<noteq> None \<and> unat f < length (the (frame_table s))
     \<and> unat f \<le> unat (ADDR_TO_INDEX s (ut_top s)) \<and> fe_cap (frame_at s (unat f)) \<noteq> 0"

definition table_frame :: "sos \<Rightarrow> u32 \<Rightarrow> bool" where
  "table_frame s f \<longleftrightarrow> valid_frame s f \<and> fe_chance (frame_at s (unat f)) = PINNED \<and> f \<notin> free_buffer s"

definition is_table :: "sos \<Rightarrow> u32 \<Rightarrow> bool" where
  "is_table s a \<longleftrightarrow> (\<exists>f. a = frame_vaddr s f \<and> table_frame s f)"

lemma unat_ADDR_TO_INDEX: "unat (ADDR_TO_INDEX s a) < 2 ^ 20"
proof -
  have "unat (ADDR_TO_INDEX s a) = unat (a - ut_base s) div 2 ^ 12"
    unfolding ADDR_TO_INDEX_def seL4_PageBits_def unat_drop_bit_eq by (rule drop_bit_eq_div)
  also have "\<dots> < 2 ^ 20" using unat_bound [of "a - ut_base s"] by (simp add: div_less_iff_less_mult)
  finally show ?thesis .
qed

lemma valid_frame_bound: "valid_frame s f \<Longrightarrow> unat f < 2 ^ 20"
  using unat_ADDR_TO_INDEX [of s "ut_top s"] by (simp add: valid_frame_def)

lemma frame_offset:
  fixes f x :: u32
  assumes "unat f < 2 ^ 20" "unat x < 4096"
  shows "unat (push_bit 12 f + x) = unat f * 4096 + unat x"
proof -
  have "unat (push_bit 12 f) = unat f * 4096"
    using assms(1) by (simp add: push_bit_eq_mult unat_word_ariths)
  then show ?thesis using assms by (simp add: unat_word_ariths)
qed

lemma offset_inject:
  assumes "a * n + x = b * n + y" "x < n" "y < (n :: nat)"
  shows "a = b \<and> x = y"
proof -
  have "(a * n + x) div n = a" "(b * n + y) div n = b" using assms(2,3) by simp_all
  then show ?thesis using assms(1) by simp
qed

text \<open>Distinct frames do not overlap.\<close>

lemma frames_disjoint:
  assumes "unat f < 2 ^ 20" "unat g < 2 ^ 20" "unat x < 4096" "unat y < 4096"
    and "frame_vaddr s f + x = frame_vaddr s g + y"
  shows "f = g \<and> x = y"
proof -
  have "push_bit 12 f + x = push_bit 12 g + y"
    using assms(5) by (simp add: frame_table_index_to_sos_vaddr_def frame_table_paddr_to_sos_vaddr_def INDEX_TO_ADDR_def seL4_PageBits_def)
  then have "unat f * 4096 + unat x = unat g * 4096 + unat y"
    using frame_offset [OF assms(1,3)] frame_offset [OF assms(2,4)] by simp
  then have "unat f = unat g \<and> unat x = unat y" using assms(3,4) by (rule offset_inject)
  then show ?thesis by (simp add: word_unat_eq_iff)
qed

lemma tables_disjoint:
  assumes "is_table s a" "is_table s b" "unat x < 4096" "unat y < 4096" "a + x = b + y"
  shows "a = b \<and> x = y"
proof -
  obtain f g where "a = frame_vaddr s f" "table_frame s f" "b = frame_vaddr s g" "table_frame s g"
    using assms(1,2) by (auto simp: is_table_def)
  then show ?thesis using frames_disjoint [of f g x y s] assms(3-5) valid_frame_bound by (auto simp: table_frame_def)
qed

lemma unat_entry_byte:
  fixes i k :: u32
  assumes "unat i < 1024" "unat k < 4"
  shows "unat (4 * i + k) = 4 * unat i + unat k"
  using assms by (simp add: unat_word_ariths)

text \<open>Words of the same or of different tables.\<close>

lemma load_store_entry:
  assumes "is_table s a" "is_table s b" "unat i < 1024" "unat j < 1024" "a \<noteq> b \<or> i \<noteq> j"
  shows "load32 (store32 (a + 4 * i) v m) (b + 4 * j) = load32 m (b + 4 * j)"
proof -
  have "store32 (a + 4 * i) v m (b + 4 * j + k) = m (b + 4 * j + k)" if k: "unat k < 4" for k
  proof (rule store32_other, rule ccontr)
    define l where "l = b + 4 * j + k - (a + 4 * i)"
    assume "\<not> 4 \<le> b + 4 * j + k - (a + 4 * i)"
    then have l: "unat l < 4" by (simp add: word_le_nat_alt l_def)
    note u = unat_entry_byte [OF assms(3) l] unat_entry_byte [OF assms(4) k]
    have "a + (4 * i + l) = b + (4 * j + k)" by (simp add: l_def)
    moreover have "unat (4 * i + l) < 4096" "unat (4 * j + k) < 4096" unfolding u using assms(3,4) l k by linarith+
    ultimately have ab: "a = b \<and> 4 * i + l = 4 * j + k" using tables_disjoint [OF assms(1,2)] by blast
    then have "4 * unat i + unat l = 4 * unat j + unat k" using u by (simp only:)
    then have "i = j" using offset_inject [OF _ l k, of "unat i" "unat j"] by (simp add: word_unat_eq_iff mult.commute)
    then show False using ab assms(5) by blast
  qed
  from this [of 0] this [of 1] this [of 2] this [of 3] show ?thesis by (intro load32_cong) simp_all
qed

lemma load_bzero_entry:
  assumes "is_table s a" "is_table s b" "unat j < 1024"
  shows "load32 (bzero a PAGE_SIZE_4K m) (b + 4 * j) = (if a = b then 0 else load32 m (b + 4 * j))"
proof -
  have byte: "bzero a PAGE_SIZE_4K m (b + 4 * j + k) = (if a = b then 0 else m (b + 4 * j + k))" if k: "unat k < 4" for k
  proof -
    have u: "unat (4 * j + k) < 4096" using unat_entry_byte [OF assms(3) k] assms(3) k by simp
    define l where "l = b + 4 * j + k - a"
    have sum: "a + l = b + (4 * j + k)" by (simp add: l_def)
    show ?thesis
    proof (cases "a = b")
      case True
      then have "l = 4 * j + k" using sum by simp
      then show ?thesis using True u unfolding bzero_def l_def by (simp add: PAGE_SIZE_4K_eq word_less_nat_alt)
    next
      case False
      then have "\<not> unat l < 4096" using tables_disjoint [OF assms(1,2) _ u sum] by blast
      then show ?thesis using False unfolding bzero_def l_def by (simp add: PAGE_SIZE_4K_eq word_less_nat_alt)
    qed
  qed
  from byte [of 0] byte [of 1] byte [of 2] byte [of 3] show ?thesis
    by (cases "a = b") (auto intro: load32_cong load32_zero)
qed

section \<open>The map a page directory represents\<close>

abbreviation dir_entry :: "page_directory \<Rightarrow> sos \<Rightarrow> u32 \<Rightarrow> u32" where
  "dir_entry d s i \<equiv> load32 (mem s) (directory d + 4 * i)"

text \<open>
  The directory, the second-level tables and the four frames with the kernel's capabilities are
  distinct tables.
\<close>

definition cap_table :: "page_directory \<Rightarrow> u32 \<Rightarrow> u32" where
  "cap_table d k = kernel_page_table_caps d + 4096 * k"

definition pd_wf :: "page_directory \<Rightarrow> sos \<Rightarrow> bool" where
  "pd_wf d s \<longleftrightarrow> directory d \<noteq> 0 \<and> is_table s (directory d)
     \<and> (\<forall>k<4. is_table s (cap_table d k) \<and> cap_table d k \<noteq> directory d)
     \<and> (\<forall>i<1024. dir_entry d s i \<noteq> 0 \<longrightarrow> is_table s (dir_entry d s i) \<and> dir_entry d s i \<noteq> directory d
           \<and> (\<forall>k<4. cap_table d k \<noteq> dir_entry d s i)
           \<and> (\<forall>j<1024. dir_entry d s j = dir_entry d s i \<longrightarrow> j = i))"

definition pd_pages :: "page_directory \<Rightarrow> sos \<Rightarrow> u32 \<Rightarrow> u32 option" where
  "pd_pages d s p = (case page_directory_lookup (Some d) p s of Some (Some c) \<Rightarrow> Some c | _ \<Rightarrow> None)"

lemma pd_pages_eq:
  assumes "directory d \<noteq> 0"
  shows "pd_pages d s p =
    (if unat p mod 4096 \<noteq> 0 \<or> dir_entry d s (DIRECTORY_INDEX p) = 0
        \<or> load32 (mem s) (dir_entry d s (DIRECTORY_INDEX p) + 4 * TABLE_INDEX p) = 0 then None
     else Some (load32 (mem s) (dir_entry d s (DIRECTORY_INDEX p) + 4 * TABLE_INDEX p)))"
  using assms by (simp add: pd_pages_def page_directory_lookup_def IS_ALIGNED_4K_iff Let_def)

lemma index_bounds [sos_bounds]:
  "unat (DIRECTORY_INDEX p) < 1024" "unat (TABLE_INDEX p) < 1024" "DIRECTORY_INDEX p < 1024" "TABLE_INDEX p < 1024"
proof -
  show d: "unat (DIRECTORY_INDEX p) < 1024"
    unfolding unat_DIRECTORY_INDEX using unat_bound [of p] by (simp add: div_less_iff_less_mult)
  show t: "unat (TABLE_INDEX p) < 1024" unfolding unat_TABLE_INDEX by simp
  show "DIRECTORY_INDEX p < 1024" "TABLE_INDEX p < 1024" using d t by (simp_all add: word_less_nat_alt)
qed

lemma pd_wfD:
  assumes "pd_wf d s"
  shows "directory d \<noteq> 0" "is_table s (directory d)" "\<And>k. k < 4 \<Longrightarrow> is_table s (cap_table d k)" "\<And>k. k < 4 \<Longrightarrow> cap_table d k \<noteq> directory d"
    and "\<And>i. i < 1024 \<Longrightarrow> dir_entry d s i \<noteq> 0 \<Longrightarrow> is_table s (dir_entry d s i)"
    and "\<And>i. i < 1024 \<Longrightarrow> dir_entry d s i \<noteq> 0 \<Longrightarrow> dir_entry d s i \<noteq> directory d"
    and "\<And>i k. i < 1024 \<Longrightarrow> k < 4 \<Longrightarrow> dir_entry d s i \<noteq> 0 \<Longrightarrow> cap_table d k \<noteq> dir_entry d s i"
    and "\<And>i j. i < 1024 \<Longrightarrow> j < 1024 \<Longrightarrow> dir_entry d s i \<noteq> 0 \<Longrightarrow> dir_entry d s j = dir_entry d s i \<Longrightarrow> j = i"
  using assms unfolding pd_wf_def by blast+

text \<open>The predicates depend on the frame table and the buffer, not on other parts of the state.\<close>

lemma is_table_mem [simp]: "is_table (s\<lparr>mem := m\<rparr>) a = is_table s a"
  by (simp add: is_table_def table_frame_def valid_frame_def frame_at_def free_buffer_def frame_table_index_to_sos_vaddr_def
    INDEX_TO_ADDR_def ADDR_TO_INDEX_def)

lemma u32_less: "(i :: u32) < 1024 \<longleftrightarrow> unat i < 1024"
  by (simp add: word_less_nat_alt)

lemma pd_wf_cong:
  assumes "pd_wf d s" "\<And>a. is_table s a \<Longrightarrow> is_table t a" "\<And>i. i < 1024 \<Longrightarrow> dir_entry d t i = dir_entry d s i"
  shows "pd_wf d t"
proof -
  note wf = pd_wfD [OF assms(1)]
  show ?thesis unfolding pd_wf_def using wf(1-4) assms(2) wf(5-8) assms(3) by simp
qed

text \<open>Storing an entry of a second-level table.\<close>

lemma store_page:
  assumes "pd_wf d s" "unat p mod 4096 = 0" "dir_entry d s (DIRECTORY_INDEX p) \<noteq> 0" "v \<noteq> 0"
  defines "t \<equiv> s\<lparr>mem := store32 (dir_entry d s (DIRECTORY_INDEX p) + 4 * TABLE_INDEX p) v (mem s)\<rparr>"
  shows "pd_wf d t \<and> pd_pages d t = (pd_pages d s)(p \<mapsto> v)"
proof -
  note wf = pd_wfD [OF assms(1)]
  let ?T = "dir_entry d s (DIRECTORY_INDEX p)"
  have T: "is_table s ?T" "?T \<noteq> directory d" using wf(5,6) index_bounds(3) assms(3) by blast+
  have ent: "dir_entry d t i = dir_entry d s i" if "i < 1024" for i
    using load_store_entry [OF T(1) wf(2) index_bounds(2), of i] T(2) that by (simp add: t_def u32_less)
  have "pd_wf d t" by (rule pd_wf_cong [OF assms(1)]) (simp_all add: ent, simp add: t_def)
  moreover have "pd_pages d t q = ((pd_pages d s)(p \<mapsto> v)) q" for q
  proof (cases "q = p")
    case True
    then show ?thesis using assms(2-4) ent [OF index_bounds(3)] unfolding pd_pages_eq [OF wf(1)] by (simp add: t_def)
  next
    case False
    show ?thesis
    proof (cases "unat q mod 4096 = 0 \<and> dir_entry d s (DIRECTORY_INDEX q) \<noteq> 0")
      case True
      then have "?T \<noteq> dir_entry d s (DIRECTORY_INDEX q) \<or> TABLE_INDEX p \<noteq> TABLE_INDEX q"
        using False page_index_inject [of p q] assms(2) wf(8) [OF index_bounds(3) index_bounds(3)] True by metis
      then show ?thesis
        using load_store_entry [OF T(1) wf(5) [OF index_bounds(3), of q] index_bounds(2) index_bounds(2)] True False ent [OF index_bounds(3)]
        unfolding pd_pages_eq [OF wf(1)] by (simp add: t_def)
    next
      case notq: False
      then show ?thesis using False ent [OF index_bounds(3)] unfolding pd_pages_eq [OF wf(1)] by auto
    qed
  qed
  ultimately show ?thesis by blast
qed

section \<open>Allocating a frame without paging\<close>

text \<open>Calls that touch only the allocator and the log.\<close>

definition kernel_step :: "sos \<Rightarrow> sos \<Rightarrow> bool" where
  "kernel_step s s' \<longleftrightarrow> (\<exists>u l. s' = s\<lparr>ut_state := u, klog := l\<rparr>)"

lemma kernel_step_refl [simp]: "kernel_step s s"
  unfolding kernel_step_def by (rule exI [of _ "ut_state s"], rule exI [of _ "klog s"]) simp

lemma kernel_step_trans [trans]: "kernel_step s t \<Longrightarrow> kernel_step t u \<Longrightarrow> kernel_step s u"
  unfolding kernel_step_def by (elim exE, simp only:, rule exI, rule exI, simp)

lemma kernel_step_ask [simp]: "kernel_step s (snd (ask E c s))"
  unfolding kernel_step_def ask_def by (rule exI [of _ "ut_state s"]) auto

lemma kernel_step_ut_alloc: "sos_ut_alloc E n s = Some (a, s') \<Longrightarrow> kernel_step s s'"
  by (auto simp: sos_ut_alloc_def kernel_step_def bind_eq_Some_conv)

lemma kernel_step_ut_free:
  assumes "sos_ut_free a n s = Some s'" shows "kernel_step s s'"
proof -
  from assms obtain u where "s' = s\<lparr>ut_state := u\<rparr>" by (auto simp: sos_ut_free_def bind_eq_Some_conv)
  then have "s' = s\<lparr>ut_state := u, klog := klog s\<rparr>" by simp
  then show ?thesis unfolding kernel_step_def by blast
qed

lemma kernel_step_map_page_table:
  assumes "map_page_table E pd a s = Some (err, c, s')"
  shows "kernel_step s s'"
proof -
  from assms obtain addr s1 where s1: "sos_ut_alloc E seL4_PageTableBits s = Some (addr, s1)" "kernel_step s s1"
    by (auto simp: map_page_table_def bind_eq_Some_conv dest: kernel_step_ut_alloc)
  let ?s2 = "snd (ask E (K_retype addr seL4_PageTableBits) s1)"
  have "s' = s1 \<or> sos_ut_free addr seL4_PageTableBits ?s2 = Some s'
      \<or> s' = snd (ask E (K_pt_map (fst (ask E (K_retype addr seL4_PageTableBits) s1)) pd a) ?s2)"
    using assms unfolding map_page_table_def s1(1)
    by (auto simp: cspace_ut_retype_addr_def ask_def bind_eq_Some_conv split: if_splits)
  then have "kernel_step s1 s'"
  proof (elim disjE)
    assume "sos_ut_free addr seL4_PageTableBits ?s2 = Some s'"
    then show ?thesis using kernel_step_trans [OF kernel_step_ask] kernel_step_ut_free by blast
  qed (simp_all add: kernel_step_trans [OF kernel_step_ask kernel_step_ask])
  with s1(2) show ?thesis by (rule kernel_step_trans)
qed

lemma kernel_step_map_page:
  assumes "map_page E c pd a r s = Some (err, c', s')"
  shows "kernel_step s s'"
proof -
  let ?s1 = "snd (ask E (K_page_map c pd a r) s)"
  have "s' = ?s1 \<or> (\<exists>e c s2. map_page_table E pd a ?s1 = Some (e, c, s2) \<and> (s' = s2 \<or> (\<exists>k. s' = snd (ask E k s2))))"
    using assms by (auto simp: map_page_def ask_def bind_eq_Some_conv split: if_splits)
  then show ?thesis
  proof (elim disjE exE conjE)
    fix e c s2
    assume m: "map_page_table E pd a ?s1 = Some (e, c, s2)"
    have s2: "kernel_step s s2" using kernel_step_trans [OF kernel_step_ask kernel_step_map_page_table [OF m]] .
    show "kernel_step s s'" if "s' = s2" using s2 that by simp
    show "kernel_step s s'" if "s' = snd (ask E k s2)" for k using kernel_step_trans [OF s2 kernel_step_ask] that by simp
  qed simp
qed

lemma retype_and_map_ok:
  assumes "retype_and_map E paddr a s = Some (0, c, s')"
  shows "c \<noteq> 0 \<and> kernel_step s s'"
proof -
  let ?s1 = "snd (ask E (K_retype paddr seL4_PageBits) s)"
  from assms obtain e pt where "c \<noteq> 0" "map_page E c seL4_CapInitThreadPD a seL4_AllRights ?s1 = Some (e, pt, s')"
    by (auto simp: retype_and_map_def cspace_ut_retype_addr_def ask_def bind_eq_Some_conv split: if_splits)
  then show ?thesis using kernel_step_map_page kernel_step_trans [of s ?s1] by simp
qed

text \<open>The buffer of free frames holds distinct valid frames.\<close>

definition buffer_ok :: "sos \<Rightarrow> bool" where
  "buffer_ok s \<longleftrightarrow> length (free_frames s) = 64 \<and> unat (free_index s) \<le> 64
     \<and> distinct (take (unat (free_index s)) (free_frames s)) \<and> (\<forall>f\<in>free_buffer s. valid_frame s f)"

text \<open>The state in which a frame can be had without paging.\<close>

definition unpaged :: "sos_env \<Rightarrow> sos \<Rightarrow> bool" where
  "unpaged E s \<longleftrightarrow> frame_table_cnt s < frame_table_max s
     \<and> (free_index s = 0 \<longrightarrow> (\<forall>v s'. frame_alloc_ut E 1 s \<noteq> Some (- 1, v, s')))"

definition mem_inv :: "sos \<Rightarrow> bool" where
  "mem_inv s \<longleftrightarrow> buffer_ok s \<and> unat (ut_base s) mod 4096 = 0 \<and> unat (ut_base s) \<le> unat (ut_top s) \<and> unat (ut_top s) + 2 ^ 29 < 2 ^ 32
     \<and> (\<exists>n L. ut_inv n (ut_state s) L) \<and> hints_ok (ut_state s)"

text \<open>What a newly allocated frame promises: it is zeroed and is none of the tables.\<close>

definition fresh_frame :: "sos \<Rightarrow> u32 \<Rightarrow> u32 \<Rightarrow> sos \<Rightarrow> bool" where
  "fresh_frame s f v s' \<longleftrightarrow> v = frame_vaddr s f \<and> mem s' = bzero v PAGE_SIZE_4K (mem s) \<and> ut_base s' = ut_base s
     \<and> ut_top s' = ut_top s \<and> f \<notin> free_buffer s' \<and> (\<forall>g. table_frame s g \<longrightarrow> table_frame s' g \<and> g \<noteq> f)"

lemma push_drop_aligned:
  fixes p b :: u32
  assumes "unat p mod 4096 = 0" "unat b mod 4096 = 0"
  shows "b + push_bit 12 (drop_bit 12 (p - b)) = p"
proof -
  have al: "push_bit 12 (drop_bit 12 x) = x" if "unat x mod 4096 = 0" for x :: u32
  proof -
    have "unat x div 4096 * 4096 = unat x" using that by (simp add: mod_0_imp_dvd)
    then have "unat (push_bit 12 (drop_bit 12 x)) = unat x" using unat_word_align [of x 12] unfolding word_align by simp
    then show ?thesis by (rule word_unat_eq_iff [THEN iffD2])
  qed
  have "push_bit 12 (drop_bit 12 (push_bit 12 y)) = push_bit 12 (y :: u32)" for y
    by (rule bit_word_eqI) (auto simp: bit_simps)
  moreover have "p - b = push_bit 12 (drop_bit 12 p - drop_bit 12 b)"
    using al [OF assms(1)] al [OF assms(2)] by (simp add: push_bit_eq_mult left_diff_distrib)
  ultimately have "push_bit 12 (drop_bit 12 (p - b)) = p - b" by (simp only:)
  then show ?thesis by simp
qed

lemma buffer_frame:
  assumes "buffer_ok s" "free_index s > 0"
  defines "i \<equiv> unat (free_index s - 1)"
  shows "i < 64" "free_frames s ! i \<in> free_buffer s" "unat (free_index s) = Suc i"
    "free_frames s ! i \<notin> set (take i (free_frames s))" "set (take i (free_frames s)) \<subseteq> free_buffer s"
proof -
  have "0 < unat (free_index s)" using assms(2) by (simp add: word_gt_0 unat_gt_0)
  then show n: "unat (free_index s) = Suc i" unfolding i_def using assms(2)
    by (simp add: unat_minus_one word_gt_0)
  then show i: "i < 64" using assms(1) by (simp add: buffer_ok_def)
  have tk: "take (Suc i) (free_frames s) = take i (free_frames s) @ [free_frames s ! i]"
    using i assms(1) by (simp add: take_Suc_conv_app_nth buffer_ok_def)
  show "free_frames s ! i \<in> free_buffer s" "set (take i (free_frames s)) \<subseteq> free_buffer s"
    unfolding free_buffer_def n tk by auto
  have "distinct (take (Suc i) (free_frames s))" using assms(1) by (simp add: buffer_ok_def n)
  then show "free_frames s ! i \<notin> set (take i (free_frames s))" unfolding tk by simp
qed

lemma frame_alloc_buffer:
  assumes "mem_inv s" "frame_table_cnt s < frame_table_max s" "free_index s > 0"
  obtains f v s' where "frame_alloc E s = Some (f, v, s')" "fresh_frame s f v s'" "valid_frame s' f"
proof -
  define i where "i = unat (free_index s - 1)"
  define f where "f = free_frames s ! i"
  have b: "buffer_ok s" using assms(1) by (simp add: mem_inv_def)
  note bf = buffer_frame [OF b assms(3), folded i_def, folded f_def]
  have vf: "valid_frame s f" using b bf(2) by (simp add: buffer_ok_def)
  then obtain ft where ft: "frame_table s = Some ft" "unat f < length ft" by (auto simp: valid_frame_def)
  define v where "v = PHYSICAL_VSTART + INDEX_TO_ADDR s f"
  define s' where "s' = s\<lparr>free_index := free_index s - 1, mem := bzero v PAGE_SIZE_4K (mem s),
      frame_table := Some (ft[unat f := (ft ! unat f)\<lparr>fe_chance := FIRST_CHANCE\<rparr>])\<rparr>"
  have al: "frame_alloc E s = Some (f, v, s')"
    using ft assms(2,3) bf(1) b
    by (simp add: frame_alloc_def not_le [symmetric] arr_get_def arr_set_def i_def [symmetric] f_def [symmetric] buffer_ok_def)
       (simp add: s'_def v_def INDEX_TO_ADDR_def f_def i_def Let_def)
  have at: "frame_at s' j = (if j = unat f then (frame_at s j)\<lparr>fe_chance := FIRST_CHANCE\<rparr> else frame_at s j)" for j
    using ft by (simp add: frame_at_def s'_def)
  have fb: "free_buffer s' = set (take i (free_frames s))" by (simp add: free_buffer_def s'_def i_def)
  have valid: "valid_frame s' g = valid_frame s g" for g
    using ft by (simp add: valid_frame_def at ADDR_TO_INDEX_def) (simp add: s'_def)
  have "table_frame s' g \<and> g \<noteq> f" if "table_frame s g" for g
    using that bf(2,5) fb by (auto simp: table_frame_def valid at word_unat_eq_iff [symmetric])
  then have "fresh_frame s f v s'"
    using bf(4) by (simp add: fresh_frame_def fb frame_table_index_to_sos_vaddr_def frame_table_paddr_to_sos_vaddr_def)
      (simp add: s'_def v_def add.commute)
  with al show ?thesis using that valid vf by blast
qed

lemma LOG_BASE_2_1: "LOG_BASE_2 1 = 0"
  by code_simp

lemma frame_alloc_ut_cases:
  assumes "frame_alloc_ut E 1 s = Some (f, v, s')" "f \<noteq> - 1"
  obtains paddr s1 s2 ft c where "sos_ut_alloc E 12 s = Some (paddr, s1)" "paddr \<noteq> 0" "kernel_step s1 s2" "c \<noteq> 0"
    "f = ADDR_TO_INDEX s1 paddr" "v = PHYSICAL_VSTART + paddr"
    "frame_table s2 = Some ft" "unat f < length ft" "fe_cap (ft ! unat f) = 0"
    "s' = s2\<lparr>frame_table := Some (ft[unat f := \<lparr>fe_cap = c, fe_chance = FIRST_CHANCE, fe_pid = 0, fe_page_id = 0\<rparr>]),
             frame_table_cnt := frame_table_cnt s2 + 1, mem := bzero v PAGE_SIZE_4K (mem s2)\<rparr>"
proof -
  from assms obtain paddr s1 where s1: "sos_ut_alloc E 12 s = Some (paddr, s1)" "paddr \<noteq> 0"
    by (auto simp: frame_alloc_ut_def Let_def LOG_BASE_2_1 seL4_PageBits_def bind_eq_Some_conv split: if_splits)
  from assms s1 obtain c s2 where c: "retype_and_map E paddr (PHYSICAL_VSTART + paddr) s1 = Some (0, c, s2)"
    by (auto simp: frame_alloc_ut_def Let_def LOG_BASE_2_1 seL4_PageBits_def bind_eq_Some_conv split: if_splits)
  have k: "c \<noteq> 0" "kernel_step s1 s2" using retype_and_map_ok [OF c] by simp_all
  have ix: "ADDR_TO_INDEX s2 paddr = ADDR_TO_INDEX s1 paddr" using k(2) by (auto simp: kernel_step_def ADDR_TO_INDEX_def)
  from assms s1 c obtain ft where ft: "frame_table s2 = Some ft" "f = ADDR_TO_INDEX s1 paddr" "v = PHYSICAL_VSTART + paddr"
      "unat f < length ft" "fe_cap (ft ! unat f) = 0"
      "s' = s2\<lparr>frame_table := Some (ft[unat f := \<lparr>fe_cap = c, fe_chance = FIRST_CHANCE, fe_pid = 0, fe_page_id = 0\<rparr>]),
             frame_table_cnt := frame_table_cnt s2 + 1, mem := bzero v PAGE_SIZE_4K (mem s2)\<rparr>"
    by (auto simp: frame_alloc_ut_def Let_def LOG_BASE_2_1 seL4_PageBits_def bind_eq_Some_conv ix arr_get_Some arr_set_Some split: if_splits)
  show ?thesis by (rule that [OF s1 k(2,1) ft(2,3,1,4,5,6)])
qed

lemma frame_alloc_ut_fresh:
  assumes "mem_inv s" "frame_alloc_ut E 1 s = Some (f, v, s')" "f \<noteq> - 1"
  shows "fresh_frame s f v s' \<and> fe_cap (frame_at s' (unat f)) \<noteq> 0"
proof -
  from assms(2,3) obtain paddr s1 s2 ft c where a: "sos_ut_alloc E 12 s = Some (paddr, s1)" "paddr \<noteq> 0" "kernel_step s1 s2" "c \<noteq> 0"
    and f: "f = ADDR_TO_INDEX s1 paddr" "v = PHYSICAL_VSTART + paddr"
    and ft: "frame_table s2 = Some ft" "unat f < length ft" "fe_cap (ft ! unat f) = 0"
    and s': "s' = s2\<lparr>frame_table := Some (ft[unat f := \<lparr>fe_cap = c, fe_chance = FIRST_CHANCE, fe_pid = 0, fe_page_id = 0\<rparr>]),
             frame_table_cnt := frame_table_cnt s2 + 1, mem := bzero v PAGE_SIZE_4K (mem s2)\<rparr>"
    by (rule frame_alloc_ut_cases)
  obtain n L where inv: "ut_inv n (ut_state s) L" "hints_ok (ut_state s)" using assms(1) by (auto simp: mem_inv_def)
  have "12 \<in> ut_sizes" by (simp add: ut_sizes_def)
  with inv have al: "unat paddr mod 4096 = 0"
  proof (cases rule: ut_alloc_spec [where mok = "\<lambda>i. answer E (klog s) (K_ut_alloc 12 i) \<noteq> 0"])
    case (none st')
    then show ?thesis using a(1,2) by (simp add: sos_ut_alloc_def)
  next
    case (got addr st')
    then show ?thesis using a(1) ut_inv_live_block(1) [OF got(3), of "unat addr" 12] by (simp add: sos_ut_alloc_def)
  qed
  from kernel_step_trans [OF kernel_step_ut_alloc [OF a(1)] a(3)] obtain u l where s2: "s2 = s\<lparr>ut_state := u, klog := l\<rparr>"
    by (auto simp: kernel_step_def)
  from kernel_step_ut_alloc [OF a(1)] have "ut_base s1 = ut_base s" by (auto simp: kernel_step_def)
  then have "INDEX_TO_ADDR s f = paddr"
    using push_drop_aligned [OF al, of "ut_base s"] assms(1) by (simp add: f(1) INDEX_TO_ADDR_def ADDR_TO_INDEX_def seL4_PageBits_def mem_inv_def)
  then have v: "v = frame_vaddr s f"
    by (simp add: f(2) frame_table_index_to_sos_vaddr_def frame_table_paddr_to_sos_vaddr_def add.commute)
  have at: "frame_at s' j = (if j = unat f then \<lparr>fe_cap = c, fe_chance = FIRST_CHANCE, fe_pid = 0, fe_page_id = 0\<rparr> else frame_at s j)" for j
    using ft s2 by (simp add: frame_at_def s')
  have nf: "\<not> valid_frame s f" using ft s2 by (simp add: valid_frame_def frame_at_def)
  have valid: "valid_frame s' g" if "valid_frame s g" for g
    using that nf ft s2 by (auto simp: valid_frame_def at ADDR_TO_INDEX_def) (auto simp: s' s2)
  have fb: "free_buffer s' = free_buffer s" by (simp add: free_buffer_def s' s2)
  have "f \<notin> free_buffer s" using nf assms(1) by (auto simp: mem_inv_def buffer_ok_def)
  moreover have "table_frame s' g \<and> g \<noteq> f" if "table_frame s g" for g
    using that nf valid by (auto simp: table_frame_def fb at word_unat_eq_iff [symmetric])
  ultimately have "fresh_frame s f v s'" unfolding fresh_frame_def fb using v by (simp add: s' s2)
  then show ?thesis using at a(4) by simp
qed

lemma frame_alloc_fresh:
  assumes "mem_inv s" "unpaged E s" "frame_table s \<noteq> None" "frame_alloc E s = Some (f, v, s')"
  shows "fresh_frame s f v s'"
proof (cases "free_index s > 0")
  case True
  then show ?thesis using frame_alloc_buffer [OF assms(1) _ True, of E] assms(2,4) by (auto simp: unpaged_def)
next
  case False
  then have "frame_alloc_ut E 1 s = Some (f, v, s') \<and> f \<noteq> - 1"
    using assms(2-4) by (auto simp: frame_alloc_def unpaged_def not_le [symmetric] bind_eq_Some_conv word_gt_0 split: if_splits)
  then show ?thesis using frame_alloc_ut_fresh [OF assms(1)] by blast
qed

section \<open>Inserting and evicting\<close>

lemma set_chance_ok:
  assumes "frame_table_set_chance f c s = Some (0, s')"
  shows "valid_frame s f" "s' = set_frame (unat f) ((frame_at s (unat f))\<lparr>fe_chance := c\<rparr>) s"
proof -
  from assms obtain ft e where c: "frame_checked f s = Some (Some (ft, e))"
    by (auto simp: frame_table_set_chance_def bind_eq_Some_conv split: option.splits)
  then have ft: "frame_table s = Some ft" "unat f \<le> unat (ADDR_TO_INDEX s (ut_top s))" "unat f < length ft" "e = ft ! unat f" "fe_cap e \<noteq> 0"
    by (auto simp: frame_checked_def bind_eq_Some_conv in_range_u32 arr_get_Some split: option.splits if_splits)
  then show "valid_frame s f" by (simp add: valid_frame_def frame_at_def)
  show "s' = set_frame (unat f) ((frame_at s (unat f))\<lparr>fe_chance := c\<rparr>) s"
    using assms c ft by (simp add: frame_table_set_chance_def set_frame_def frame_at_def arr_set_def)
qed

lemma pin_one: "pin_frames f 1 s = Some s' \<longleftrightarrow> frame_table_set_chance f PINNED s = Some (0, s')"
  by (auto simp: pin_frames_def bind_eq_Some_conv)

lemma is_table_sub:
  assumes "is_table s a" "ut_base s' = ut_base s" "\<And>g. table_frame s g \<Longrightarrow> table_frame s' g"
  shows "is_table s' a"
proof -
  obtain f where "a = frame_vaddr s f" "table_frame s f" using assms(1) by (auto simp: is_table_def)
  moreover have "frame_vaddr s' f = frame_vaddr s f"
    using assms(2) by (simp add: frame_table_index_to_sos_vaddr_def INDEX_TO_ADDR_def)
  ultimately show ?thesis using assms(3) by (metis is_table_def)
qed

lemma pinned_table:
  assumes "fresh_frame s f v s1" "frame_table_set_chance f PINNED s1 = Some (0, s2)"
  shows "is_table s2 v" "\<And>a. is_table s a \<Longrightarrow> is_table s2 a \<and> a \<noteq> v" "mem s2 = bzero v PAGE_SIZE_4K (mem s)" "ut_top s2 = ut_top s" "ut_base s2 = ut_base s"
proof -
  note p = set_chance_ok [OF assms(2)] and fr = assms(1) [unfolded fresh_frame_def]
  have ft: "unat f < length (the (frame_table s1))" "frame_table s1 \<noteq> None" using p(1) by (auto simp: valid_frame_def)
  have at: "frame_at s2 j = (if j = unat f then (frame_at s1 j)\<lparr>fe_chance := PINNED\<rparr> else frame_at s1 j)" for j
    unfolding p(2) using frame_at_set_frame [OF ft] by simp
  have sel: "ut_base s2 = ut_base s1" "ut_top s2 = ut_top s1" "mem s2 = mem s1" "free_buffer s2 = free_buffer s1"
      "length (the (frame_table s2)) = length (the (frame_table s1))" "frame_table s2 \<noteq> None"
    using ft(2) unfolding p(2) by (auto simp: set_frame_def free_buffer_def)
  have valid: "valid_frame s2 g = valid_frame s1 g" for g
    using sel ft(2) by (simp add: valid_frame_def at ADDR_TO_INDEX_def)
  show base: "ut_base s2 = ut_base s" and "ut_top s2 = ut_top s" and "mem s2 = bzero v PAGE_SIZE_4K (mem s)" using sel fr by simp_all
  have vs: "frame_vaddr s2 g = frame_vaddr s g" for g
    by (simp add: frame_table_index_to_sos_vaddr_def INDEX_TO_ADDR_def base)
  have tf: "table_frame s2 f" using p(1) fr by (simp add: table_frame_def valid at sel)
  then show "is_table s2 v" using fr vs by (metis is_table_def)
  have keep: "table_frame s2 g \<and> g \<noteq> f" if "table_frame s g" for g
    using that fr by (auto simp: table_frame_def valid at sel)
  fix a
  assume a: "is_table s a"
  then obtain g where g: "a = frame_vaddr s g" "table_frame s g" by (auto simp: is_table_def)
  have "unat g < 2 ^ 20" "unat f < 2 ^ 20"
    using valid_frame_bound [of s2 g] valid_frame_bound [of s2 f] keep [OF g(2)] tf by (simp_all add: table_frame_def)
  then have "a \<noteq> v" using frames_disjoint [of f g 0 0 s] keep [OF g(2)] fr g(1) by auto
  then show "is_table s2 a \<and> a \<noteq> v" using is_table_sub [OF a base] keep by blast
qed

text \<open>Entering a new, empty second-level table leaves the map as it is.\<close>

lemma add_table:
  assumes "pd_wf d s" "fresh_frame s f v s1" "frame_table_set_chance f PINNED s1 = Some (0, s2)"
    and "unat i < 1024" "dir_entry d s i = 0" "v \<noteq> 0"
  defines "t \<equiv> s2\<lparr>mem := store32 (directory d + 4 * i) v (mem s2)\<rparr>"
  shows "pd_wf d t" "pd_pages d t = pd_pages d s" "dir_entry d t i = v"
proof -
  note wf = pd_wfD [OF assms(1)] and pt = pinned_table [OF assms(2,3)]
  have D: "is_table s2 (directory d)" "directory d \<noteq> v" using pt(2) [OF wf(2)] by auto
  have ent: "dir_entry d t j = (if j = i then v else dir_entry d s j)" if "j < 1024" for j
  proof -
    have j: "unat j < 1024" using that by (simp add: u32_less)
    have "dir_entry d s2 j = dir_entry d s j" using load_bzero_entry [OF pt(1) D(1) j] D(2) by (simp add: pt(3))
    then show ?thesis using load_store_entry [OF D(1) D(1) assms(4) j] by (simp add: t_def)
  qed
  show "dir_entry d t i = v" using ent assms(4) by (simp add: u32_less)
  have T: "is_table t a = is_table s2 a" for a by (simp add: t_def)
  have caps: "is_table s2 (cap_table d k) \<and> cap_table d k \<noteq> v \<and> cap_table d k \<noteq> directory d" if "k < 4" for k
    using pt(2) [OF wf(3)] wf(4) that by blast
  have old: "is_table s2 (dir_entry d s j) \<and> dir_entry d s j \<noteq> v" if "j < 1024" "dir_entry d s j \<noteq> 0" for j
    using pt(2) [OF wf(5)] that by blast
  show "pd_wf d t" unfolding pd_wf_def T
    using wf(1) D caps pt(1) old wf(6-8) ent assms(5,6) by auto
  have word: "load32 (mem t) (a + 4 * j) = (if a = v then 0 else load32 (mem s) (a + 4 * j))"
    if "is_table s2 a" "a \<noteq> directory d" "unat j < 1024" for a j
    using load_store_entry [OF D(1) that(1) assms(4) that(3)] load_bzero_entry [OF pt(1) that(1,3)] that(2) by (auto simp: t_def pt(3))
  show "pd_pages d t = pd_pages d s"
  proof
    fix q
    let ?e = "dir_entry d s (DIRECTORY_INDEX q)"
    have e: "dir_entry d t (DIRECTORY_INDEX q) = (if DIRECTORY_INDEX q = i then v else ?e)" by (rule ent) (rule index_bounds)
    show "pd_pages d t q = pd_pages d s q"
    proof (cases "DIRECTORY_INDEX q = i")
      case True
      then show ?thesis using word [OF pt(1) D(2) [symmetric] index_bounds(2), of q] e assms(5) unfolding pd_pages_eq [OF wf(1)] by simp
    next
      case False
      show ?thesis
      proof (cases "?e = 0")
        case True
        then show ?thesis using e False unfolding pd_pages_eq [OF wf(1)] by simp
      next
        case nz: False
        then have "is_table s2 ?e" "?e \<noteq> v" "?e \<noteq> directory d" using old wf(6) index_bounds(3) by blast+
        then show ?thesis using word [OF _ _ index_bounds(2), of ?e q] e False unfolding pd_pages_eq [OF wf(1)] by simp
      qed
    qed
  qed
qed

text \<open>The capability table is apart from everything the map depends on.\<close>

lemma cap_table_entry:
  obtains k j where "k < 4" "unat j < 1024" "kernel_page_table_caps d + 4 * CAP_INDEX p = cap_table d k + 4 * j"
proof -
  let ?c = "unat (CAP_INDEX p)"
  have c: "?c < 4096" unfolding unat_CAP_INDEX using unat_bound [of p] by (simp add: div_less_iff_less_mult)
  define k j where "k = (of_nat (?c div 1024) :: u32)" and "j = (of_nat (?c mod 1024) :: u32)"
  have q: "?c div 1024 < 4" "?c mod 1024 < 1024" using c by (simp_all add: div_less_iff_less_mult)
  then have u: "unat k = ?c div 1024" "unat j = ?c mod 1024" by (simp_all add: k_def j_def unat_of_nat)
  have "CAP_INDEX p = 1024 * k + j"
    using div_mult_mod_eq [of ?c 1024] u q by (simp add: word_unat_eq_iff unat_word_ariths mult.commute)
  then have "kernel_page_table_caps d + 4 * CAP_INDEX p = cap_table d k + 4 * j" by (simp add: cap_table_def algebra_simps)
  moreover have "k < 4" "unat j < 1024" using u q by (simp_all add: word_less_nat_alt)
  ultimately show ?thesis using that by blast
qed

lemma store_cap:
  fixes p c :: u32
  assumes "pd_wf d s"
  defines "t \<equiv> s\<lparr>mem := store32 (kernel_page_table_caps d + 4 * CAP_INDEX p) c (mem s)\<rparr>"
  shows "pd_wf d t \<and> pd_pages d t = pd_pages d s"
proof -
  note wf = pd_wfD [OF assms(1)]
  obtain k j where k: "k < 4" "unat j < 1024" "kernel_page_table_caps d + 4 * CAP_INDEX p = cap_table d k + 4 * j"
    by (rule cap_table_entry)
  have word: "load32 (mem t) (a + 4 * i) = load32 (mem s) (a + 4 * i)" if "is_table s a" "cap_table d k \<noteq> a" "unat i < 1024" for a i
    using load_store_entry [OF wf(3) [OF k(1)] that(1) k(2) that(3)] that(2) by (simp add: t_def k(3))
  have ent: "dir_entry d t i = dir_entry d s i" if "i < 1024" for i
    using word [OF wf(2) wf(4) [OF k(1)]] that by (simp add: u32_less)
  have "pd_wf d t" by (rule pd_wf_cong [OF assms(1)]) (simp_all add: ent, simp add: t_def)
  moreover have "pd_pages d t q = pd_pages d s q" for q
  proof (cases "dir_entry d s (DIRECTORY_INDEX q) = 0")
    case False
    then have "is_table s (dir_entry d s (DIRECTORY_INDEX q))" "cap_table d k \<noteq> dir_entry d s (DIRECTORY_INDEX q)"
      using wf(5,7) k(1) index_bounds(3) by blast+
    from word [OF this index_bounds(2), of q] show ?thesis
      using ent [OF index_bounds(3), of q] unfolding pd_pages_eq [OF wf(1)] by simp
  qed (use ent [OF index_bounds(3), of q] in \<open>simp add: pd_pages_eq [OF wf(1)]\<close>)
  ultimately show ?thesis by blast
qed

lemma frame_vaddr_nonzero:
  assumes "mem_inv s" "unat f \<le> unat (ADDR_TO_INDEX s (ut_top s))"
  shows "frame_vaddr s f \<noteq> 0"
proof -
  have le: "unat (ut_base s) \<le> unat (ut_top s)" "unat (ut_top s) + 2 ^ 29 < 2 ^ 32" using assms(1) by (simp_all add: mem_inv_def)
  have "unat (ADDR_TO_INDEX s (ut_top s)) = unat (ut_top s - ut_base s) div 2 ^ 12"
    unfolding ADDR_TO_INDEX_def seL4_PageBits_def unat_drop_bit_eq by (rule drop_bit_eq_div)
  then have ix: "unat f \<le> (unat (ut_top s) - unat (ut_base s)) div 4096" using assms(2) le(1) by (simp add: unat_sub word_le_nat_alt)
  then have "unat f * 4096 \<le> unat (ut_top s) - unat (ut_base s)" by (simp add: less_eq_div_iff_mult_less_eq)
  moreover have "unat f < 2 ^ 20" using assms(2) unat_ADDR_TO_INDEX [of s "ut_top s"] by simp
  ultimately have "unat (ut_base s + push_bit 12 f + 0x20000000) = unat (ut_base s) + unat f * 4096 + 2 ^ 29"
    using frame_offset [of f 0] le by (simp add: unat_word_ariths)
  then show ?thesis
    by (auto simp: frame_table_index_to_sos_vaddr_def frame_table_paddr_to_sos_vaddr_def INDEX_TO_ADDR_def seL4_PageBits_def PHYSICAL_VSTART_def)
qed

text \<open>The second level of a page: there already, or allocated, pinned and entered.\<close>

definition second_level_ready :: "page_directory \<Rightarrow> u32 \<Rightarrow> sos \<Rightarrow> sos \<Rightarrow> bool" where
  "second_level_ready d p s t \<longleftrightarrow> pd_wf d t \<and> pd_pages d t = pd_pages d s \<and> dir_entry d t (DIRECTORY_INDEX p) \<noteq> 0"

lemma insert_cases:
  assumes "page_directory_insert E (Some d) p cap kcap s = Some (0, s')"
    and "pd_wf d s" "mem_inv s" "unpaged E s"
  obtains t where "unat p mod 4096 = 0" "\<not> IS_EVICTED cap" "second_level_ready d p s t"
    "s' = t\<lparr>mem := store32 (dir_entry d t (DIRECTORY_INDEX p) + 4 * TABLE_INDEX p) cap (mem t)\<rparr>
     \<or> s' = t\<lparr>mem := store32 (kernel_page_table_caps d + 4 * CAP_INDEX p) kcap
             (store32 (dir_entry d t (DIRECTORY_INDEX p) + 4 * TABLE_INDEX p) cap (mem t))\<rparr>"
proof (cases "dir_entry d s (DIRECTORY_INDEX p) = 0")
  case False
  moreover have "directory d \<noteq> 0" by (rule pd_wfD [OF assms(2)])
  ultimately show ?thesis
    using assms(1) that [of s] assms(2)
    by (auto simp: page_directory_insert_def IS_ALIGNED_4K_iff bind_eq_Some_conv Let_def second_level_ready_def split: if_splits)
next
  case True
  note wf = pd_wfD [OF assms(2)]
  from True wf(1) assms(1) obtain f v s1 s2 where al: "frame_alloc E s = Some (f, v, s1)" "pin_frames f 1 s1 = Some s2"
    by (auto simp: page_directory_insert_def IS_ALIGNED_4K_iff bind_eq_Some_conv Let_def split: if_splits)
  define t where "t = s2\<lparr>mem := store32 (directory d + 4 * DIRECTORY_INDEX p) v (mem s2)\<rparr>"
  have fresh: "fresh_frame s f v s1"
    using frame_alloc_fresh [OF assms(3,4) _ al(1)] wf(2) by (auto simp: is_table_def table_frame_def valid_frame_def)
  have pin: "frame_table_set_chance f PINNED s1 = Some (0, s2)" using al(2) unfolding pin_one .
  have "v \<noteq> 0"
    using frame_vaddr_nonzero [OF assms(3), of f] set_chance_ok(1) [OF pin] fresh by (simp add: fresh_frame_def valid_frame_def ADDR_TO_INDEX_def)
  note new = add_table [OF assms(2) fresh pin index_bounds(1) True this, folded t_def]
  have ready: "second_level_ready d p s t" using new \<open>v \<noteq> 0\<close> by (simp add: second_level_ready_def)
  have r: "unat p mod 4096 = 0" "\<not> IS_EVICTED cap"
    "s' = t\<lparr>mem := store32 (dir_entry d t (DIRECTORY_INDEX p) + 4 * TABLE_INDEX p) cap (mem t)\<rparr>
     \<or> s' = t\<lparr>mem := store32 (kernel_page_table_caps d + 4 * CAP_INDEX p) kcap
             (store32 (dir_entry d t (DIRECTORY_INDEX p) + 4 * TABLE_INDEX p) cap (mem t))\<rparr>"
    using True wf(1) assms(1) al \<open>v \<noteq> 0\<close>
    by (auto simp: page_directory_insert_def IS_ALIGNED_4K_iff bind_eq_Some_conv Let_def t_def split: if_splits)
  show ?thesis by (rule that [OF r(1,2) ready r(3)])
qed

lemma insert_refines:
  assumes "pd_wf d s" "mem_inv s" "unpaged E s" "cap \<noteq> 0" "page_directory_insert E (Some d) p cap kcap s = Some (0, s')"
  shows "pd_wf d s'" "pd_pages d s' = (pd_pages d s)(p \<mapsto> cap)"
proof -
  from assms obtain t where al: "unat p mod 4096 = 0" and t: "second_level_ready d p s t"
    and s': "s' = t\<lparr>mem := store32 (dir_entry d t (DIRECTORY_INDEX p) + 4 * TABLE_INDEX p) cap (mem t)\<rparr>
     \<or> s' = t\<lparr>mem := store32 (kernel_page_table_caps d + 4 * CAP_INDEX p) kcap
             (store32 (dir_entry d t (DIRECTORY_INDEX p) + 4 * TABLE_INDEX p) cap (mem t))\<rparr>"
    by (metis insert_cases)
  define u where "u = t\<lparr>mem := store32 (dir_entry d t (DIRECTORY_INDEX p) + 4 * TABLE_INDEX p) cap (mem t)\<rparr>"
  have u: "pd_wf d u" "pd_pages d u = (pd_pages d s)(p \<mapsto> cap)"
    using store_page [of d t p cap] t al assms(4) by (simp_all add: second_level_ready_def u_def)
  have "s' = u \<or> s' = u\<lparr>mem := store32 (kernel_page_table_caps d + 4 * CAP_INDEX p) kcap (mem u)\<rparr>" using s' by (simp add: u_def)
  then show "pd_wf d s'" "pd_pages d s' = (pd_pages d s)(p \<mapsto> cap)" using u store_cap [OF u(1)] by auto
qed

lemma evict_refines:
  assumes wfd: "pd_wf d s" and e: "page_directory_evict E (Some d) p slot s = Some (0, s')"
  shows "pd_wf d s'" "pd_pages d s' = (pd_pages d s)(p \<mapsto> slot OR EVICTED_BIT)" "p \<in> dom (pd_pages d s)"
proof -
  note wf = pd_wfD [OF wfd]
  define a where "a = dir_entry d s (DIRECTORY_INDEX p) + 4 * TABLE_INDEX p"
  define t where "t = s\<lparr>mem := store32 a (slot OR EVICTED_BIT) (store32 a slot (mem s))\<rparr>"
  have ev: "unat p mod 4096 = 0" "dir_entry d s (DIRECTORY_INDEX p) \<noteq> 0" "load32 (mem s) a \<noteq> 0" "\<exists>l. s' = t\<lparr>klog := l\<rparr>"
    using e wf(1)
    by (auto simp: page_directory_evict_def IS_ALIGNED_4K_iff bind_eq_Some_conv Let_def ask_def a_def t_def split: if_splits)
  have twice: "store32 a w (store32 a v m) = store32 a w m" for v w m by (rule ext) (simp add: store32_def)
  have "EVICTED_BIT \<noteq> 0" by (simp add: EVICTED_BIT_def BIT_def)
  then have "slot OR EVICTED_BIT \<noteq> 0" by (simp add: or_eq_0_iff)
  from store_page [OF wfd ev(1,2) this, folded a_def]
  have t: "pd_wf d t" "pd_pages d t = (pd_pages d s)(p \<mapsto> slot OR EVICTED_BIT)" by (simp_all add: t_def twice)
  obtain l where "s' = t\<lparr>klog := l\<rparr>" using ev(4) by blast
  moreover have "pd_pages d (t\<lparr>klog := l\<rparr>) = pd_pages d t" using pd_pages_eq [OF wf(1)] by (intro ext) simp
  moreover have "pd_wf d (t\<lparr>klog := l\<rparr>)"
    by (rule pd_wf_cong [OF t(1)]) (simp_all add: is_table_def table_frame_def valid_frame_def frame_at_def free_buffer_def
      frame_table_index_to_sos_vaddr_def INDEX_TO_ADDR_def ADDR_TO_INDEX_def)
  ultimately show "pd_wf d s'" "pd_pages d s' = (pd_pages d s)(p \<mapsto> slot OR EVICTED_BIT)" using t(2) by simp_all
  show "p \<in> dom (pd_pages d s)" using ev(1-3) unfolding dom_def pd_pages_eq [OF wf(1)] by (simp add: a_def)
qed

text \<open>With a free frame in the buffer an insertion succeeds.\<close>

lemma insert_succeeds:
  assumes "pd_wf d s" "mem_inv s" "frame_table_cnt s < frame_table_max s" "free_index s > 0"
    and "unat p mod 4096 = 0" "\<not> IS_EVICTED cap"
  shows "\<exists>s'. page_directory_insert E (Some d) p cap 0 s = Some (0, s')"
proof -
  obtain f v s1 where f: "frame_alloc E s = Some (f, v, s1)" "valid_frame s1 f" by (rule frame_alloc_buffer [OF assms(2-4)])
  have "f \<noteq> - 1" using valid_frame_bound [OF f(2)] by (auto simp: unsigned_minus_1_eq_mask mask_eq_exp_minus_1)
  moreover obtain ft where "frame_table s1 = Some ft" "unat f < length ft" "fe_cap (ft ! unat f) \<noteq> 0" "unat f \<le> unat (ADDR_TO_INDEX s1 (ut_top s1))"
    using f(2) by (auto simp: valid_frame_def frame_at_def)
  then have "\<exists>s2. frame_table_set_chance f PINNED s1 = Some (0, s2)"
    by (simp add: frame_table_set_chance_def frame_checked_def in_range_u32 arr_get_def arr_set_def)
  then have "\<exists>s2. pin_frames f 1 s1 = Some s2" unfolding pin_one .
  ultimately show ?thesis using f(1) assms(5,6) pd_wfD(1) [OF assms(1)]
    by (auto simp: page_directory_insert_def IS_ALIGNED_4K_iff Let_def)
qed


section \<open>Witness\<close>

text \<open>
  Seven frames: a directory, four frames of capabilities, one second-level table for the first four
  megabytes, and a free frame that becomes the table of the next four.
\<close>

definition example_dir :: page_directory where
  "example_dir = \<lparr>directory = 0x30000000, kernel_page_table_caps = 0x30001000\<rparr>"

definition example_mem :: sos where
  "example_mem = initial_sos\<lparr>
     frame_table := Some (replicate 7 \<lparr>fe_cap = 0x40, fe_chance = PINNED, fe_pid = 0, fe_page_id = 0\<rparr>),
     ut_base := 0x10000000, ut_top := 0x10008000, frame_table_max := 8, frame_table_cnt := 7,
     free_frames := 6 # replicate 63 0, free_index := 1,
     ut_state := the (ut_allocator_init (\<lambda>_. True) 0x10000000 0x10010000 ut_boot_state),
     mem := store32 0x30000000 0x30005000 (\<lambda>_. 0)\<rparr>"

lemma example_table_frame: "unat f < 6 \<Longrightarrow> table_frame example_mem f"
proof -
  assume f: "unat f < 6"
  have "f \<noteq> 6" using f by auto
  moreover have "unat (ADDR_TO_INDEX example_mem (ut_top example_mem)) = 8"
    by (simp add: ADDR_TO_INDEX_def example_mem_def seL4_PageBits_def drop_bit_eq_div)
  ultimately show ?thesis using f
    by (simp add: table_frame_def valid_frame_def frame_at_def free_buffer_def) (simp add: example_mem_def)
qed

lemma example_table:
  assumes "f < (6 :: u32)"
  shows "is_table example_mem (0x30000000 + 0x1000 * f)"
proof -
  have "frame_vaddr example_mem f = 0x30000000 + 0x1000 * f"
    by (simp add: frame_table_index_to_sos_vaddr_def frame_table_paddr_to_sos_vaddr_def INDEX_TO_ADDR_def example_mem_def
      PHYSICAL_VSTART_def seL4_PageBits_def push_bit_eq_mult)
  moreover have "unat f < 6" using assms by (simp add: word_less_nat_alt)
  ultimately show ?thesis unfolding is_table_def using example_table_frame by (intro exI [of _ f]) simp
qed

lemma example_entry: "i < 1024 \<Longrightarrow> dir_entry example_dir example_mem i = (if i = 0 then 0x30005000 else 0)"
proof -
  assume i: "i < 1024"
  have z: "load32 (\<lambda>_. 0) a = 0" for a by (simp add: load32_def)
  have "is_table example_mem 0x30000000" using example_table [of 0] by simp
  from load_store_entry [OF this this, of 0 i "0x30005000" "\<lambda>_. 0"] i show ?thesis
    by (auto simp: u32_less example_dir_def example_mem_def z)
qed

lemma example_pd_wf: "pd_wf example_dir example_mem"
proof -
  have k: "cap_table example_dir k = 0x30000000 + 0x1000 * (1 + k)" for k by (simp add: cap_table_def example_dir_def)
  have "is_table example_mem (cap_table example_dir k)" if "k < 4" for k
    unfolding k using that by (intro example_table) (simp add: word_less_nat_alt unat_word_ariths)
  moreover have "cap_table example_dir k \<noteq> 0x30000000 \<and> cap_table example_dir k \<noteq> 0x30005000" if "k < 4" for k
  proof -
    have "unat (0x1000 * (1 + k)) = 0x1000 * (1 + unat k)" using that by (simp add: word_less_nat_alt unat_word_ariths)
    then have "0x1000 * (1 + k) \<noteq> 0" "0x1000 * (1 + k) \<noteq> 0x5000" using that by (auto simp: word_less_nat_alt)
    then show ?thesis unfolding k by (auto simp: algebra_simps)
  qed
  ultimately show ?thesis
    unfolding pd_wf_def using example_table [of 0] example_table [of 5] by (simp add: example_entry) (simp add: example_dir_def)
qed

lemma example_mem_inv: "mem_inv example_mem" "unpaged E example_mem"
proof -
  obtain st n where st: "ut_allocator_init (\<lambda>_. True) 0x10000000 0x10010000 ut_boot_state = Some st" "ut_inv n st {}" "hints_ok st"
    by (rule ut_boot_init)
  have "valid_frame example_mem 6"
    by (simp add: valid_frame_def frame_at_def ADDR_TO_INDEX_def example_mem_def seL4_PageBits_def drop_bit_eq_div)
  then have "buffer_ok example_mem" by (simp add: buffer_ok_def free_buffer_def) (simp add: example_mem_def)
  moreover have "ut_state example_mem = st" using st(1) by (simp add: example_mem_def)
  ultimately show "mem_inv example_mem" using st(2,3) by (auto simp: mem_inv_def) (auto simp: example_mem_def)
  show "unpaged E example_mem" by (simp add: unpaged_def example_mem_def)
qed


end
