(* ===== verification/Elf.thy ===== *)
theory Elf
  imports Sos_Prelude
begin

text \<open>
  The ELF library (\<^verbatim>\<open>libelf\<close>): accessors for 32-bit and 64-bit files and the generic functions that
  choose between them by the class byte. A file is the list of its bytes; a pointer into it is its
  offset, computed at the 32 bits of \<^verbatim>\<open>uintptr_t\<close> on the target, and reading past the end gives
  \<^const>\<open>None\<close>. Multi-byte fields are little-endian.
\<close>

section \<open>Reading fields\<close>

type_synonym u16 = "16 word"

definition rd8 :: "u8 list \<Rightarrow> u32 \<Rightarrow> u8 option" where
  "rd8 f off = arr_get f (uint off)"

definition rd16 :: "u8 list \<Rightarrow> u32 \<Rightarrow> u16 option" where
  "rd16 f off = do { a \<leftarrow> rd8 f off; b \<leftarrow> rd8 f (off + 1); Some (ucast a OR push_bit 8 (ucast b)) }"

definition rd32 :: "u8 list \<Rightarrow> u32 \<Rightarrow> u32 option" where
  "rd32 f off = do { a \<leftarrow> rd16 f off; b \<leftarrow> rd16 f (off + 2); Some (ucast a OR push_bit 16 (ucast b)) }"

definition rd64 :: "u8 list \<Rightarrow> u32 \<Rightarrow> u64 option" where
  "rd64 f off = do { a \<leftarrow> rd32 f off; b \<leftarrow> rd32 f (off + 4); Some (ucast a OR push_bit 32 (ucast b)) }"

text \<open>Comparing a C string with the bytes at a pointer, as \<^verbatim>\<open>strcmp\<close> does up to the first difference.\<close>

fun strcmp_eq :: "u8 list \<Rightarrow> u8 list \<Rightarrow> bool option" where
  "strcmp_eq _ [] = None"
| "strcmp_eq [] (b # _) = Some (b = 0)"
| "strcmp_eq (a # as) (b # bs) = (if a = b then strcmp_eq as bs else Some False)"

text \<open>A string the library returns: a literal, or a pointer into the file.\<close>

datatype name_ptr = Literal string | In_file u32

definition name_is :: "u8 list \<Rightarrow> u8 list \<Rightarrow> name_ptr \<Rightarrow> bool option" where
  "name_is f str p = (case p of
       Literal l \<Rightarrow> Some (str = map of_char l)
     | In_file off \<Rightarrow> strcmp_eq str (drop (unat off) f))"

section \<open>Constants\<close>

definition PF_X :: u32 where "PF_X = 1"
definition PF_W :: u32 where "PF_W = 2"
definition PF_R :: u32 where "PF_R = 4"
definition PT_LOAD :: u32 where "PT_LOAD = 1"
definition ELFMAG0 :: u8 where "ELFMAG0 = 0x7F"
definition ELFMAG1 :: u8 where "ELFMAG1 = 0x45"
definition ELFMAG2 :: u8 where "ELFMAG2 = 0x4C"
definition ELFMAG3 :: u8 where "ELFMAG3 = 0x46"
definition ELFCLASS32 :: u8 where "ELFCLASS32 = 1"
definition ELFCLASS64 :: u8 where "ELFCLASS64 = 2"

text \<open>The bytes from an offset on, compared one after the other up to the first difference.\<close>

fun bytes_match :: "u8 list \<Rightarrow> u32 \<Rightarrow> u8 list \<Rightarrow> bool option" where
  "bytes_match f off [] = Some True"
| "bytes_match f off (m # ms) = do {
     b \<leftarrow> rd8 f off;
     if b \<noteq> m then Some False else bytes_match f (off + 1) ms }"

section \<open>32-bit files\<close>

text \<open>Fields of \<^verbatim>\<open>Elf32_Header\<close>.\<close>

definition e32_entry :: "u8 list \<Rightarrow> u32 option" where "e32_entry f = rd32 f 24"
definition e32_phoff :: "u8 list \<Rightarrow> u32 option" where "e32_phoff f = rd32 f 28"
definition e32_shoff :: "u8 list \<Rightarrow> u32 option" where "e32_shoff f = rd32 f 32"
definition e32_phnum :: "u8 list \<Rightarrow> u16 option" where "e32_phnum f = rd16 f 44"
definition e32_shnum :: "u8 list \<Rightarrow> u16 option" where "e32_shnum f = rd16 f 48"
definition e32_shstrndx :: "u8 list \<Rightarrow> u16 option" where "e32_shstrndx f = rd16 f 50"

definition elf32_checkFile :: "u8 list \<Rightarrow> int option" where
  "elf32_checkFile f = do {
     magic \<leftarrow> bytes_match f 0 [ELFMAG0, ELFMAG1, ELFMAG2, ELFMAG3];
     if \<not> magic then Some (- 1)
     else do {
       c \<leftarrow> rd8 f 4;
       if c \<noteq> ELFCLASS32 then Some (- 2) else Some 0 } }"

definition elf32_getSectionTable :: "u8 list \<Rightarrow> u32 option" where
  "elf32_getSectionTable f = e32_shoff f"

definition elf32_getProgramHeaderTable :: "u8 list \<Rightarrow> u32 option" where
  "elf32_getProgramHeaderTable f = e32_phoff f"

definition elf32_getProgramSegmentTable :: "u8 list \<Rightarrow> u32 option" where
  "elf32_getProgramSegmentTable f = e32_phoff f"

definition elf32_getNumSections :: "u8 list \<Rightarrow> u32 option" where
  "elf32_getNumSections f = map_option ucast (e32_shnum f)"

definition elf32_getNumProgramHeaders :: "u8 list \<Rightarrow> u16 option" where
  "elf32_getNumProgramHeaders f = e32_phnum f"

definition elf32_getEntryPoint :: "u8 list \<Rightarrow> u32 option" where
  "elf32_getEntryPoint f = e32_entry f"

definition elf32_getProgramHeaderFlags :: "u8 list \<Rightarrow> u16 \<Rightarrow> u32 option" where
  "elf32_getProgramHeaderFlags f ph = do {
     t \<leftarrow> elf32_getProgramHeaderTable f;
     rd32 f (t + 32 * ucast ph + 24) }"

definition elf32_getProgramHeaderType :: "u8 list \<Rightarrow> u16 \<Rightarrow> u32 option" where
  "elf32_getProgramHeaderType f ph = do {
     t \<leftarrow> elf32_getProgramHeaderTable f;
     rd32 f (t + 32 * ucast ph + 0) }"

definition elf32_getProgramHeaderFileSize :: "u8 list \<Rightarrow> u16 \<Rightarrow> u32 option" where
  "elf32_getProgramHeaderFileSize f ph = do {
     t \<leftarrow> elf32_getProgramHeaderTable f;
     rd32 f (t + 32 * ucast ph + 16) }"

definition elf32_getProgramHeaderMemorySize :: "u8 list \<Rightarrow> u16 \<Rightarrow> u32 option" where
  "elf32_getProgramHeaderMemorySize f ph = do {
     t \<leftarrow> elf32_getProgramHeaderTable f;
     rd32 f (t + 32 * ucast ph + 20) }"

definition elf32_getProgramHeaderVaddr :: "u8 list \<Rightarrow> u16 \<Rightarrow> u32 option" where
  "elf32_getProgramHeaderVaddr f ph = do {
     t \<leftarrow> elf32_getProgramHeaderTable f;
     rd32 f (t + 32 * ucast ph + 8) }"

definition elf32_getProgramHeaderPaddr :: "u8 list \<Rightarrow> u16 \<Rightarrow> u32 option" where
  "elf32_getProgramHeaderPaddr f ph = do {
     t \<leftarrow> elf32_getProgramHeaderTable f;
     rd32 f (t + 32 * ucast ph + 12) }"

definition elf32_getProgramHeaderOffset :: "u8 list \<Rightarrow> u16 \<Rightarrow> u32 option" where
  "elf32_getProgramHeaderOffset f ph = do {
     t \<leftarrow> elf32_getProgramHeaderTable f;
     rd32 f (t + 32 * ucast ph + 4) }"

definition elf32_getSectionType :: "u8 list \<Rightarrow> u16 \<Rightarrow> u32 option" where
  "elf32_getSectionType f n = do {
     t \<leftarrow> elf32_getSectionTable f;
     rd32 f (t + 40 * ucast n + 4) }"

definition elf32_getSectionFlags :: "u8 list \<Rightarrow> u16 \<Rightarrow> u32 option" where
  "elf32_getSectionFlags f n = do {
     t \<leftarrow> elf32_getSectionTable f;
     rd32 f (t + 40 * ucast n + 8) }"

definition elf32_getSectionSize :: "u8 list \<Rightarrow> int \<Rightarrow> u32 option" where
  "elf32_getSectionSize f i = do {
     t \<leftarrow> elf32_getSectionTable f;
     rd32 f (t + 40 * word_of_int i + 20) }"

definition elf32_getSectionAddr :: "u8 list \<Rightarrow> int \<Rightarrow> u32 option" where
  "elf32_getSectionAddr f i = do {
     t \<leftarrow> elf32_getSectionTable f;
     rd32 f (t + 40 * word_of_int i + 12) }"

definition elf32_getSection :: "u8 list \<Rightarrow> int \<Rightarrow> u32 option" where
  "elf32_getSection f i = do {
     t \<leftarrow> elf32_getSectionTable f;
     rd32 f (t + 40 * word_of_int i + 16) }"

definition elf32_getStringTable :: "u8 list \<Rightarrow> u32 option" where
  "elf32_getStringTable f = do {
     t \<leftarrow> elf32_getSectionTable f;
     n \<leftarrow> e32_shstrndx f;
     rd32 f (t + 40 * ucast n + 16) }"

text \<open>The null pointer is \<open>None\<close> inside the result.\<close>

definition elf32_getSegmentStringTable :: "u8 list \<Rightarrow> u32 option option" where
  "elf32_getSegmentStringTable f = do {
     n \<leftarrow> e32_shstrndx f;
     if n = 0 then Some None else map_option Some (elf32_getStringTable f) }"

definition elf32_getSectionName :: "u8 list \<Rightarrow> int \<Rightarrow> name_ptr option" where
  "elf32_getSectionName f i = do {
     t \<leftarrow> elf32_getSectionTable f;
     str_table \<leftarrow> elf32_getSegmentStringTable f;
     case str_table of
       None \<Rightarrow> Some (Literal ''<corrupted>'')
     | Some st \<Rightarrow> do { n \<leftarrow> rd32 f (t + 40 * word_of_int i); Some (In_file (st + n)) } }"

fun section_loop32 :: "u8 list \<Rightarrow> u8 list \<Rightarrow> nat \<Rightarrow> nat \<Rightarrow> u32 option option" where
  "section_loop32 f str 0 i = Some None"
| "section_loop32 f str (Suc n) i = do {
     p \<leftarrow> elf32_getSectionName f (int i);
     eq \<leftarrow> name_is f str p;
     if eq then map_option Some (elf32_getSection f (int i)) else section_loop32 f str n (Suc i) }"

definition elf32_getSectionNamed :: "u8 list \<Rightarrow> u8 list \<Rightarrow> u32 option option" where
  "elf32_getSectionNamed f str = do {
     n \<leftarrow> elf32_getNumSections f;
     section_loop32 f str (unat n) 0 }"

definition elf32_getSegmentType :: "u8 list \<Rightarrow> int \<Rightarrow> u32 option" where
  "elf32_getSegmentType f segment = do {
     t \<leftarrow> elf32_getProgramSegmentTable f;
     rd32 f (t + 32 * word_of_int segment) }"

text \<open>In the order virtual address, physical address, file size, offset, memory size.\<close>

definition elf32_getSegmentInfo :: "u8 list \<Rightarrow> int \<Rightarrow> (u64 \<times> u64 \<times> u64 \<times> u64 \<times> u64) option" where
  "elf32_getSegmentInfo f segment = do {
     t \<leftarrow> elf32_getProgramSegmentTable f;
     let p = t + 32 * word_of_int segment;
     v \<leftarrow> map_option ucast (rd32 f (p + 8));
     a \<leftarrow> map_option ucast (rd32 f (p + 12));
     n \<leftarrow> map_option ucast (rd32 f (p + 16));
     off \<leftarrow> map_option ucast (rd32 f (p + 4));
     sz \<leftarrow> map_option ucast (rd32 f (p + 20));
     Some (v, a, n, off, sz) }"

section \<open>64-bit files\<close>

text \<open>Fields of \<^verbatim>\<open>Elf64_Header\<close>.\<close>

definition e64_entry :: "u8 list \<Rightarrow> u64 option" where "e64_entry f = rd64 f 24"
definition e64_phoff :: "u8 list \<Rightarrow> u64 option" where "e64_phoff f = rd64 f 32"
definition e64_shoff :: "u8 list \<Rightarrow> u64 option" where "e64_shoff f = rd64 f 40"
definition e64_phnum :: "u8 list \<Rightarrow> u16 option" where "e64_phnum f = rd16 f 56"
definition e64_shnum :: "u8 list \<Rightarrow> u16 option" where "e64_shnum f = rd16 f 60"
definition e64_shstrndx :: "u8 list \<Rightarrow> u16 option" where "e64_shstrndx f = rd16 f 62"

definition elf64_checkFile :: "u8 list \<Rightarrow> int option" where
  "elf64_checkFile f = do {
     magic \<leftarrow> bytes_match f 0 [ELFMAG0, ELFMAG1, ELFMAG2, ELFMAG3];
     if \<not> magic then Some (- 1)
     else do {
       c \<leftarrow> rd8 f 4;
       if c \<noteq> ELFCLASS64 then Some (- 2) else Some 0 } }"

definition elf64_getSectionTable :: "u8 list \<Rightarrow> u32 option" where
  "elf64_getSectionTable f = map_option ucast (e64_shoff f)"

definition elf64_getProgramHeaderTable :: "u8 list \<Rightarrow> u32 option" where
  "elf64_getProgramHeaderTable f = map_option ucast (e64_phoff f)"

definition elf64_getProgramSegmentTable :: "u8 list \<Rightarrow> u32 option" where
  "elf64_getProgramSegmentTable f = map_option ucast (e64_phoff f)"

definition elf64_getNumSections :: "u8 list \<Rightarrow> u32 option" where
  "elf64_getNumSections f = map_option ucast (e64_shnum f)"

definition elf64_getNumProgramHeaders :: "u8 list \<Rightarrow> u16 option" where
  "elf64_getNumProgramHeaders f = e64_phnum f"

definition elf64_getEntryPoint :: "u8 list \<Rightarrow> u64 option" where
  "elf64_getEntryPoint f = e64_entry f"

definition elf64_getProgramHeaderFlags :: "u8 list \<Rightarrow> u16 \<Rightarrow> u32 option" where
  "elf64_getProgramHeaderFlags f ph = do {
     t \<leftarrow> elf64_getProgramHeaderTable f;
     rd32 f (t + 56 * ucast ph + 4) }"

definition elf64_getProgramHeaderType :: "u8 list \<Rightarrow> u16 \<Rightarrow> u32 option" where
  "elf64_getProgramHeaderType f ph = do {
     t \<leftarrow> elf64_getProgramHeaderTable f;
     rd32 f (t + 56 * ucast ph + 0) }"

definition elf64_getProgramHeaderFileSize :: "u8 list \<Rightarrow> u16 \<Rightarrow> u64 option" where
  "elf64_getProgramHeaderFileSize f ph = do {
     t \<leftarrow> elf64_getProgramHeaderTable f;
     rd64 f (t + 56 * ucast ph + 32) }"

definition elf64_getProgramHeaderMemorySize :: "u8 list \<Rightarrow> u16 \<Rightarrow> u64 option" where
  "elf64_getProgramHeaderMemorySize f ph = do {
     t \<leftarrow> elf64_getProgramHeaderTable f;
     rd64 f (t + 56 * ucast ph + 40) }"

definition elf64_getProgramHeaderVaddr :: "u8 list \<Rightarrow> u16 \<Rightarrow> u64 option" where
  "elf64_getProgramHeaderVaddr f ph = do {
     t \<leftarrow> elf64_getProgramHeaderTable f;
     rd64 f (t + 56 * ucast ph + 16) }"

definition elf64_getProgramHeaderPaddr :: "u8 list \<Rightarrow> u16 \<Rightarrow> u64 option" where
  "elf64_getProgramHeaderPaddr f ph = do {
     t \<leftarrow> elf64_getProgramHeaderTable f;
     rd64 f (t + 56 * ucast ph + 24) }"

definition elf64_getProgramHeaderOffset :: "u8 list \<Rightarrow> u16 \<Rightarrow> u64 option" where
  "elf64_getProgramHeaderOffset f ph = do {
     t \<leftarrow> elf64_getProgramHeaderTable f;
     rd64 f (t + 56 * ucast ph + 8) }"

definition elf64_getSectionType :: "u8 list \<Rightarrow> u16 \<Rightarrow> u32 option" where
  "elf64_getSectionType f n = do {
     t \<leftarrow> elf64_getSectionTable f;
     rd32 f (t + 64 * ucast n + 4) }"

definition elf64_getSectionFlags :: "u8 list \<Rightarrow> u16 \<Rightarrow> u32 option" where
  "elf64_getSectionFlags f n = do {
     t \<leftarrow> elf64_getSectionTable f;
     map_option ucast (rd64 f (t + 64 * ucast n + 8)) }"

definition elf64_getSectionSize :: "u8 list \<Rightarrow> int \<Rightarrow> u64 option" where
  "elf64_getSectionSize f i = do {
     t \<leftarrow> elf64_getSectionTable f;
     rd64 f (t + 64 * word_of_int i + 32) }"

definition elf64_getSectionAddr :: "u8 list \<Rightarrow> int \<Rightarrow> u64 option" where
  "elf64_getSectionAddr f i = do {
     t \<leftarrow> elf64_getSectionTable f;
     rd64 f (t + 64 * word_of_int i + 16) }"

definition elf64_getSection :: "u8 list \<Rightarrow> int \<Rightarrow> u32 option" where
  "elf64_getSection f i = do {
     t \<leftarrow> elf64_getSectionTable f;
     map_option ucast (rd64 f (t + 64 * word_of_int i + 24)) }"

definition elf64_getStringTable :: "u8 list \<Rightarrow> int \<Rightarrow> u32 option" where
  "elf64_getStringTable f string_segment = do {
     t \<leftarrow> elf64_getSectionTable f;
     map_option ucast (rd64 f (t + 64 * word_of_int string_segment + 24)) }"

definition elf64_getSegmentStringTable :: "u8 list \<Rightarrow> u32 option option" where
  "elf64_getSegmentStringTable f = do {
     n \<leftarrow> e64_shstrndx f;
     if n = 0 then Some None else map_option Some (elf64_getStringTable f (uint n)) }"

definition elf64_getSectionName :: "u8 list \<Rightarrow> int \<Rightarrow> name_ptr option" where
  "elf64_getSectionName f i = do {
     t \<leftarrow> elf64_getSectionTable f;
     str_table \<leftarrow> elf64_getSegmentStringTable f;
     case str_table of
       None \<Rightarrow> Some (Literal ''<corrupted>'')
     | Some st \<Rightarrow> do { n \<leftarrow> rd32 f (t + 64 * word_of_int i); Some (In_file (st + n)) } }"

fun section_loop64 :: "u8 list \<Rightarrow> u8 list \<Rightarrow> nat \<Rightarrow> nat \<Rightarrow> u32 option option" where
  "section_loop64 f str 0 i = Some None"
| "section_loop64 f str (Suc n) i = do {
     p \<leftarrow> elf64_getSectionName f (int i);
     eq \<leftarrow> name_is f str p;
     if eq then map_option Some (elf64_getSection f (int i)) else section_loop64 f str n (Suc i) }"

definition elf64_getSectionNamed :: "u8 list \<Rightarrow> u8 list \<Rightarrow> u32 option option" where
  "elf64_getSectionNamed f str = do {
     n \<leftarrow> elf64_getNumSections f;
     section_loop64 f str (unat n) 0 }"

definition elf64_getSegmentType :: "u8 list \<Rightarrow> int \<Rightarrow> u32 option" where
  "elf64_getSegmentType f segment = do {
     t \<leftarrow> elf64_getProgramSegmentTable f;
     rd32 f (t + 56 * word_of_int segment) }"

text \<open>In the order virtual address, physical address, file size, offset, memory size.\<close>

definition elf64_getSegmentInfo :: "u8 list \<Rightarrow> int \<Rightarrow> (u64 \<times> u64 \<times> u64 \<times> u64 \<times> u64) option" where
  "elf64_getSegmentInfo f segment = do {
     t \<leftarrow> elf64_getProgramSegmentTable f;
     let p = t + 56 * word_of_int segment;
     v \<leftarrow> rd64 f (p + 16);
     a \<leftarrow> rd64 f (p + 24);
     n \<leftarrow> rd64 f (p + 32);
     off \<leftarrow> rd64 f (p + 8);
     sz \<leftarrow> rd64 f (p + 40);
     Some (v, a, n, off, sz) }"

section \<open>Either class\<close>

definition ISELF32 :: "u8 list \<Rightarrow> bool option" where
  "ISELF32 f = map_option (\<lambda>c. c = ELFCLASS32) (rd8 f 4)"

text \<open>The choice every generic function makes.\<close>

definition by_class :: "u8 list \<Rightarrow> 'a option \<Rightarrow> 'a option \<Rightarrow> 'a option" where
  "by_class f a b = do { is32 \<leftarrow> ISELF32 f; if is32 then a else b }"

definition elf_checkFile :: "u8 list \<Rightarrow> int option" where
  "elf_checkFile f = by_class f (elf32_checkFile f) (elf64_checkFile f)"

definition elf_getNumProgramHeaders :: "u8 list \<Rightarrow> u16 option" where
  "elf_getNumProgramHeaders f = by_class f (elf32_getNumProgramHeaders f) (elf64_getNumProgramHeaders f)"

definition elf_getProgramHeaderFlags :: "u8 list \<Rightarrow> u16 \<Rightarrow> u32 option" where
  "elf_getProgramHeaderFlags f ph = by_class f (elf32_getProgramHeaderFlags f ph) (elf64_getProgramHeaderFlags f ph)"

definition elf_getProgramHeaderType :: "u8 list \<Rightarrow> u16 \<Rightarrow> u32 option" where
  "elf_getProgramHeaderType f ph = by_class f (elf32_getProgramHeaderType f ph) (elf64_getProgramHeaderType f ph)"

definition elf_getProgramHeaderPaddr :: "u8 list \<Rightarrow> u16 \<Rightarrow> u64 option" where
  "elf_getProgramHeaderPaddr f ph = by_class f (map_option ucast (elf32_getProgramHeaderPaddr f ph)) (elf64_getProgramHeaderPaddr f ph)"

definition elf_getProgramHeaderVaddr :: "u8 list \<Rightarrow> u16 \<Rightarrow> u64 option" where
  "elf_getProgramHeaderVaddr f ph = by_class f (map_option ucast (elf32_getProgramHeaderVaddr f ph)) (elf64_getProgramHeaderVaddr f ph)"

definition elf_getProgramHeaderMemorySize :: "u8 list \<Rightarrow> u16 \<Rightarrow> u64 option" where
  "elf_getProgramHeaderMemorySize f ph = by_class f (map_option ucast (elf32_getProgramHeaderMemorySize f ph)) (elf64_getProgramHeaderMemorySize f ph)"

definition elf_getProgramHeaderFileSize :: "u8 list \<Rightarrow> u16 \<Rightarrow> u64 option" where
  "elf_getProgramHeaderFileSize f ph = by_class f (map_option ucast (elf32_getProgramHeaderFileSize f ph)) (elf64_getProgramHeaderFileSize f ph)"

definition elf_getProgramHeaderOffset :: "u8 list \<Rightarrow> u16 \<Rightarrow> u64 option" where
  "elf_getProgramHeaderOffset f ph = by_class f (map_option ucast (elf32_getProgramHeaderOffset f ph)) (elf64_getProgramHeaderOffset f ph)"

definition elf_getSegmentStringTable :: "u8 list \<Rightarrow> u32 option option" where
  "elf_getSegmentStringTable f = by_class f (elf32_getSegmentStringTable f) (elf64_getSegmentStringTable f)"

definition elf_getStringTable :: "u8 list \<Rightarrow> int \<Rightarrow> u32 option" where
  "elf_getStringTable f string_segment = by_class f (elf32_getStringTable f) (elf64_getStringTable f string_segment)"

definition elf_getNumSections :: "u8 list \<Rightarrow> u32 option" where
  "elf_getNumSections f = by_class f (elf32_getNumSections f) (elf64_getNumSections f)"

definition elf_getSectionName :: "u8 list \<Rightarrow> int \<Rightarrow> name_ptr option" where
  "elf_getSectionName f i = by_class f (elf32_getSectionName f i) (elf64_getSectionName f i)"

definition elf_getSectionFlags :: "u8 list \<Rightarrow> int \<Rightarrow> u32 option" where
  "elf_getSectionFlags f i = by_class f (elf32_getSectionFlags f (word_of_int i)) (elf64_getSectionFlags f (word_of_int i))"

definition elf_getSectionType :: "u8 list \<Rightarrow> int \<Rightarrow> u32 option" where
  "elf_getSectionType f i = by_class f (elf32_getSectionType f (word_of_int i)) (elf64_getSectionType f (word_of_int i))"

definition elf_getSectionSize :: "u8 list \<Rightarrow> int \<Rightarrow> u64 option" where
  "elf_getSectionSize f i = by_class f (map_option ucast (elf32_getSectionSize f i)) (elf64_getSectionSize f i)"

definition elf_getSectionAddr :: "u8 list \<Rightarrow> int \<Rightarrow> u64 option" where
  "elf_getSectionAddr f i = by_class f (map_option ucast (elf32_getSectionAddr f i)) (elf64_getSectionAddr f i)"

definition elf_getSection :: "u8 list \<Rightarrow> int \<Rightarrow> u32 option" where
  "elf_getSection f i = by_class f (elf32_getSection f i) (elf64_getSection f i)"

definition elf_getSectionNamed :: "u8 list \<Rightarrow> u8 list \<Rightarrow> u32 option option" where
  "elf_getSectionNamed f str = by_class f (elf32_getSectionNamed f str) (elf64_getSectionNamed f str)"

definition elf_getProgramHeaderInfo :: "u8 list \<Rightarrow> u16 \<Rightarrow> (u64 \<times> u64 \<times> u64 \<times> u64 \<times> u64) option" where
  "elf_getProgramHeaderInfo f ph = do {
     v \<leftarrow> elf_getProgramHeaderVaddr f ph;
     a \<leftarrow> elf_getProgramHeaderPaddr f ph;
     n \<leftarrow> elf_getProgramHeaderFileSize f ph;
     off \<leftarrow> elf_getProgramHeaderOffset f ph;
     sz \<leftarrow> elf_getProgramHeaderMemorySize f ph;
     Some (v, a, n, off, sz) }"

definition elf_getEntryPoint :: "u8 list \<Rightarrow> u64 option" where
  "elf_getEntryPoint f = by_class f (map_option ucast (elf32_getEntryPoint f)) (elf64_getEntryPoint f)"

text \<open>The loop of \<^verbatim>\<open>elf_getMemoryBounds\<close> over the program headers from \<open>i\<close> on.\<close>

definition header_base :: "u8 list \<Rightarrow> bool \<Rightarrow> u16 \<Rightarrow> u64 option" where
  "header_base f phys ph = (if phys then elf_getProgramHeaderPaddr f ph else elf_getProgramHeaderVaddr f ph)"

fun bounds_loop :: "u8 list \<Rightarrow> bool \<Rightarrow> nat \<Rightarrow> nat \<Rightarrow> u64 \<Rightarrow> u64 \<Rightarrow> (u64 \<times> u64) option" where
  "bounds_loop f phys 0 i mem_min mem_max = Some (mem_min, mem_max)"
| "bounds_loop f phys (Suc n) i mem_min mem_max = do {
     sz \<leftarrow> elf_getProgramHeaderMemorySize f (of_nat i);
     if sz = 0 then bounds_loop f phys n (Suc i) mem_min mem_max
     else do {
       sect_min \<leftarrow> header_base f phys (of_nat i);
       let sect_max = sect_min + sz;
       bounds_loop f phys n (Suc i) (if sect_min < mem_min then sect_min else mem_min)
         (if sect_max > mem_max then sect_max else mem_max) } }"

text \<open>Inside the result \<open>None\<close> is the return value 0, which leaves the bounds unset.\<close>

definition elf_getMemoryBounds :: "u8 list \<Rightarrow> bool \<Rightarrow> (u64 \<times> u64) option option" where
  "elf_getMemoryBounds f phys = do {
     r \<leftarrow> elf_checkFile f;
     if r \<noteq> 0 then Some None
     else do {
       n \<leftarrow> elf_getNumProgramHeaders f;
       map_option Some (bounds_loop f phys (unat n) 0 (- 1) 0) } }"

definition elf_vaddrInProgramHeader :: "u8 list \<Rightarrow> u16 \<Rightarrow> u64 \<Rightarrow> bool option" where
  "elf_vaddrInProgramHeader f ph vaddr = do {
     mn \<leftarrow> elf_getProgramHeaderVaddr f ph;
     sz \<leftarrow> elf_getProgramHeaderMemorySize f ph;
     Some (vaddr \<ge> mn \<and> vaddr < mn + sz) }"

definition elf_vtopProgramHeader :: "u8 list \<Rightarrow> u16 \<Rightarrow> u64 \<Rightarrow> u64 option" where
  "elf_vtopProgramHeader f ph vaddr = do {
     ph_phys \<leftarrow> elf_getProgramHeaderPaddr f ph;
     ph_virt \<leftarrow> elf_getProgramHeaderVaddr f ph;
     Some (vaddr - ph_virt + ph_phys) }"

section \<open>The memory bounds of a file\<close>

text \<open>A program header that occupies memory, with where it starts and where it ends.\<close>

definition occupies :: "u8 list \<Rightarrow> bool \<Rightarrow> nat \<Rightarrow> u64 \<Rightarrow> u64 \<Rightarrow> bool" where
  "occupies f phys i start stop \<longleftrightarrow>
     (case (elf_getProgramHeaderMemorySize f (of_nat i), header_base f phys (of_nat i)) of
        (Some sz, Some b) \<Rightarrow> sz \<noteq> 0 \<and> b = start \<and> b + sz = stop
      | _ \<Rightarrow> False)"

lemma bounds_loop_encloses:
  assumes "bounds_loop f phys n i a b = Some (mn, mx)"
  shows "mn \<le> a \<and> b \<le> mx \<and>
    (\<forall>j start stop. i \<le> j \<and> j < i + n \<and> occupies f phys j start stop \<longrightarrow> mn \<le> start \<and> stop \<le> mx)"
  using assms
proof (induction n arbitrary: i a b)
  case 0
  then show ?case by auto
next
  case (Suc n)
  from Suc.prems obtain sz where sz: "elf_getProgramHeaderMemorySize f (of_nat i) = Some sz"
    by (auto simp: bind_eq_Some_conv)
  have range: "j = i \<or> (Suc i \<le> j \<and> j < Suc i + n)" if "i \<le> j" "j < i + Suc n" for j
    using that by linarith
  show ?case
  proof (cases "sz = 0")
    case True
    have "bounds_loop f phys n (Suc i) a b = Some (mn, mx)" using Suc.prems sz True by simp
    moreover have "\<not> occupies f phys i start stop" for start stop using sz True by (simp add: occupies_def split: option.split)
    ultimately show ?thesis using Suc.IH range by blast
  next
    case False
    with Suc.prems sz obtain s where s: "header_base f phys (of_nat i) = Some s"
      and r: "bounds_loop f phys n (Suc i) (if s < a then s else a) (if s + sz > b then s + sz else b) = Some (mn, mx)"
      by (auto simp: bind_eq_Some_conv Let_def)
    note ih = Suc.IH [OF r]
    have "mn \<le> a" "b \<le> mx" "mn \<le> s" "s + sz \<le> mx"
      using ih by (auto split: if_splits)
    moreover have "start = s \<and> stop = s + sz" if "occupies f phys i start stop" for start stop
      using that sz s by (auto simp: occupies_def)
    ultimately show ?thesis using ih range by blast
  qed
qed

lemma bounds_loop_attained:
  assumes "bounds_loop f phys n i a b = Some (mn, mx)"
  shows "(mn = a \<or> (\<exists>j stop. i \<le> j \<and> j < i + n \<and> occupies f phys j mn stop)) \<and>
    (mx = b \<or> (\<exists>j start. i \<le> j \<and> j < i + n \<and> occupies f phys j start mx))"
  using assms
proof (induction n arbitrary: i a b)
  case 0
  then show ?case by auto
next
  case (Suc n)
  from Suc.prems obtain sz where sz: "elf_getProgramHeaderMemorySize f (of_nat i) = Some sz"
    by (auto simp: bind_eq_Some_conv)
  have later: "i \<le> j \<and> j < i + Suc n" if "Suc i \<le> j \<and> j < Suc i + n" for j using that by linarith
  show ?case
  proof (cases "sz = 0")
    case True
    have "bounds_loop f phys n (Suc i) a b = Some (mn, mx)" using Suc.prems sz True by simp
    from Suc.IH [OF this] show ?thesis using later by blast
  next
    case False
    with Suc.prems sz obtain s where s: "header_base f phys (of_nat i) = Some s"
      and r: "bounds_loop f phys n (Suc i) (if s < a then s else a) (if s + sz > b then s + sz else b) = Some (mn, mx)"
      by (auto simp: bind_eq_Some_conv Let_def)
    have here: "i \<le> i \<and> i < i + Suc n \<and> occupies f phys i s (s + sz)"
      using sz s False by (simp add: occupies_def)
    from Suc.IH [OF r] show ?thesis using later here by (metis (full_types))
  qed
qed

lemma getMemoryBounds_cases:
  assumes "elf_getMemoryBounds f phys = Some (Some (mn, mx))"
  obtains n where "elf_getNumProgramHeaders f = Some n" "bounds_loop f phys (unat n) 0 (- 1) 0 = Some (mn, mx)"
  using assms by (auto simp: elf_getMemoryBounds_def bind_eq_Some_conv split: if_splits)

lemma vaddrInProgramHeader_occupies:
  assumes "elf_vaddrInProgramHeader f ph va = Some True"
  obtains start stop where "occupies f False (unat ph) start stop" "start \<le> va" "va < stop"
proof -
  from assms obtain b sz where *: "elf_getProgramHeaderVaddr f ph = Some b"
    "elf_getProgramHeaderMemorySize f ph = Some sz" "b \<le> va" "va < b + sz"
    by (auto simp: elf_vaddrInProgramHeader_def bind_eq_Some_conv)
  moreover from * have "sz \<noteq> 0" by auto
  ultimately show thesis by (intro that [of b "b + sz"]) (simp_all add: occupies_def header_base_def)
qed

text \<open>
  C37: the virtual memory bounds \<^verbatim>\<open>elf_getMemoryBounds\<close> reports enclose every address that lies in a
  program header of the file, and they are tight: when some header occupies memory below the last
  address, the lower bound is where one of the headers starts and the upper bound is where one ends.
\<close>

theorem elf_getMemoryBounds_tight:
  assumes bounds: "elf_getMemoryBounds f False = Some (Some (mn, mx))"
    and n: "elf_getNumProgramHeaders f = Some n"
    and ph: "ph < n" and va: "elf_vaddrInProgramHeader f ph va = Some True"
  shows "mn \<le> va \<and> va < mx \<and>
    (\<exists>i < unat n. \<exists>stop. occupies f False i mn stop) \<and>
    (\<exists>i < unat n. \<exists>start. occupies f False i start mx)"
proof -
  from bounds n have loop: "bounds_loop f False (unat n) 0 (- 1) 0 = Some (mn, mx)"
    by (metis getMemoryBounds_cases option.inject)
  from va obtain start stop where occ: "occupies f False (unat ph) start stop" "start \<le> va" "va < stop"
    by (rule vaddrInProgramHeader_occupies)
  have "unat ph < unat n" using ph by (simp add: word_less_nat_alt)
  with bounds_loop_encloses [OF loop] occ(1) have enc: "mn \<le> start" "stop \<le> mx" by auto
  from enc occ have in_range: "mn \<le> va" "va < mx" by auto
  then have "mn \<noteq> - 1" "mx \<noteq> 0"
    using word_order.extremum_strict [of mx] by (auto simp: word_order.extremum_unique)
  with bounds_loop_attained [OF loop] show ?thesis using in_range by auto
qed

text \<open>A file of the 32-bit class with one loadable segment of 64 bytes at \<open>0x8000\<close>.\<close>

definition tiny_elf :: "u8 list" where
  "tiny_elf = [0x7F, 0x45, 0x4C, 0x46, 1] @ replicate 19 0 @ [0, 0x80, 0, 0] @ [52, 0, 0, 0] @ replicate 12 0
     @ [1, 0] @ replicate 6 0
     @ [1, 0, 0, 0] @ replicate 4 0 @ [0, 0x80, 0, 0] @ replicate 4 0 @ [32, 0, 0, 0] @ [64, 0, 0, 0] @ [5, 0, 0, 0]
     @ replicate 4 0"

theorem elf_getMemoryBounds_tight_witness:
  "elf_getMemoryBounds tiny_elf False = Some (Some (0x8000, 0x8040)) \<and>
   elf_vaddrInProgramHeader tiny_elf 0 0x8004 = Some True \<and>
   (0x8000 :: u64) \<le> 0x8004 \<and> (0x8004 :: u64) < 0x8040"
proof -
  have *: "elf_getMemoryBounds tiny_elf False = Some (Some (0x8000, 0x8040))"
    "elf_getNumProgramHeaders tiny_elf = Some 1"
    "elf_vaddrInProgramHeader tiny_elf 0 0x8004 = Some True"
    by code_simp+
  have "(0 :: u16) < 1" by simp
  from elf_getMemoryBounds_tight [OF *(1,2) this *(3)] * show ?thesis by blast
qed

end
