(* ===== verification/Loader.thy ===== *)
theory Loader
  imports Elf Vfs
begin

text \<open>
  Loading a program into a process (\<^verbatim>\<open>proc/elf.c\<close>): the header of the file is read into a page-sized
  buffer on the stack, and every loadable segment becomes a region whose pages are mapped one by one
  and filled from the file. The address of the buffer is the parameter \<open>hdr\<close>.
\<close>

definition seL4_InvalidArgument :: int where "seL4_InvalidArgument = 1"

definition get_sel4_rights_from_elf :: "u32 \<Rightarrow> u32" where
  "get_sel4_rights_from_elf permissions =
     (let result = 0;
          result = (if permissions AND PF_R \<noteq> 0 then result OR seL4_CanRead else result);
          result = (if permissions AND PF_X \<noteq> 0 then result OR seL4_CanRead else result);
          result = (if permissions AND PF_W \<noteq> 0 then result OR seL4_CanWrite else result)
      in result)"

text \<open>Reading from the file into a frame that stays pinned meanwhile.\<close>

definition read_pinned :: "sos_env \<Rightarrow> vptr \<Rightarrow> u32 \<Rightarrow> uiovec \<Rightarrow> sos \<Rightarrow> (int \<times> sos) option" where
  "read_pinned E file kdst iov s = do {
     let frame_id = frame_table_sos_vaddr_to_index kdst s;
     c \<leftarrow> frame_table_get_chance frame_id s;
     original_chance \<leftarrow> c;
     (r, s) \<leftarrow> frame_table_set_chance frame_id PINNED s;
     c_assert (r = 0);
     node \<leftarrow> vnodes s file;
     (n, s) \<leftarrow> sos_nfs_read E (vn_data node) iov s;
     (r, s) \<leftarrow> frame_table_set_chance frame_id original_chance s;
     c_assert (r = 0);
     Some (if n \<noteq> uiov_len iov then 1 else 0, s) }"

text \<open>The body of the loop over the pages of a segment; the number of bytes the page covers is returned.\<close>

definition load_page ::
  "sos_env \<Rightarrow> int \<Rightarrow> vptr \<Rightarrow> u64 \<Rightarrow> u32 \<Rightarrow> u32 \<Rightarrow> u32 \<Rightarrow> u32 \<Rightarrow> sos \<Rightarrow> (int \<times> u32 \<times> sos) option" where
  "load_page E p file offset file_size dst permissions pos s = do {
     (r, kdst, s) \<leftarrow> sos_map_page E p (PAGE_ALIGN_4K dst) permissions s;
     let nbytes = PAGE_SIZE_4K - (dst AND PAGE_MASK_4K);
     if r \<noteq> 0 then Some (1, nbytes, s)
     else do {
       (r, s) \<leftarrow>
         (if pos < file_size then
            read_pinned E file kdst
              \<lparr>uiov_base = kdst + (dst AND PAGE_MASK_4K), uiov_len = MIN2 nbytes (file_size - pos), uiov_pos = ucast offset\<rparr> s
          else Some (0, s));
       if r \<noteq> 0 then Some (1, nbytes, s)
       else do {
         frame_cap \<leftarrow> frame_table_get_capability (frame_table_sos_vaddr_to_index kdst s) s;
         let (_, s) = ask E (K_page_unify frame_cap) s;
         Some (0, nbytes, s) } } }"

partial_function (option) load_pages ::
  "sos_env \<Rightarrow> int \<Rightarrow> vptr \<Rightarrow> u64 \<Rightarrow> u32 \<Rightarrow> u32 \<Rightarrow> u32 \<Rightarrow> u32 \<Rightarrow> u32 \<Rightarrow> sos \<Rightarrow> (int \<times> sos) option" where
  [code]: "load_pages E p file offset segment_size file_size dst permissions pos s =
     (if pos < segment_size then do {
        (r, nbytes, s) \<leftarrow> load_page E p file offset file_size dst permissions pos s;
        if r \<noteq> 0 then Some (1, s)
        else load_pages E p file (offset + ucast nbytes) segment_size file_size (dst + nbytes) permissions (pos + nbytes) s }
      else Some (0, s))"

definition load_segment_into_vspace ::
  "sos_env \<Rightarrow> int \<Rightarrow> vptr \<Rightarrow> u64 \<Rightarrow> u32 \<Rightarrow> u32 \<Rightarrow> u32 \<Rightarrow> u32 \<Rightarrow> sos \<Rightarrow> (int \<times> sos) option" where
  "load_segment_into_vspace E p file offset segment_size file_size dst permissions s = do {
     c_assert (file_size \<le> segment_size);
     curproc \<leftarrow> proc_at p s;
     as \<leftarrow> p_addrspace curproc;
     (r, as, s) \<leftarrow> as_define_region E as dst segment_size permissions s;
     s \<leftarrow> set_proc p (curproc\<lparr>p_addrspace := Some as\<rparr>) s;
     if r \<noteq> 0 then Some (1, s)
     else load_pages E p file offset segment_size file_size dst permissions 0 s }"

definition header_bytes :: "u32 \<Rightarrow> sos \<Rightarrow> u8 list" where
  "header_bytes hdr s = load_bytes (mem s) hdr (unat PAGE_SIZE_4K)"

text \<open>
  The loop over \<open>n\<close> program headers from \<open>i\<close> on, with the address and size of the last loadable
  segment seen.
\<close>

fun segment_loop ::
  "sos_env \<Rightarrow> int \<Rightarrow> vptr \<Rightarrow> u32 \<Rightarrow> nat \<Rightarrow> nat \<Rightarrow> u32 \<Rightarrow> u32 \<Rightarrow> sos \<Rightarrow> (int \<times> u32 \<times> u32 \<times> sos) option" where
  "segment_loop E p file hdr 0 i vaddr segment_size s = Some (0, vaddr, segment_size, s)"
| "segment_loop E p file hdr (Suc n) i vaddr segment_size s = do {
     t \<leftarrow> elf_getProgramHeaderType (header_bytes hdr s) (of_nat i);
     if t \<noteq> PT_LOAD then segment_loop E p file hdr n (Suc i) vaddr segment_size s
     else do {
       offset \<leftarrow> elf_getProgramHeaderOffset (header_bytes hdr s) (of_nat i);
       file_size \<leftarrow> elf_getProgramHeaderFileSize (header_bytes hdr s) (of_nat i);
       segment_size \<leftarrow> elf_getProgramHeaderMemorySize (header_bytes hdr s) (of_nat i);
       vaddr \<leftarrow> elf_getProgramHeaderVaddr (header_bytes hdr s) (of_nat i);
       flags \<leftarrow> elf_getProgramHeaderFlags (header_bytes hdr s) (of_nat i);
       (r, s) \<leftarrow> load_segment_into_vspace E p file offset (ucast segment_size) (ucast file_size) (ucast vaddr)
                  (get_sel4_rights_from_elf flags) s;
       if r \<noteq> 0 then Some (1, ucast vaddr, ucast segment_size, s)
       else segment_loop E p file hdr n (Suc i) (ucast vaddr) (ucast segment_size) s } }"

definition free_file :: "vptr \<Rightarrow> sos \<Rightarrow> sos option" where
  "free_file file s = do {
     _ \<leftarrow> vnodes s file;
     Some (s\<lparr>vnodes := (vnodes s)(file := None)\<rparr>) }"

text \<open>The result, the entry point and the end of the last segment.\<close>

definition elf_load :: "sos_env \<Rightarrow> u32 \<Rightarrow> int \<Rightarrow> string \<Rightarrow> sos \<Rightarrow> (int \<times> u64 \<times> u32 \<times> sos) option" where
  "elf_load E hdr p app_name s =
     (let (r, v, s) = sos_nfs_lookup E app_name False s in
      if r \<noteq> 0 then Some (1, 0, 0, s)
      else do {
        file \<leftarrow> v;
        node \<leftarrow> vnodes s file;
        (n, s) \<leftarrow> sos_nfs_read E (vn_data node) \<lparr>uiov_base = hdr, uiov_len = PAGE_SIZE_4K, uiov_pos = 0\<rparr> s;
        if n \<noteq> PAGE_SIZE_4K then do { s \<leftarrow> free_file file s; Some (1, 0, 0, s) }
        else do {
          ok \<leftarrow> elf_checkFile (header_bytes hdr s);
          if ok \<noteq> 0 then do { s \<leftarrow> free_file file s; Some (seL4_InvalidArgument, 0, 0, s) }
          else do {
            num_headers \<leftarrow> elf_getNumProgramHeaders (header_bytes hdr s);
            (r, vaddr, segment_size, s) \<leftarrow> segment_loop E p file hdr (unat num_headers) 0 0 0 s;
            if r \<noteq> 0 then do { s \<leftarrow> free_file file s; Some (1, 0, 0, s) }
            else do {
              c_assert (vaddr \<noteq> 0);
              elf_pc \<leftarrow> elf_getEntryPoint (header_bytes hdr s);
              s \<leftarrow> free_file file s;
              Some (0, elf_pc, vaddr + segment_size, s) } } } })"

end
