(* ===== verification/Proc.thy ===== *)
theory Proc
  imports Loader
begin

text \<open>
  Processes (\<^verbatim>\<open>proc/proc.c\<close>): the table of processes, choosing an unused process id, creating and
  starting a process, deleting its resources, handing its children to the init process, and
  releasing its slot. A process pointer is the slot the process is stored in.
\<close>

section \<open>Definitions\<close>

definition seL4_TCBBits :: nat where "seL4_TCBBits = 9"
definition STDOUT_FILENO :: int where "STDOUT_FILENO = 1"
definition STDERR_FILENO :: int where "STDERR_FILENO = 2"
definition NEW_EP_BADGE :: u32 where "NEW_EP_BADGE = 101"

definition SET_PROCID_BADGE :: "u32 \<Rightarrow> int \<Rightarrow> u32" where
  "SET_PROCID_BADGE b p = (b AND 0x7FFFFFF) OR push_bit 21 (word_of_int p)"

text \<open>Updating the process in a slot.\<close>

definition upd_proc :: "int \<Rightarrow> (proc \<Rightarrow> proc) \<Rightarrow> sos \<Rightarrow> sos option" where
  "upd_proc p f s = do { pr \<leftarrow> proc_at p s; set_proc p (f pr) s }"

definition proc_mark :: "int \<Rightarrow> proc_states \<Rightarrow> sos \<Rightarrow> sos option" where
  "proc_mark p st s = upd_proc p (\<lambda>pr. pr\<lparr>p_state := st\<rparr>) s"

definition proc_is_child :: "proc \<Rightarrow> int \<Rightarrow> bool" where
  "proc_is_child curproc p \<longleftrightarrow> p \<in> set (children curproc)"

definition proc_is_waiting :: "proc \<Rightarrow> proc \<Rightarrow> bool" where
  "proc_is_waiting parent child \<longleftrightarrow>
     (waiting_on parent = - 1 \<or> waiting_on parent = pid child) \<and> waiting_coro parent \<noteq> 0"

subsection \<open>Process ids\<close>

text \<open>The loop: a free slot if there is one, and the value of \<^verbatim>\<open>curr_pid\<close> when it stops.\<close>

partial_function (option) next_pid_loop :: "proc option list \<Rightarrow> u32 \<Rightarrow> u32 \<Rightarrow> (bool \<times> u32) option" where
  [code]: "next_pid_loop procs start_pid cur =
     (let cur = (cur + 1) mod of_nat MAX_PROCS in
      case arr_get procs (uint cur) of
        None \<Rightarrow> None
      | Some slot \<Rightarrow>
          (case slot of
             None \<Rightarrow> Some (True, cur)
           | Some _ \<Rightarrow> if cur \<noteq> start_pid then next_pid_loop procs start_pid cur else Some (False, cur)))"

text \<open>The result and, when it is 0, the new process id.\<close>

definition proc_next_pid :: "sos \<Rightarrow> (int \<times> int \<times> sos) option" where
  "proc_next_pid s = do {
     slot \<leftarrow> arr_get (sos_procs s) (uint (curr_pid s));
     (free, cur) \<leftarrow> (case slot of
        None \<Rightarrow> Some (True, curr_pid s)
      | Some _ \<Rightarrow> next_pid_loop (sos_procs s) (curr_pid s) (curr_pid s));
     if free then Some (0, uint cur, s\<lparr>curr_pid := (cur + 1) mod of_nat MAX_PROCS\<rparr>)
     else Some (1, 0, s\<lparr>curr_pid := cur\<rparr>) }"

subsection \<open>Creating a process\<close>

text \<open>The address space and file table made before a failure are not released.\<close>

definition proc_create :: "sos_env \<Rightarrow> sos \<Rightarrow> (proc option \<times> sos) option" where
  "proc_create E s =
     (let (ok, s) = do_malloc E s in
      if \<not> ok then Some (None, s)
      else do {
        (as, s) \<leftarrow> as_create E s;
        if as = None then Some (None, s)
        else do {
          let (ft, s) = fdtable_create E s;
          if ft = None then Some (None, s)
          else do {
            let (ok, s) = do_malloc E s;
            if \<not> ok then Some (None, s)
            else do {
              let (cs, s) = ask E K_cspace_create s;
              if cs = 0 then Some (None, s)
              else Some (Some \<lparr>tcb_addr = 0, tcb_cap = 0, ipc_buffer_cap = 0, croot = cs, p_addrspace = as,
                     file_table = ft, children = [], waiting_on = - 1, waiting_coro = 0, ppid = - 1, pid = - 1,
                     proc_name = None, stime = - 1, p_state = CREATED, blocked_ref = 0, kill_flag = False,
                     protected = False\<rparr>, s) } } } })"

definition proc_bootstrap :: "sos_env \<Rightarrow> sos \<Rightarrow> (int \<times> sos) option" where
  "proc_bootstrap E s = do {
     (r, p, s) \<leftarrow> proc_next_pid s;
     if r \<noteq> 0 then Some (- 1, s)
     else do {
       (init, s) \<leftarrow> proc_create E s;
       case init of
         None \<Rightarrow> Some (- 1, s)
       | Some init \<Rightarrow> do {
           s \<leftarrow> set_proc p (init\<lparr>pid := p, proc_name := Some ''SOS'', stime := 0, p_state := RUNNING,
                  protected := True\<rparr>) s;
           Some (p, s) } } }"

subsection \<open>Deleting a process\<close>

text \<open>The loop over the children: each gets the new parent; a failed \<^verbatim>\<open>list_prepend\<close> is not noticed.\<close>

fun reparent_loop :: "sos_env \<Rightarrow> int \<Rightarrow> int list \<Rightarrow> sos \<Rightarrow> (int \<times> sos) option" where
  "reparent_loop E new_parent [] s = Some (0, s)"
| "reparent_loop E new_parent (c # cs) s = do {
     child \<leftarrow> get_proc c s;
     case child of
       None \<Rightarrow> Some (1, s)
     | Some child \<Rightarrow> do {
         np \<leftarrow> proc_at new_parent s;
         s \<leftarrow> set_proc c (child\<lparr>ppid := pid np\<rparr>) s;
         let (ok, s) = do_malloc E s;
         s \<leftarrow> (if ok then upd_proc new_parent (\<lambda>pr. pr\<lparr>children := c # children pr\<rparr>) s else Some s);
         reparent_loop E new_parent cs s } }"

definition proc_reparent_children :: "sos_env \<Rightarrow> int \<Rightarrow> int \<Rightarrow> sos \<Rightarrow> (int \<times> sos) option" where
  "proc_reparent_children E cur_parent new_parent s = do {
     np \<leftarrow> get_proc new_parent s;
     case np of
       None \<Rightarrow> Some (1, s)
     | Some _ \<Rightarrow> do {
         curp \<leftarrow> proc_at cur_parent s;
         (r, s) \<leftarrow> reparent_loop E new_parent (children curp) s;
         if r \<noteq> 0 then Some (1, s)
         else do {
           s \<leftarrow> upd_proc cur_parent (\<lambda>pr. pr\<lparr>children := []\<rparr>) s;
           Some (0, s) } } }"

text \<open>The parts of \<^verbatim>\<open>_proc_delete\<close>, in order; each returns whether the function goes on.\<close>

definition free_tcb :: "proc \<Rightarrow> sos \<Rightarrow> sos option" where
  "free_tcb victim s = (if tcb_addr victim \<noteq> 0 then sos_ut_free (tcb_addr victim) seL4_TCBBits s else Some s)"

definition delete_tcb :: "sos_env \<Rightarrow> int \<Rightarrow> sos \<Rightarrow> (bool \<times> sos) option" where
  "delete_tcb E p s = do {
     victim \<leftarrow> proc_at p s;
     let (r, s) = (if tcb_cap victim \<noteq> 0 then ask E (K_tcb_suspend (tcb_cap victim)) s else (0, s));
     if r \<noteq> 0 then Some (False, s)
     else do {
       let (r, s) = (if tcb_cap victim \<noteq> 0 then ask E (K_delete_cap (tcb_cap victim)) s else (0, s));
       if r \<noteq> 0 then Some (False, s)
       else do {
         s \<leftarrow> upd_proc p (\<lambda>pr. pr\<lparr>tcb_cap := 0\<rparr>) s;
         s \<leftarrow> free_tcb victim s;
         s \<leftarrow> upd_proc p (\<lambda>pr. pr\<lparr>tcb_addr := 0\<rparr>) s;
         Some (True, s) } } }"

definition delete_ipc_buffer :: "sos_env \<Rightarrow> int \<Rightarrow> sos \<Rightarrow> (bool \<times> sos) option" where
  "delete_ipc_buffer E p s = do {
     victim \<leftarrow> proc_at p s;
     let (r, s) = (if ipc_buffer_cap victim \<noteq> 0 then ask E (K_page_unmap (ipc_buffer_cap victim)) s else (0, s));
     if r \<noteq> 0 then Some (False, s)
     else do {
       let (r, s) = (if ipc_buffer_cap victim \<noteq> 0 then ask E (K_delete_cap (ipc_buffer_cap victim)) s else (0, s));
       if r \<noteq> 0 then Some (False, s)
       else do {
         s \<leftarrow> upd_proc p (\<lambda>pr. pr\<lparr>ipc_buffer_cap := 0\<rparr>) s;
         Some (True, s) } } }"

definition delete_spaces :: "sos_env \<Rightarrow> int \<Rightarrow> sos \<Rightarrow> (bool \<times> sos) option" where
  "delete_spaces E p s = do {
     victim \<leftarrow> proc_at p s;
     let (r, s) = (if croot victim \<noteq> 0 then ask E (K_cspace_destroy (croot victim)) s else (0, s));
     if r \<noteq> 0 then Some (False, s)
     else do {
       s \<leftarrow> upd_proc p (\<lambda>pr. pr\<lparr>croot := 0\<rparr>) s;
       (r, s) \<leftarrow> (case p_addrspace victim of None \<Rightarrow> Some (0, s) | Some as \<Rightarrow> as_destroy E as s);
       if r \<noteq> 0 then Some (False, s)
       else do {
         s \<leftarrow> upd_proc p (\<lambda>pr. pr\<lparr>p_addrspace := None\<rparr>) s;
         (r, s) \<leftarrow> (case file_table victim of None \<Rightarrow> Some (0, s) | Some fdt \<Rightarrow> fdtable_destroy fdt s);
         if r \<noteq> 0 then Some (False, s)
         else do {
           s \<leftarrow> upd_proc p (\<lambda>pr. pr\<lparr>file_table := None\<rparr>) s;
           Some (True, s) } } } }"

definition do_proc_delete :: "sos_env \<Rightarrow> int \<Rightarrow> sos \<Rightarrow> (int \<times> sos) option" where
  "do_proc_delete E p s = do {
     victim \<leftarrow> proc_at p s;
     if protected victim then Some (1, s)
     else if p_state victim = ZOMBIE then Some (1, s)
     else do {
       s \<leftarrow> proc_mark p ZOMBIE s;
       (ok, s) \<leftarrow> delete_tcb E p s;
       if \<not> ok then Some (1, s)
       else do {
         (ok, s) \<leftarrow> delete_ipc_buffer E p s;
         if \<not> ok then Some (1, s)
         else do {
           (ok, s) \<leftarrow> delete_spaces E p s;
           if \<not> ok then Some (1, s)
           else do {
             (r, s) \<leftarrow> proc_reparent_children E p 0 s;
             Some (if r \<noteq> 0 then 1 else 0, s) } } } } }"

text \<open>Every process has a list of children until \<^verbatim>\<open>proc_destroy\<close> releases it with the process.\<close>

definition proc_destroy :: "int \<Rightarrow> sos \<Rightarrow> sos option" where
  "proc_destroy p s = do {
     victim \<leftarrow> proc_at p s;
     parent \<leftarrow> get_proc (ppid victim) s;
     c_assert (parent \<noteq> None);
     s \<leftarrow> upd_proc (ppid victim) (\<lambda>pr. pr\<lparr>children := remove1 (pid victim) (children pr)\<rparr>) s;
     victim \<leftarrow> proc_at p s;
     c_assert (children victim = []);
     procs \<leftarrow> arr_set (sos_procs s) (pid victim) None;
     Some (s\<lparr>sos_procs := procs\<rparr>) }"

definition proc_delete :: "sos_env \<Rightarrow> int \<Rightarrow> sos \<Rightarrow> (int \<times> sos) option" where
  "proc_delete E p s = do {
     (r, s) \<leftarrow> do_proc_delete E p s;
     if r \<noteq> 0 then Some (1, s)
     else do {
       victim \<leftarrow> proc_at p s;
       parent \<leftarrow> get_proc (ppid victim) s;
       case parent of
         None \<Rightarrow> Some (1, s)
       | Some parent \<Rightarrow>
           if proc_is_waiting parent victim
           then Some (0, coro_resume E (waiting_coro parent) (word_of_int (pid victim)) s)
           else Some (0, s) } }"

subsection \<open>Starting a process\<close>

text \<open>The failure exits of \<^verbatim>\<open>proc_start\<close>: the result of the deletion is not looked at.\<close>

definition proc_abort :: "sos_env \<Rightarrow> int \<Rightarrow> sos \<Rightarrow> (int \<times> sos) option" where
  "proc_abort E p s = do {
     (_, s) \<leftarrow> do_proc_delete E p s;
     s \<leftarrow> proc_destroy p s;
     Some (- 1, s) }"

text \<open>
  The stages of \<^verbatim>\<open>proc_start\<close> after the process is in the table, in the order of the code. Each returns
  whether it succeeded; when it did not, \<^verbatim>\<open>proc_start\<close> takes a failure exit.
\<close>

definition start_ipc_buffer :: "sos_env \<Rightarrow> int \<Rightarrow> sos \<Rightarrow> (bool \<times> sos) option" where
  "start_ipc_buffer E p s = do {
     (paddr, s) \<leftarrow> sos_ut_alloc E seL4_PageBits s;
     if paddr = 0 then Some (False, s)
     else do {
       let (err, cap, s) = cspace_ut_retype_addr E paddr seL4_PageBits s;
       if err \<noteq> 0 then Some (False, s)
       else do {
         s \<leftarrow> upd_proc p (\<lambda>pr. pr\<lparr>ipc_buffer_cap := cap\<rparr>) s;
         Some (True, s) } } }"

definition start_tcb :: "sos_env \<Rightarrow> u32 \<Rightarrow> int \<Rightarrow> sos \<Rightarrow> (bool \<times> sos) option" where
  "start_tcb E fault_ep p s = do {
     let (user_ep_cap, s) = ask E (K_mint_cap fault_ep (SET_PROCID_BADGE NEW_EP_BADGE p)) s;
     c_assert (user_ep_cap = 1);
     (addr, s) \<leftarrow> sos_ut_alloc E seL4_TCBBits s;
     s \<leftarrow> upd_proc p (\<lambda>pr. pr\<lparr>tcb_addr := addr\<rparr>) s;
     if addr = 0 then Some (False, s)
     else do {
       let (err, cap, s) = cspace_ut_retype_addr E addr seL4_TCBBits s;
       if err \<noteq> 0 then Some (False, s)
       else do {
         s \<leftarrow> upd_proc p (\<lambda>pr. pr\<lparr>tcb_cap := cap\<rparr>) s;
         let (err, s) = ask E (K_tcb_configure cap) s;
         Some (err = 0, s) } } }"

definition start_map_ipc :: "sos_env \<Rightarrow> int \<Rightarrow> sos \<Rightarrow> (bool \<times> sos) option" where
  "start_map_ipc E p s = do {
     pr \<leftarrow> proc_at p s;
     as \<leftarrow> p_addrspace pr;
     (err, pt_cap, s) \<leftarrow> map_page E (ipc_buffer_cap pr) (vspace as) PROCESS_IPC_BUFFER seL4_AllRights s;
     if err \<noteq> 0 then Some (False, s)
     else do {
       (r, as, s) \<leftarrow> as_define_region E as PROCESS_IPC_BUFFER PAGE_SIZE_4K (seL4_CanRead OR seL4_CanWrite) s;
       s \<leftarrow> upd_proc p (\<lambda>pr. pr\<lparr>p_addrspace := Some as\<rparr>) s;
       Some (r = 0, s) } }"

definition start_console :: "sos_env \<Rightarrow> int \<Rightarrow> int \<Rightarrow> sos \<Rightarrow> (bool \<times> sos) option" where
  "start_console E fd p s = do {
     (r, open_file, s) \<leftarrow> file_open E ''console'' O_WRONLY s;
     if r \<noteq> 0 then Some (False, s)
     else do {
       pr \<leftarrow> proc_at p s;
       fdt \<leftarrow> file_table pr;
       fdt \<leftarrow> fdtable_insert fdt fd open_file;
       s \<leftarrow> upd_proc p (\<lambda>pr. pr\<lparr>file_table := Some fdt\<rparr>) s;
       Some (True, s) } }"

definition start_register :: "sos_env \<Rightarrow> string \<Rightarrow> int \<Rightarrow> int \<Rightarrow> sos \<Rightarrow> (bool \<times> sos) option" where
  "start_register E app_name parent_pid p s = do {
     let (now, clk) = time_stamp (clk_env E) (clock s);
     s \<leftarrow> upd_proc p (\<lambda>pr. pr\<lparr>stime := now\<rparr>) (s\<lparr>clock := clk\<rparr>);
     let (ok, s) = do_malloc E s;
     s \<leftarrow> upd_proc p (\<lambda>pr. pr\<lparr>proc_name := (if ok then Some app_name else None)\<rparr>) s;
     parent \<leftarrow> get_proc parent_pid s;
     c_assert (parent \<noteq> None);
     let (ok, s) = do_malloc E s;
     if \<not> ok then Some (False, s)
     else do {
       s \<leftarrow> upd_proc parent_pid (\<lambda>pr. pr\<lparr>children := p # children pr\<rparr>) s;
       Some (True, s) } }"

definition start_load :: "sos_env \<Rightarrow> u32 \<Rightarrow> string \<Rightarrow> int \<Rightarrow> sos \<Rightarrow> (u64 option \<times> sos) option" where
  "start_load E hdr app_name p s = do {
     (r, elf_pc, last_section, s) \<leftarrow> elf_load E hdr p app_name s;
     if r \<noteq> 0 then Some (None, s)
     else do {
       pr \<leftarrow> proc_at p s;
       (r, as, s) \<leftarrow> as_define_stack E (p_addrspace pr) s;
       s \<leftarrow> upd_proc p (\<lambda>pr. pr\<lparr>p_addrspace := as\<rparr>) s;
       if r \<noteq> 0 then Some (None, s)
       else do {
         (r, as, s) \<leftarrow> as_define_heap E as (PAGE_ALIGN_4K (last_section + PAGE_SIZE_4K)) s;
         s \<leftarrow> upd_proc p (\<lambda>pr. pr\<lparr>p_addrspace := as\<rparr>) s;
         Some (if r \<noteq> 0 then None else Some elf_pc, s) } } }"

text \<open>A stage, and the rest of the function when it succeeded.\<close>

definition or_abort ::
  "sos_env \<Rightarrow> int \<Rightarrow> (sos \<Rightarrow> (bool \<times> sos) option) \<Rightarrow> (sos \<Rightarrow> (int \<times> sos) option) \<Rightarrow> sos \<Rightarrow> (int \<times> sos) option" where
  "or_abort E p stage rest s = do {
     (ok, s) \<leftarrow> stage s;
     if ok then rest s else proc_abort E p s }"

definition start_thread :: "sos_env \<Rightarrow> u32 \<Rightarrow> string \<Rightarrow> int \<Rightarrow> sos \<Rightarrow> (int \<times> sos) option" where
  "start_thread E hdr app_name p s = do {
     (pc, s) \<leftarrow> start_load E hdr app_name p s;
     case pc of
       None \<Rightarrow> proc_abort E p s
     | Some pc \<Rightarrow> do {
         pr \<leftarrow> proc_at p s;
         let (_, s) = ask E (K_tcb_start (tcb_cap pr) (ucast pc) PROCESS_STACK_TOP) s;
         s \<leftarrow> proc_mark p RUNNING s;
         Some (p, s) } }"

definition proc_start :: "sos_env \<Rightarrow> u32 \<Rightarrow> string \<Rightarrow> u32 \<Rightarrow> int \<Rightarrow> sos \<Rightarrow> (int \<times> sos) option" where
  "proc_start E hdr app_name fault_ep parent_pid s = do {
     let last_pid = curr_pid s;
     (r, new_pid, s) \<leftarrow> proc_next_pid s;
     if r \<noteq> 0 then Some (- 1, s\<lparr>curr_pid := last_pid\<rparr>)
     else do {
       (new_proc, s) \<leftarrow> proc_create E s;
       case new_proc of
         None \<Rightarrow> Some (- 1, s\<lparr>curr_pid := last_pid\<rparr>)
       | Some new_proc \<Rightarrow> do {
           s \<leftarrow> set_proc new_pid (new_proc\<lparr>pid := new_pid, ppid := parent_pid\<rparr>) s;
           or_abort E new_pid (start_ipc_buffer E new_pid)
             (or_abort E new_pid (start_tcb E fault_ep new_pid)
               (or_abort E new_pid (start_map_ipc E new_pid)
                 (or_abort E new_pid (start_console E STDOUT_FILENO new_pid)
                   (or_abort E new_pid (start_console E STDERR_FILENO new_pid)
                     (or_abort E new_pid (start_register E app_name parent_pid new_pid)
                       (start_thread E hdr app_name new_pid)))))) s } } }"

section \<open>Process ids\<close>

lemma unat_next_pid: "unat ((c + 1) mod of_nat MAX_PROCS :: u32) = (unat c + 1) mod 16"
proof -
  have "unat ((c + 1) mod of_nat MAX_PROCS :: u32) = unat (c + 1) mod 16" by (simp add: MAX_PROCS_def unat_mod)
  also have "\<dots> = (unat c + 1) mod 2 ^ 32 mod 16" by (simp add: unat_word_ariths)
  also have "\<dots> = (unat c + 1) mod 16" by (rule mod_mod_cancel) simp
  finally show ?thesis .
qed

lemma next_pid_loop_step:
  assumes "length procs = 16"
  shows "next_pid_loop procs start cur =
    (if procs ! ((unat cur + 1) mod 16) = None then Some (True, (cur + 1) mod of_nat MAX_PROCS)
     else if (unat cur + 1) mod 16 \<noteq> unat start then next_pid_loop procs start ((cur + 1) mod of_nat MAX_PROCS)
     else Some (False, start))"
proof -
  have u: "uint ((cur + 1) mod of_nat MAX_PROCS) = int ((unat cur + 1) mod 16)"
    unfolding uint_nat unat_next_pid ..
  have eq: "(cur + 1) mod of_nat MAX_PROCS = start \<longleftrightarrow> (unat cur + 1) mod 16 = unat start"
    by (simp add: word_unat_eq_iff unat_next_pid)
  have "arr_get procs (int ((unat cur + 1) mod 16)) = Some (procs ! ((unat cur + 1) mod 16))"
    using assms by (simp add: arr_get_def)
  then show ?thesis using eq
    by (subst next_pid_loop.simps) (auto simp: Let_def u split: option.splits)
qed

text \<open>\<open>d\<close> is how many slots are left to look at; \<open>j\<close> how many are passed over.\<close>

lemma next_pid_loop_spec:
  assumes len: "length procs = 16" and start: "(unat cur + d) mod 16 = unat start" and d: "0 < d" "d \<le> 16"
  shows "(\<forall>i. 0 < i \<and> i \<le> d \<longrightarrow> procs ! ((unat cur + i) mod 16) \<noteq> None) \<and> next_pid_loop procs start cur = Some (False, start) \<or>
    (\<exists>j c. 0 < j \<and> j \<le> d \<and> procs ! ((unat cur + j) mod 16) = None \<and>
       (\<forall>i. 0 < i \<and> i < j \<longrightarrow> procs ! ((unat cur + i) mod 16) \<noteq> None) \<and>
       next_pid_loop procs start cur = Some (True, c) \<and> unat c = (unat cur + j) mod 16)"
  using start d
proof (induction d arbitrary: cur)
  case (Suc d)
  define nxt where "nxt = (cur + 1) mod of_nat MAX_PROCS"
  have n: "unat nxt = (unat cur + 1) mod 16" by (simp add: nxt_def unat_next_pid)
  have shift: "(unat nxt + i) mod 16 = (unat cur + Suc i) mod 16" for i unfolding n by (simp add: mod_simps)
  note step = next_pid_loop_step [OF len, of start cur, folded nxt_def]
  consider (free) "procs ! ((unat cur + 1) mod 16) = None"
    | (last) "procs ! ((unat cur + 1) mod 16) \<noteq> None" "d = 0"
    | (more) "procs ! ((unat cur + 1) mod 16) \<noteq> None" "0 < d" by auto
  then show ?case
  proof cases
    case free
    with step n show ?thesis by (intro disjI2 exI [of _ 1] exI [of _ nxt]) auto
  next
    case last
    with step Suc.prems show ?thesis by (intro disjI1) (auto simp: le_Suc_eq)
  next
    case more
    have "(unat cur + 1) mod 16 \<noteq> unat start"
    proof
      assume "(unat cur + 1) mod 16 = unat start"
      with Suc.prems(1) have "(unat cur + 1 + d) mod 16 = (unat cur + 1 + 0) mod 16" by simp
      then have "16 dvd d" by (simp add: mod_eq_dvd_iff_nat)
      with more Suc.prems show False by (auto dest: dvd_imp_le)
    qed
    with step more have eq: "next_pid_loop procs start cur = next_pid_loop procs start nxt" by presburger
    have nx: "(unat nxt + d) mod 16 = unat start" using shift Suc.prems(1) by simp
    have "d \<le> 16" using Suc.prems(3) by simp
    have used: "procs ! ((unat cur + i) mod 16) \<noteq> None"
      if "0 < i" "i = 1 \<or> procs ! ((unat nxt + (i - 1)) mod 16) \<noteq> None" for i
      using that more shift [of "i - 1"] by (cases i) auto
    from Suc.IH [OF nx more(2) \<open>d \<le> 16\<close>] show ?thesis
    proof (elim disjE exE conjE, goal_cases)
      case 1
      have "procs ! ((unat cur + i) mod 16) \<noteq> None" if "0 < i" "i \<le> Suc d" for i
        using that spec [OF 1(1), of "i - 1"] by (intro used) auto
      with 1 eq show ?case by auto
    next
      case (2 j c)
      have "procs ! ((unat cur + i) mod 16) \<noteq> None" if "0 < i" "i < Suc j" for i
        using that spec [OF 2(4), of "i - 1"] by (intro used) auto
      with 2 eq shift [of j] show ?case by (intro disjI2 exI [of _ "Suc j"] exI [of _ c]) auto
    qed
  qed
qed simp

text \<open>
  C34: \<^verbatim>\<open>proc_next_pid\<close> always returns. It fails exactly when every slot of the process table is in use,
  and then changes nothing; otherwise it gives the first free slot from \<^verbatim>\<open>curr_pid\<close> on, going round
  the table, and leaves \<^verbatim>\<open>curr_pid\<close> just after it.
\<close>

theorem proc_next_pid_first_free:
  assumes len: "length (sos_procs s) = MAX_PROCS" and cur: "unat (curr_pid s) < MAX_PROCS"
  shows "(\<forall>i<16. sos_procs s ! i \<noteq> None) \<and> proc_next_pid s = Some (1, 0, s) \<or>
    (\<exists>j<16. \<exists>cur'. let p = (unat (curr_pid s) + j) mod 16 in sos_procs s ! p = None \<and>
       (\<forall>i<j. sos_procs s ! ((unat (curr_pid s) + i) mod 16) \<noteq> None) \<and>
       proc_next_pid s = Some (0, int p, s\<lparr>curr_pid := cur'\<rparr>) \<and> unat cur' = (p + 1) mod 16)"
proof (cases "sos_procs s ! unat (curr_pid s)")
  case None
  let ?c = "(curr_pid s + 1) mod of_nat MAX_PROCS"
  have "proc_next_pid s = Some (0, int (unat (curr_pid s)), s\<lparr>curr_pid := ?c\<rparr>)"
    using None len cur by (simp add: proc_next_pid_def arr_get_def)
  with None cur show ?thesis
    by (intro disjI2 exI [of _ "0 :: nat"] conjI exI [of _ ?c]) (simp_all add: unat_next_pid Let_def, simp_all add: MAX_PROCS_def)
next
  case (Some pr)
  have get: "proc_next_pid s = do {
      (free, cur) \<leftarrow> next_pid_loop (sos_procs s) (curr_pid s) (curr_pid s);
      if free then Some (0, uint cur, s\<lparr>curr_pid := (cur + 1) mod of_nat MAX_PROCS\<rparr>)
      else Some (1, 0, s\<lparr>curr_pid := cur\<rparr>) }"
    using Some len cur by (simp add: proc_next_pid_def arr_get_def)
  have "(unat (curr_pid s) + 16) mod 16 = unat (curr_pid s)" using cur by (simp add: MAX_PROCS_def)
  from next_pid_loop_spec [OF len [unfolded MAX_PROCS_def] this zero_less_numeral order_refl]
  show ?thesis
  proof (elim disjE exE conjE, goal_cases)
    case 1
    have "sos_procs s ! i \<noteq> None" if "i < 16" for i
    proof -
      define k where "k = (if i \<le> unat (curr_pid s) then i + 16 - unat (curr_pid s) else i - unat (curr_pid s))"
      have "0 < k \<and> k \<le> 16 \<and> (unat (curr_pid s) + k) mod 16 = i"
        using that cur by (auto simp: k_def MAX_PROCS_def)
      with 1 show ?thesis by metis
    qed
    moreover have "proc_next_pid s = Some (1, 0, s)" unfolding get 1(2) by simp
    ultimately show ?case by blast
  next
    case (2 j c)
    from 2 Some cur have "j \<noteq> 16" by (auto simp: MAX_PROCS_def)
    have "sos_procs s ! ((unat (curr_pid s) + i) mod 16) \<noteq> None" if "i < j" for i
      using 2 Some cur that by (cases "i = 0") (auto simp: MAX_PROCS_def)
    moreover have "proc_next_pid s = Some (0, int ((unat (curr_pid s) + j) mod 16), s\<lparr>curr_pid := (c + 1) mod of_nat MAX_PROCS\<rparr>)"
      unfolding get 2(5) 2(6) [symmetric] by simp
    moreover have "unat ((c + 1) mod of_nat MAX_PROCS) = ((unat (curr_pid s) + j) mod 16 + 1) mod 16"
      unfolding unat_next_pid 2(6) ..
    ultimately show ?case unfolding Let_def using 2(2,3) \<open>j \<noteq> 16\<close> by (metis le_neq_implies_less)
  qed
qed

theorem proc_next_pid_first_free_witness:
  "\<exists>s'. proc_next_pid initial_sos = Some (0, 0, s') \<and> unat (curr_pid s') = 1"
proof -
  have len: "length (sos_procs initial_sos) = MAX_PROCS" and cur: "unat (curr_pid initial_sos) < MAX_PROCS"
    and free: "sos_procs initial_sos ! 0 = None" and cur0: "unat (curr_pid initial_sos) = 0"
    by (simp_all add: initial_sos_def MAX_PROCS_def)
  from proc_next_pid_first_free [OF len cur] free obtain j cur' where j: "j < 16"
    "\<forall>i<j. sos_procs initial_sos ! ((unat (curr_pid initial_sos) + i) mod 16) \<noteq> None"
    "proc_next_pid initial_sos = Some (0, int ((unat (curr_pid initial_sos) + j) mod 16), initial_sos\<lparr>curr_pid := cur'\<rparr>)"
    "unat cur' = ((unat (curr_pid initial_sos) + j) mod 16 + 1) mod 16"
    unfolding Let_def by (metis zero_less_numeral)
  have "j = 0" using j(2) free cur0 by (cases j) auto
  with j(3,4) cur0 show ?thesis by simp
qed

end
