(* ===== verification/Syscalls.thy ===== *)
theory Syscalls
  imports Proc
begin

text \<open>
  The system calls (\<^verbatim>\<open>syscall/\<close>). A handler gets the calling process, reads its arguments from the
  message registers, and returns the number of words of the reply; a negative number means that
  there is no reply. The dispatcher blocks the process meanwhile, and deletes it afterwards when it
  was marked to be killed.
\<close>

section \<open>Definitions\<close>

definition NAME_MAX :: u32 where "NAME_MAX = 255"
definition N_NAME :: nat where "N_NAME = 32"

definition get_mr :: "sos_env \<Rightarrow> nat \<Rightarrow> sos \<Rightarrow> u32 \<times> sos" where
  "get_mr E i s = ask E (K_get_mr i) s"

definition set_mr :: "sos_env \<Rightarrow> nat \<Rightarrow> u32 \<Rightarrow> sos \<Rightarrow> sos" where
  "set_mr E i v s = snd (ask E (K_set_mr i v) s)"

text \<open>The common end of the handlers: one word in the reply.\<close>

definition message_reply :: "sos_env \<Rightarrow> u32 \<Rightarrow> sos \<Rightarrow> (int \<times> sos) option" where
  "message_reply E result s = Some (1, set_mr E 0 result s)"

text \<open>A name buffer as a C string, ended at the latest by the explicit terminator.\<close>

definition kernel_name :: "u8 list \<Rightarrow> string" where
  "kernel_name kname = map (char_of \<circ> unat) (takeWhile (\<lambda>b. b \<noteq> 0) (take (unat NAME_MAX - 1) kname))"

definition c_bytes :: "string \<Rightarrow> u8 list" where
  "c_bytes str = map of_char str @ [0]"

definition bytes32 :: "u32 \<Rightarrow> u8 list" where
  "bytes32 w = [ucast w, ucast (drop_bit 8 w), ucast (drop_bit 16 w), ucast (drop_bit 24 w)]"

subsection \<open>Files\<close>

definition proc_fdtable :: "int \<Rightarrow> sos \<Rightarrow> file_t option list option" where
  "proc_fdtable p s = do { pr \<leftarrow> proc_at p s; file_table pr }"

definition set_fdtable :: "int \<Rightarrow> file_t option list \<Rightarrow> sos \<Rightarrow> sos option" where
  "set_fdtable p fdt s = upd_proc p (\<lambda>pr. pr\<lparr>file_table := Some fdt\<rparr>) s"

definition syscall_open :: "sos_env \<Rightarrow> int \<Rightarrow> sos \<Rightarrow> (int \<times> sos) option" where
  "syscall_open E p s =
     (let (name, s) = get_mr E 1 s; (m, s) = get_mr E 2 s in do {
        (r, kname, s) \<leftarrow> copy_in E p name NAME_MAX s;
        if r \<noteq> 0 then message_reply E (- 1) s
        else do {
          fdt \<leftarrow> proc_fdtable p s;
          (r, fd) \<leftarrow> fdtable_get_unused_fd fdt;
          if r \<noteq> 0 then message_reply E (- 1) s
          else do {
            (r, open_file, s) \<leftarrow> file_open E (kernel_name kname) m s;
            if r \<noteq> 0 then message_reply E (- 1) s
            else do {
              fdt \<leftarrow> proc_fdtable p s;
              fdt \<leftarrow> fdtable_insert fdt fd open_file;
              s \<leftarrow> set_fdtable p fdt s;
              message_reply E (word_of_int fd) s } } } })"

definition syscall_close :: "sos_env \<Rightarrow> int \<Rightarrow> sos \<Rightarrow> (int \<times> sos) option" where
  "syscall_close E p s =
     (let (fd, s) = get_mr E 1 s in do {
        fdt \<leftarrow> proc_fdtable p s;
        (open_file, fdt) \<leftarrow> fdtable_close_fd fdt (sint fd);
        case open_file of
          None \<Rightarrow> message_reply E (- 1) s
        | Some f \<Rightarrow> do {
            s \<leftarrow> set_fdtable p fdt s;
            s \<leftarrow> file_close f s;
            message_reply E 0 s } })"

definition stat_bytes :: "sos_stat_t \<Rightarrow> u8 list" where
  "stat_bytes st = bytes32 (st_type st) @ bytes32 (st_fmode st) @ bytes32 (st_size st) @ bytes32 (st_ctime st)
     @ bytes32 (st_atime st)"

definition syscall_stat :: "sos_env \<Rightarrow> int \<Rightarrow> sos \<Rightarrow> (int \<times> sos) option" where
  "syscall_stat E p s =
     (let (name, s) = get_mr E 1 s; (stat_buf, s) = get_mr E 2 s in do {
        (r, kname, s) \<leftarrow> copy_in E p name NAME_MAX s;
        if r \<noteq> 0 then message_reply E (- 1) s
        else do {
          (r, st, s) \<leftarrow> vfs_stat E (kernel_name kname) s;
          if r \<noteq> 0 then message_reply E (- 1) s
          else do {
            kstat \<leftarrow> st;
            (r, s) \<leftarrow> copy_out E p stat_buf (stat_bytes kstat) 20 s;
            message_reply E (if r \<noteq> 0 then - 1 else 0) s } } })"

text \<open>The test against the last entry is unsigned: without any entry it admits every position.\<close>

definition syscall_listdir :: "sos_env \<Rightarrow> int \<Rightarrow> sos \<Rightarrow> (int \<times> sos) option" where
  "syscall_listdir E p s =
     (let (pos, s) = get_mr E 1 s; (uname, s) = get_mr E 2 s; (nbytes, s) = get_mr E 3 s in
      if sint nbytes \<le> 0 then message_reply E (- 1) s
      else do {
        (dir, s) \<leftarrow> vfs_list E s;
        case dir of
          None \<Rightarrow> message_reply E (- 1) s
        | Some dir \<Rightarrow>
            if pos = of_nat (length dir) then message_reply E 0 s
            else if \<not> (0 \<le> sint pos \<and> pos \<le> of_nat (length dir) - 1) then message_reply E (- 1) s
            else do {
              name \<leftarrow> arr_get dir (uint pos);
              let bytes_returned = MIN2 nbytes (of_nat (length name)) + 1;
              (r, s) \<leftarrow> copy_out E p uname (c_bytes name) bytes_returned s;
              if r \<noteq> 0 then message_reply E (- 1) s else message_reply E bytes_returned s } })"

text \<open>
  The open file is reached through a pointer into the table; its position is advanced there.
\<close>

definition open_file_at :: "int \<Rightarrow> int \<Rightarrow> sos \<Rightarrow> file_t option" where
  "open_file_at p fd s = do { fdt \<leftarrow> proc_fdtable p s; f \<leftarrow> arr_get fdt fd; f }"

definition advance_fp :: "int \<Rightarrow> int \<Rightarrow> u32 \<Rightarrow> sos \<Rightarrow> sos option" where
  "advance_fp p fd n s = do {
     fdt \<leftarrow> proc_fdtable p s;
     f \<leftarrow> open_file_at p fd s;
     fdt \<leftarrow> arr_set fdt fd (Some (f\<lparr>fp := fp f + n\<rparr>));
     set_fdtable p fdt s }"

text \<open>How a round of the transfer loop ends: with an error, an early exit, or the bytes transferred.\<close>

datatype rw_end = Rw_error | Rw_early u32 | Rw_bytes u32

definition restore_chance :: "u32 \<Rightarrow> chance_type \<Rightarrow> sos \<Rightarrow> sos option" where
  "restore_chance frame_id ch s = do {
     (r, s) \<leftarrow> frame_table_set_chance frame_id ch s;
     c_assert (r = 0);
     Some s }"

definition rw_round ::
  "sos_env \<Rightarrow> int \<Rightarrow> int \<Rightarrow> u32 \<Rightarrow> vptr \<Rightarrow> u32 \<Rightarrow> u32 \<Rightarrow> sos \<Rightarrow> (rw_end \<times> sos) option" where
  "rw_round E p fd access_mode v buf nbytes_remaining s = do {
     (kvaddr, s) \<leftarrow> vaddr_to_sos_vaddr E p buf (if access_mode = 0 then 1 else 0) s;
     if kvaddr = 0 then Some (Rw_error, s)
     else do {
       let frame_id = frame_table_sos_vaddr_to_index kvaddr s;
       c \<leftarrow> frame_table_get_chance frame_id s;
       original_chance \<leftarrow> c;
       s \<leftarrow> restore_chance frame_id PINNED s;
       let bytes_this_round = MIN2 (page_rest buf) nbytes_remaining;
       f \<leftarrow> open_file_at p fd s;
       let iov = \<lparr>uiov_base = kvaddr, uiov_len = bytes_this_round, uiov_pos = fp f\<rparr>;
       (result, s) \<leftarrow> (if access_mode = ACCESS_READ then vop_read E v iov s else vop_write E v iov s);
       if result = - 1 then do {
         s \<leftarrow> restore_chance frame_id original_chance s;
         Some (Rw_error, s) }
       else if access_mode = ACCESS_READ \<and> result \<noteq> bytes_this_round then do {
         s \<leftarrow> advance_fp p fd result s;
         Some (Rw_early result, s) }
       else do {
         s \<leftarrow> restore_chance frame_id original_chance s;
         s \<leftarrow> advance_fp p fd result s;
         Some (Rw_bytes result, s) } } }"

text \<open>The loop: what remains to be transferred, or \<open>None\<close> after an error.\<close>

partial_function (option) rw_loop ::
  "sos_env \<Rightarrow> int \<Rightarrow> int \<Rightarrow> u32 \<Rightarrow> vptr \<Rightarrow> u32 \<Rightarrow> u32 \<Rightarrow> sos \<Rightarrow> (u32 option \<times> sos) option" where
  [code]: "rw_loop E p fd access_mode v buf nbytes_remaining s =
     (if nbytes_remaining > 0 then do {
        (r, s) \<leftarrow> rw_round E p fd access_mode v buf nbytes_remaining s;
        case r of
          Rw_error \<Rightarrow> Some (None, s)
        | Rw_early n \<Rightarrow> Some (Some (nbytes_remaining - n), s)
        | Rw_bytes n \<Rightarrow> rw_loop E p fd access_mode v (buf + n) (nbytes_remaining - n) s }
      else Some (Some nbytes_remaining, s))"

definition syscall_do_read_write :: "u32 \<Rightarrow> sos_env \<Rightarrow> int \<Rightarrow> sos \<Rightarrow> (int \<times> sos) option" where
  "syscall_do_read_write access_mode E p s =
     (let (fd, s) = get_mr E 1 s; (buf, s) = get_mr E 2 s; (nbytes, s) = get_mr E 3 s in do {
        fdt \<leftarrow> proc_fdtable p s;
        open_file \<leftarrow> fdtable_get fdt (sint fd);
        case open_file of
          None \<Rightarrow> message_reply E (- 1) s
        | Some f \<Rightarrow>
            if access_mode = ACCESS_WRITE \<and> mode f = O_RDONLY \<or> access_mode = ACCESS_READ \<and> mode f = O_WRONLY
            then message_reply E (- 1) s
            else do {
              (rest, s) \<leftarrow> rw_loop E p (sint fd) access_mode (vn f) buf nbytes s;
              case rest of
                None \<Rightarrow> message_reply E (- 1) s
              | Some n \<Rightarrow> message_reply E (nbytes - n) s } })"

definition syscall_write :: "sos_env \<Rightarrow> int \<Rightarrow> sos \<Rightarrow> (int \<times> sos) option" where
  "syscall_write = syscall_do_read_write ACCESS_WRITE"

definition syscall_read :: "sos_env \<Rightarrow> int \<Rightarrow> sos \<Rightarrow> (int \<times> sos) option" where
  "syscall_read = syscall_do_read_write ACCESS_READ"

subsection \<open>Memory and time\<close>

definition syscall_brk :: "sos_env \<Rightarrow> int \<Rightarrow> sos \<Rightarrow> (int \<times> sos) option" where
  "syscall_brk E p s =
     (let (newbrk, s) = get_mr E 1 s in do {
        pr \<leftarrow> proc_at p s;
        as \<leftarrow> p_addrspace pr;
        (brk, as) \<leftarrow> heap_brk as newbrk;
        s \<leftarrow> set_proc p (pr\<lparr>p_addrspace := Some as\<rparr>) s;
        message_reply E brk s })"

definition callback_sys_usleep_ptr :: u32 where "callback_sys_usleep_ptr = 3"

definition syscall_usleep :: "sos_env \<Rightarrow> int \<Rightarrow> sos \<Rightarrow> (int \<times> sos) option" where
  "syscall_usleep E p s =
     (let (ms_delay, s) = get_mr E 1 s in
      if sint ms_delay \<le> 0 then Some (0, s)
      else do {
        let s = s\<lparr>timer_fired := False\<rparr>;
        let (cur, s) = ask E K_coro_getcur s;
        (i, clk) \<leftarrow> register_timer (clk_env E) (MILLISECONDS (ucast ms_delay)) callback_sys_usleep_ptr cur (clock s);
        let s = s\<lparr>clock := clk\<rparr>;
        if i = 0 then Some (0, s)
        else if \<not> timer_fired s then Some (0, coro_yield E s)
        else Some (0, s) })"

definition syscall_time_stamp :: "sos_env \<Rightarrow> int \<Rightarrow> sos \<Rightarrow> (int \<times> sos) option" where
  "syscall_time_stamp E p s =
     (let (ts, clk) = time_stamp (clk_env E) (clock s);
          s = set_mr E 0 (UPPER32BITS ts) (s\<lparr>clock := clk\<rparr>)
      in Some (2, set_mr E 1 (LOWER32BITS ts) s))"

subsection \<open>Processes\<close>

definition syscall_proc_create :: "u32 \<Rightarrow> sos_env \<Rightarrow> int \<Rightarrow> sos \<Rightarrow> (int \<times> sos) option" where
  "syscall_proc_create hdr E p s =
     (let (name, s) = get_mr E 1 s in do {
        (r, kname, s) \<leftarrow> copy_in E p name NAME_MAX s;
        if r \<noteq> 0 then message_reply E (- 1) s
        else do {
          curproc \<leftarrow> proc_at p s;
          (result, s) \<leftarrow> proc_start E hdr (kernel_name kname) (sos_ipc_ep_cap s) (pid curproc) s;
          message_reply E (word_of_int result) s } })"

definition proc_delete_async_check :: "sos_env \<Rightarrow> int \<Rightarrow> sos \<Rightarrow> (int \<times> sos) option" where
  "proc_delete_async_check E victim_pid s = do {
     victim \<leftarrow> get_proc victim_pid s;
     case victim of
       None \<Rightarrow> Some (1, s)
     | Some victim \<Rightarrow>
         if p_state victim = BLOCKED then do {
           s \<leftarrow> upd_proc victim_pid (\<lambda>pr. pr\<lparr>kill_flag := True\<rparr>) s;
           Some (0, s) }
         else do {
           (r, s) \<leftarrow> proc_delete E victim_pid s;
           Some (if r \<noteq> 0 then 1 else 0, s) } }"

definition syscall_proc_delete :: "sos_env \<Rightarrow> int \<Rightarrow> sos \<Rightarrow> (int \<times> sos) option" where
  "syscall_proc_delete E p s =
     (let (victim_pid, s) = get_mr E 1 s in do {
        (r, s) \<leftarrow> proc_delete_async_check E (sint victim_pid) s;
        if r \<noteq> 0 then message_reply E (- 1) s
        else do {
          curproc \<leftarrow> proc_at p s;
          if pid curproc = sint victim_pid then Some (- 1, s) else message_reply E 0 s } })"

definition syscall_proc_id :: "sos_env \<Rightarrow> int \<Rightarrow> sos \<Rightarrow> (int \<times> sos) option" where
  "syscall_proc_id E p s = do {
     curproc \<leftarrow> proc_at p s;
     message_reply E (word_of_int (pid curproc)) s }"

text \<open>
  The entry of a process; \<^verbatim>\<open>strcpy\<close> reads the name through its pointer and must not write past the
  \<^const>\<open>N_NAME\<close> bytes of the buffer.
\<close>

definition process_bytes :: "proc \<Rightarrow> sos \<Rightarrow> u8 list option" where
  "process_bytes c s = do {
     size \<leftarrow> page_directory_count c s;
     name \<leftarrow> proc_name c;
     c_assert (length name < N_NAME);
     Some (bytes32 (word_of_int (pid c)) @ bytes32 (of_nat size) @ bytes32 (ucast (stime c))
           @ map of_char name @ replicate (N_NAME - length name) 0) }"

text \<open>The loop with \<open>n\<close> process ids left, from \<open>c_id\<close> on; the number of processes reported.\<close>

fun status_loop :: "sos_env \<Rightarrow> int \<Rightarrow> u32 \<Rightarrow> nat \<Rightarrow> int \<Rightarrow> u32 \<Rightarrow> u32 \<Rightarrow> sos \<Rightarrow> (u32 \<times> sos) option" where
  "status_loop E p procs_max 0 c_id addr num_found s = Some (num_found, s)"
| "status_loop E p procs_max (Suc n) c_id addr num_found s =
     (if num_found < procs_max then do {
        c \<leftarrow> get_proc c_id s;
        case c of
          None \<Rightarrow> status_loop E p procs_max n (c_id + 1) addr num_found s
        | Some c \<Rightarrow> do {
            kproc \<leftarrow> process_bytes c s;
            (r, s) \<leftarrow> copy_out E p addr kproc 44 s;
            if r \<noteq> 0 then Some (num_found, s)
            else status_loop E p procs_max n (c_id + 1) (addr + 44) (num_found + 1) s } }
      else Some (num_found, s))"

definition syscall_proc_status :: "sos_env \<Rightarrow> int \<Rightarrow> sos \<Rightarrow> (int \<times> sos) option" where
  "syscall_proc_status E p s =
     (let (addr, s) = get_mr E 1 s; (procs_max, s) = get_mr E 2 s in do {
        (num_found, s) \<leftarrow> status_loop E p procs_max MAX_PROCS 0 addr 0 s;
        message_reply E num_found s })"

text \<open>The first child in list order that has exited.\<close>

fun zombie_child :: "int list \<Rightarrow> sos \<Rightarrow> int option option" where
  "zombie_child [] s = Some None"
| "zombie_child (c # cs) s = do {
     child \<leftarrow> get_proc c s;
     case child of
       Some child \<Rightarrow> if p_state child = ZOMBIE then Some (Some (pid child)) else zombie_child cs s
     | None \<Rightarrow> zombie_child cs s }"

text \<open>Suspending until resumed with a process id.\<close>

definition wait_for :: "sos_env \<Rightarrow> int \<Rightarrow> int \<Rightarrow> sos \<Rightarrow> (int \<times> sos) option" where
  "wait_for E p child s = do {
     let (cur, s) = ask E K_coro_getcur s;
     s \<leftarrow> upd_proc p (\<lambda>pr. pr\<lparr>waiting_coro := cur, waiting_on := child\<rparr>) s;
     let (result, s) = ask E K_yield (coro_yield E s);
     s \<leftarrow> upd_proc p (\<lambda>pr. pr\<lparr>waiting_coro := 0, waiting_on := - 1\<rparr>) s;
     Some (sint result, s) }"

definition wait_destroy :: "sos_env \<Rightarrow> int \<Rightarrow> sos \<Rightarrow> (int \<times> sos) option" where
  "wait_destroy E result s = do {
     victim \<leftarrow> get_proc result s;
     c_assert (victim \<noteq> None);
     s \<leftarrow> proc_destroy result s;
     message_reply E (word_of_int result) s }"

definition syscall_proc_wait :: "sos_env \<Rightarrow> int \<Rightarrow> sos \<Rightarrow> (int \<times> sos) option" where
  "syscall_proc_wait E p s =
     (let (mr, s) = get_mr E 1 s; child_pid = sint mr in do {
        curproc \<leftarrow> proc_at p s;
        if child_pid = - 1 then do {
          z \<leftarrow> zombie_child (children curproc) s;
          case z of
            Some result \<Rightarrow> wait_destroy E result s
          | None \<Rightarrow> do { (result, s) \<leftarrow> wait_for E p child_pid s; wait_destroy E result s } }
        else if \<not> proc_is_child curproc child_pid then message_reply E (- 1) s
        else do {
          c \<leftarrow> get_proc child_pid s;
          child \<leftarrow> c;
          if p_state child = ZOMBIE then wait_destroy E child_pid s
          else do { (result, s) \<leftarrow> wait_for E p child_pid s; wait_destroy E result s } } })"

definition syscall_exit :: "sos_env \<Rightarrow> int \<Rightarrow> sos \<Rightarrow> (int \<times> sos) option" where
  "syscall_exit E p s = do {
     curproc \<leftarrow> proc_at p s;
     (_, s) \<leftarrow> proc_delete_async_check E (pid curproc) s;
     Some (- 1, s) }"

subsection \<open>Dispatch\<close>

definition syscall_table :: "u32 \<Rightarrow> (sos_env \<Rightarrow> int \<Rightarrow> sos \<Rightarrow> (int \<times> sos) option) list" where
  "syscall_table hdr = [syscall_write, syscall_read, syscall_open, syscall_close, syscall_brk, syscall_usleep,
     syscall_time_stamp, syscall_stat, syscall_listdir, syscall_proc_create hdr, syscall_proc_delete,
     syscall_proc_id, syscall_proc_status, syscall_proc_wait, syscall_exit]"

text \<open>The process is blocked before a request and unblocked after it.\<close>

definition block_proc :: "int \<Rightarrow> sos \<Rightarrow> sos option" where
  "block_proc p s = do {
     s \<leftarrow> proc_mark p BLOCKED s;
     upd_proc p (\<lambda>pr. pr\<lparr>blocked_ref := blocked_ref pr + 1\<rparr>) s }"

definition unblock_proc :: "int \<Rightarrow> sos \<Rightarrow> sos option" where
  "unblock_proc p s = do {
     s \<leftarrow> proc_mark p RUNNING s;
     upd_proc p (\<lambda>pr. pr\<lparr>blocked_ref := blocked_ref pr - 1\<rparr>) s }"

definition handle_syscall :: "sos_env \<Rightarrow> u32 \<Rightarrow> u32 \<Rightarrow> sos \<Rightarrow> sos option" where
  "handle_syscall E hdr caller s =
     (let (syscall_number, s) = get_mr E 0 s; p = sint caller in do {
        curproc \<leftarrow> get_proc p s;
        c_assert (curproc \<noteq> None);
        let (reply_cap, s) = ask E K_save_reply s;
        c_assert (reply_cap \<noteq> 0);
        if syscall_number \<le> of_nat (length (syscall_table hdr)) - 1 then do {
          handler \<leftarrow> arr_get (syscall_table hdr) (uint syscall_number);
          s \<leftarrow> block_proc p s;
          (nwords, s) \<leftarrow> handler E p s;
          s \<leftarrow> unblock_proc p s;
          pr \<leftarrow> proc_at p s;
          (nwords, s) \<leftarrow>
            (if kill_flag pr \<and> blocked_ref pr = 0 then do { (_, s) \<leftarrow> proc_delete E p s; Some (- 1, s) }
             else Some (nwords, s));
          let s = (if nwords \<ge> 0 then snd (ask E (K_send reply_cap (nat nwords)) s) else s);
          Some (snd (ask E (K_free_slot reply_cap) s)) }
        else do {
          let s = set_mr E 0 (- 1) s;
          let s = snd (ask E (K_send reply_cap 1) s);
          Some (snd (ask E (K_free_slot reply_cap) s)) } })"

end
