(* ===== verification/Events.thy ===== *)
theory Events
  imports Syscalls
begin

text \<open>
  The event loop of the server (\<^verbatim>\<open>event.c\<close>), the page fault handler (\<^verbatim>\<open>vm/vm.c\<close>) and the part of the
  initialisation that involves the state of the server (\<^verbatim>\<open>main.c\<close>, \<^verbatim>\<open>vm/pager.c\<close>). A handler runs in a
  coroutine of its own: where it yields, the events in between are the environment's interference.
\<close>

section \<open>Definitions\<close>

subsection \<open>Badges\<close>

definition IRQ_EP_BADGE :: u32 where "IRQ_EP_BADGE = BIT 27"
definition IRQ_BADGE_NETWORK :: u32 where "IRQ_BADGE_NETWORK = BIT 0"
definition IRQ_BADGE_TIMER :: u32 where "IRQ_BADGE_TIMER = BIT 1"
definition seL4_NoFault :: u32 where "seL4_NoFault = 0"
definition seL4_VMFault :: u32 where "seL4_VMFault = 2"
definition seL4_EndpointBits :: nat where "seL4_EndpointBits = 4"

definition GET_PROCID_BADGE :: "u32 \<Rightarrow> u32" where
  "GET_PROCID_BADGE x = drop_bit 21 x"

subsection \<open>Page faults\<close>

text \<open>The labels \<^verbatim>\<open>thread_restart\<close> and \<^verbatim>\<open>fault_error\<close>.\<close>

definition thread_restart :: "sos_env \<Rightarrow> u32 \<Rightarrow> int \<Rightarrow> sos \<Rightarrow> sos option" where
  "thread_restart E reply_cap p s = do {
     s \<leftarrow> unblock_proc p s;
     curproc \<leftarrow> proc_at p s;
     if kill_flag curproc \<and> blocked_ref curproc = 0 then do {
       (_, s) \<leftarrow> proc_delete E p s;
       Some s }
     else do {
       let s = snd (ask E (K_send reply_cap 0) s);
       Some (snd (ask E (K_free_slot reply_cap) s)) } }"

definition fault_error :: "sos_env \<Rightarrow> u32 \<Rightarrow> int \<Rightarrow> sos \<Rightarrow> sos option" where
  "fault_error E reply_cap p s = do {
     s \<leftarrow> unblock_proc p s;
     let s = snd (ask E (K_free_slot reply_cap) s);
     (_, s) \<leftarrow> proc_delete E p s;
     Some s }"

definition vm_fault :: "sos_env \<Rightarrow> u32 \<Rightarrow> sos \<Rightarrow> sos option" where
  "vm_fault E caller s = do {
     curproc \<leftarrow> get_proc (sint caller) s;
     c_assert (curproc \<noteq> None);
     let p = sint caller;
     s \<leftarrow> block_proc p s;
     let (fault_pc, s) = get_mr E 0 s;
     let (fault_addr, s) = get_mr E 1 s;
     let (fault_type, s) = get_mr E 2 s;
     let (fault_cause, s) = get_mr E 3 s;
     let (reply_cap, s) = ask E K_save_reply s;
     c_assert (reply_cap \<noteq> 0);
     let access_type = ACCESS_TYPE fault_cause;
     if get_fault_status fault_cause = PERMISSION_FAULT_PAGE then fault_error E reply_cap p s
     else do {
       ev \<leftarrow> page_table_is_evicted p fault_addr s;
       if ev then do {
         (r, s) \<leftarrow> page_in E p fault_addr access_type s;
         if r \<noteq> 0 then fault_error E reply_cap p s else thread_restart E reply_cap p s }
       else do {
         (r, kvaddr, s) \<leftarrow> vm_map E p (PAGE_ALIGN_4K fault_addr) access_type s;
         if r \<noteq> 0 then fault_error E reply_cap p s else thread_restart E reply_cap p s } } }"

subsection \<open>The event loop\<close>

text \<open>The loop of \<^verbatim>\<open>reap_dead_orphans\<close> over the children of the init process: at most one is destroyed.\<close>

fun reap_loop :: "int list \<Rightarrow> sos \<Rightarrow> sos option" where
  "reap_loop [] s = Some s"
| "reap_loop (c # cs) s = do {
     child \<leftarrow> get_proc c s;
     child \<leftarrow> child;
     if p_state child = ZOMBIE then proc_destroy c s else reap_loop cs s }"

definition reap_dead_orphans :: "int \<Rightarrow> sos \<Rightarrow> sos option" where
  "reap_dead_orphans init s = do {
     pr \<leftarrow> proc_at init s;
     reap_loop (children pr) s }"

definition start_first_proc :: "sos_env \<Rightarrow> u32 \<Rightarrow> string \<Rightarrow> sos \<Rightarrow> sos option" where
  "start_first_proc E hdr startup_app s = do {
     (p, s) \<leftarrow> proc_start E hdr startup_app (sos_ipc_ep_cap s) 0 s;
     c_assert (p \<noteq> - 1);
     Some s }"

text \<open>The network stack calls back into the server and may resume coroutines; so may timer callbacks.\<close>

definition network_irq :: "sos_env \<Rightarrow> sos \<Rightarrow> sos" where
  "network_irq E s = coro_yield E (snd (ask E K_network_irq s))"

definition sos_timer_interrupt :: "sos_env \<Rightarrow> sos \<Rightarrow> sos option" where
  "sos_timer_interrupt E s = do {
     (_, clk) \<leftarrow> timer_interrupt (clk_env E) (clock s);
     Some (coro_yield E (s\<lparr>clock := clk\<rparr>)) }"

definition handle_irq :: "sos_env \<Rightarrow> u32 \<Rightarrow> sos \<Rightarrow> sos option" where
  "handle_irq E badge s =
     (let s = (if badge AND IRQ_BADGE_NETWORK \<noteq> 0 then network_irq E s else s) in
      if badge AND IRQ_BADGE_TIMER \<noteq> 0 then sos_timer_interrupt E s else Some s)"

text \<open>One round of the loop.\<close>

definition event_step :: "sos_env \<Rightarrow> u32 \<Rightarrow> sos \<Rightarrow> sos option" where
  "event_step E hdr s = do {
     s \<leftarrow> reap_dead_orphans 0 s;
     let (badge, s) = ask E K_wait s;
     let (label, s) = ask E K_label s;
     if badge AND IRQ_EP_BADGE \<noteq> 0 then handle_irq E badge s
     else if label = seL4_VMFault then vm_fault E (GET_PROCID_BADGE badge) s
     else if label = seL4_NoFault then handle_syscall E hdr (GET_PROCID_BADGE badge) s
     else Some s }"

text \<open>The loop never returns: its states after any number of rounds.\<close>

inductive event_loop :: "sos_env \<Rightarrow> u32 \<Rightarrow> string \<Rightarrow> sos \<Rightarrow> sos \<Rightarrow> bool" for E hdr startup_app s where
  event_loop_start: "start_first_proc E hdr startup_app s = Some s' \<Longrightarrow> get_proc 0 s' = Some (Some init) \<Longrightarrow>
    event_loop E hdr startup_app s s'"
| event_loop_round: "event_loop E hdr startup_app s t \<Longrightarrow> event_step E hdr t = Some t' \<Longrightarrow>
    event_loop E hdr startup_app s t'"

subsection \<open>Initialisation\<close>

definition pagefile_create_callback :: "sos_env \<Rightarrow> sos \<Rightarrow> sos option" where
  "pagefile_create_callback E s = do {
     let (status, s) = ask E K_nfs_status s;
     c_assert (status = NFS_OK);
     let (fh, s) = ask E K_nfs_handle s;
     Some (s\<lparr>pagefile_handle := fh, pager_initialised := True\<rparr>) }"

text \<open>Waiting for network interrupts until the callback has run, which \<^verbatim>\<open>network_irq\<close> may cause.\<close>

partial_function (option) pager_spin :: "sos_env \<Rightarrow> sos \<Rightarrow> sos option" where
  [code]: "pager_spin E s =
     (if \<not> pager_initialised s then
        let (badge, s) = ask E K_wait s in
        pager_spin E (if badge AND IRQ_EP_BADGE \<noteq> 0 \<and> badge AND IRQ_BADGE_NETWORK \<noteq> 0 then network_irq E s else s)
      else Some s)"

fun map_metatable_loop :: "sos_env \<Rightarrow> nat \<Rightarrow> u32 \<Rightarrow> u32 \<Rightarrow> sos \<Rightarrow> (int \<times> sos) option" where
  "map_metatable_loop E 0 paddr vaddr s = Some (0, s)"
| "map_metatable_loop E (Suc n) paddr vaddr s = do {
     (r, cap, s) \<leftarrow> retype_and_map E paddr vaddr s;
     if r \<noteq> 0 then Some (1, s)
     else map_metatable_loop E n (paddr + PAGE_SIZE_4K) (vaddr + PAGE_SIZE_4K) s }"

text \<open>The table of the page file takes all of the memory mapped for it; a fresh frame is zero.\<close>

definition init_pager :: "sos_env \<Rightarrow> u32 \<Rightarrow> nat \<Rightarrow> sos \<Rightarrow> (int \<times> sos) option" where
  "init_pager E paddr size_in_bits s =
     (let (rpc, s) = ask E (K_nfs_create ''pagefile'') s in
      if rpc \<noteq> RPC_OK then Some (1, s)
      else do {
        s \<leftarrow> pager_spin E s;
        let (ok, s) = do_malloc E s;
        if \<not> ok then Some (1, s)
        else do {
          let s = s\<lparr>pagefile_operations := [], pagefile_metatable := replicate (2 ^ size_in_bits div 4) 0\<rparr>;
          map_metatable_loop E (unat (BYTES_TO_4K_PAGES (BIT size_in_bits))) paddr (PHYSICAL_VSTART + paddr) s } })"

definition badge_irq_ep :: "sos_env \<Rightarrow> u32 \<Rightarrow> u32 \<Rightarrow> sos \<Rightarrow> (u32 \<times> sos) option" where
  "badge_irq_ep E ep badge s = do {
     let (badged_cap, s) = ask E (K_mint_cap ep (badge OR IRQ_EP_BADGE)) s;
     c_assert (badged_cap \<noteq> 0);
     Some (badged_cap, s) }"

text \<open>The endpoint for processes and the one for interrupts.\<close>

definition sos_ipc_init :: "sos_env \<Rightarrow> sos \<Rightarrow> sos option" where
  "sos_ipc_init E s = do {
     (aep_addr, s) \<leftarrow> sos_ut_alloc E seL4_EndpointBits s;
     c_assert (aep_addr \<noteq> 0);
     let (err, async_ep, s) = cspace_ut_retype_addr E aep_addr seL4_EndpointBits s;
     c_assert (err = 0);
     let s = s\<lparr>sos_interrupt_ep_cap := async_ep\<rparr>;
     let (err, s) = ask E (K_bind_aep async_ep) s;
     c_assert (err = 0);
     (ep_addr, s) \<leftarrow> sos_ut_alloc E seL4_EndpointBits s;
     c_assert (ep_addr \<noteq> 0);
     let (err, ipc_ep, s) = cspace_ut_retype_addr E ep_addr seL4_EndpointBits s;
     c_assert (err = 0);
     Some (s\<lparr>sos_ipc_ep_cap := ipc_ep\<rparr>) }"

section \<open>Badges\<close>

text \<open>
  C36: the badge a process gets on its endpoint tells the event loop which process sends: for every
  process id of the table the id read back is the one put in, the badge is never taken for an
  interrupt, and a badged interrupt always is.
\<close>

theorem badge_roundtrip:
  assumes "0 \<le> p" "p < int MAX_PROCS"
  shows "GET_PROCID_BADGE (SET_PROCID_BADGE NEW_EP_BADGE p) = word_of_int p \<and>
    SET_PROCID_BADGE NEW_EP_BADGE p AND IRQ_EP_BADGE = 0 \<and>
    (\<forall>badge. (badge OR IRQ_EP_BADGE) AND IRQ_EP_BADGE \<noteq> 0)"
proof -
  have "p \<in> {0..15}" using assms by (simp add: MAX_PROCS_def)
  also have "{0..15} = set [0..15 :: int]" by simp
  finally have "p \<in> set [0..15 :: int]" .
  moreover have "\<forall>q\<in>set [0..15 :: int]. GET_PROCID_BADGE (SET_PROCID_BADGE NEW_EP_BADGE q) = word_of_int q \<and>
      SET_PROCID_BADGE NEW_EP_BADGE q AND IRQ_EP_BADGE = 0" by code_simp
  moreover have "(badge OR IRQ_EP_BADGE) AND IRQ_EP_BADGE \<noteq> 0" for badge
  proof -
    have "bit ((badge OR IRQ_EP_BADGE) AND IRQ_EP_BADGE) 27"
      by (simp add: bit_simps IRQ_EP_BADGE_def BIT_def)
    then show ?thesis by auto
  qed
  ultimately show ?thesis by blast
qed

theorem badge_roundtrip_witness: "GET_PROCID_BADGE (SET_PROCID_BADGE NEW_EP_BADGE 15) = 15"
  using badge_roundtrip [of 15] by (simp add: MAX_PROCS_def)

end
