(* ===== verification/ProcTree.thy ===== *)
theory ProcTree
  imports Proc PageMap
begin

text \<open>
  The tree of processes: the children a process lists are processes whose parent it is. Deleting a
  process hands its children to the init process and releases everything it holds; destroying it
  takes it out of its parent's list and frees the slot. Both keep the tree.
\<close>

section \<open>Reading and writing slots\<close>

lemma proc_at_range: "proc_at p s = Some pr \<Longrightarrow> 0 \<le> p \<and> nat p < length (sos_procs s)"
  by (auto simp: proc_at_def arr_get_def bind_eq_Some_conv split: if_splits)

lemma set_proc_Some:
  "proc_at p s = Some pr \<Longrightarrow> \<exists>s'. set_proc p q s = Some s' \<and> sos_procs s' = (sos_procs s)[nat p := Some q]"
  using proc_at_range by (fastforce simp: set_proc_def arr_set_def)

lemma proc_at_set_proc:
  assumes "set_proc p q s = Some s'"
  shows "proc_at i s' = (if i = p then Some q else proc_at i s)" "length (sos_procs s') = length (sos_procs s)"
    "klog s' = klog s"
  using assms by (auto simp: set_proc_def proc_at_def arr_get_def arr_set_def nth_list_update bind_eq_Some_conv split: if_splits)

lemma set_proc_ex: "proc_at p s = Some pr \<Longrightarrow> \<exists>s'. set_proc p q s = Some s'"
  using set_proc_Some by blast

lemma upd_proc_ex: "proc_at p s = Some pr \<Longrightarrow> \<exists>s'. upd_proc p f s = Some s'"
  by (auto simp: upd_proc_def intro: set_proc_ex)

lemma proc_at_upd_proc:
  assumes "upd_proc p f s = Some s'"
  shows "proc_at i s' = (if i = p then map_option f (proc_at p s) else proc_at i s)" "length (sos_procs s') = length (sos_procs s)"
  using assms proc_at_set_proc by (auto simp: upd_proc_def bind_eq_Some_conv)

lemma proc_at_cong: "sos_procs s' = sos_procs s \<Longrightarrow> proc_at i s' = proc_at i s"
  by (simp add: proc_at_def)

lemma do_malloc_procs [simp]: "sos_procs (snd (do_malloc E s)) = sos_procs s"
  by (simp add: do_malloc_def ask_def)

lemma ask_procs [simp]: "sos_procs (snd (ask E c s)) = sos_procs s"
  by (simp add: ask_def)

lemma get_proc_at: "length (sos_procs s) = MAX_PROCS \<Longrightarrow> proc_at p s = Some pr \<Longrightarrow> get_proc p s = Some (Some pr)"
proof -
  assume "length (sos_procs s) = MAX_PROCS" and at: "proc_at p s = Some pr"
  with proc_at_range [OF at] have "0 \<le> p" "p \<le> int MAX_PROCS" by auto
  moreover have "arr_get (sos_procs s) p = Some (Some pr)"
    using at by (cases "arr_get (sos_procs s) p") (simp_all add: proc_at_def)
  ultimately show ?thesis by (simp add: get_proc_def ISINRANGE_iff)
qed

section \<open>The tree\<close>

definition family :: "sos \<Rightarrow> bool" where
  "family s \<longleftrightarrow> length (sos_procs s) = MAX_PROCS \<and> (\<forall>init. proc_at 0 s = Some init \<longrightarrow> ppid init = - 1) \<and>
     (\<forall>p pr. proc_at p s = Some pr \<longrightarrow> pid pr = p \<and> distinct (children pr) \<and>
        (\<forall>c\<in>set (children pr). \<exists>ch. proc_at c s = Some ch \<and> ppid ch = p))"

lemma familyD:
  assumes "family s" "proc_at p s = Some pr"
  shows "length (sos_procs s) = MAX_PROCS" "pid pr = p" "distinct (children pr)" "0 \<le> p"
    and "c \<in> set (children pr) \<Longrightarrow> \<exists>ch. proc_at c s = Some ch \<and> ppid ch = p" and "0 \<notin> set (children pr)"
proof -
  show "length (sos_procs s) = MAX_PROCS" "pid pr = p" "distinct (children pr)"
    and kids: "\<And>c. c \<in> set (children pr) \<Longrightarrow> \<exists>ch. proc_at c s = Some ch \<and> ppid ch = p"
    using assms unfolding family_def by blast+
  show "0 \<le> p" using proc_at_range [OF assms(2)] by simp
  then show "0 \<notin> set (children pr)" using kids [of 0] assms(1) unfolding family_def by fastforce
qed

text \<open>An allocator that never fails.\<close>

definition mallocs_succeed :: "sos_env \<Rightarrow> bool" where
  "mallocs_succeed E \<longleftrightarrow> (\<forall>log. answer E log K_malloc \<noteq> 0)"

lemma mallocs_succeed_ask: "mallocs_succeed E \<Longrightarrow> do_malloc E s = (True, s\<lparr>klog := K_malloc # klog s\<rparr>)"
  by (simp add: mallocs_succeed_def do_malloc_def ask_def)

text \<open>The loop over the children moves each to the front of the new parent's list.\<close>

lemma reparent_loop_spec:
  assumes E: "mallocs_succeed E" and len: "length (sos_procs s) = MAX_PROCS" and np: "proc_at 0 s = Some init" "pid init = 0"
    and cs: "\<forall>c\<in>set cs. c \<noteq> 0 \<and> proc_at c s \<noteq> None" "distinct cs"
  shows "\<exists>s'. reparent_loop E 0 cs s = Some (0, s') \<and> length (sos_procs s') = MAX_PROCS \<and>
    proc_at 0 s' = Some (init\<lparr>children := rev cs @ children init\<rparr>) \<and>
    (\<forall>i. i \<noteq> 0 \<longrightarrow> proc_at i s' = map_option (\<lambda>pr. if i \<in> set cs then pr\<lparr>ppid := 0\<rparr> else pr) (proc_at i s))"
  using len np cs
proof (induction cs arbitrary: s init)
  case Nil
  then show ?case by (auto simp: option.map_ident)
next
  case (Cons c cs)
  from Cons.prems obtain child where c: "proc_at c s = Some child" "c \<noteq> 0" by auto
  obtain s1 where s1: "set_proc c (child\<lparr>ppid := pid init\<rparr>) s = Some s1" using set_proc_ex [OF c(1)] by blast
  define s2 where "s2 = s1\<lparr>klog := K_malloc # klog s1\<rparr>"
  note s1' = proc_at_set_proc [OF s1]
  have s2': "proc_at i s2 = proc_at i s1" "length (sos_procs s2) = length (sos_procs s1)" for i
    by (simp_all add: s2_def proc_at_def)
  have "proc_at 0 s2 = Some init" using s2' s1' c Cons.prems(2) by simp
  then obtain s3 where s3: "upd_proc 0 (\<lambda>pr. pr\<lparr>children := c # children pr\<rparr>) s2 = Some s3" using upd_proc_ex by blast
  note s3' = proc_at_upd_proc [OF s3]
  have init3: "proc_at 0 s3 = Some (init\<lparr>children := c # children init\<rparr>)" using s3' \<open>proc_at 0 s2 = Some init\<close> by simp
  have len3: "length (sos_procs s3) = MAX_PROCS" using s3' s2' s1' Cons.prems(1) by simp
  have pres: "\<forall>c\<in>set cs. c \<noteq> 0 \<and> proc_at c s3 \<noteq> None" "distinct cs"
    using Cons.prems c s3' s2' s1' by auto
  from Cons.IH [OF len3 init3 _ pres] Cons.prems(3) obtain s' where s': "reparent_loop E 0 cs s3 = Some (0, s')"
    "length (sos_procs s') = MAX_PROCS" "proc_at 0 s' = Some (init\<lparr>children := rev cs @ c # children init\<rparr>)"
    "\<forall>i. i \<noteq> 0 \<longrightarrow> proc_at i s' = map_option (\<lambda>pr. if i \<in> set cs then pr\<lparr>ppid := 0\<rparr> else pr) (proc_at i s3)" by auto
  have "reparent_loop E 0 (c # cs) s = Some (0, s')"
    using c Cons.prems s1 s3 s'(1) mallocs_succeed_ask [OF E] get_proc_at [OF Cons.prems(1) c(1)] by (simp add: s2_def)
  moreover have "proc_at i s' = map_option (\<lambda>pr. if i \<in> set (c # cs) then pr\<lparr>ppid := 0\<rparr> else pr) (proc_at i s)" if "i \<noteq> 0" for i
    using s'(4) that s3' s2' s1' c Cons.prems by (cases "i = c") auto
  ultimately show ?case using s' by auto
qed

text \<open>Handing over the children of a process.\<close>

lemma reparent_children_spec:
  assumes E: "mallocs_succeed E" and fam: "family s" and p: "proc_at p s = Some pr" "p \<noteq> 0"
    and init: "proc_at 0 s = Some init"
  shows "\<exists>s'. proc_reparent_children E p 0 s = Some (0, s') \<and> length (sos_procs s') = MAX_PROCS \<and>
    proc_at 0 s' = Some (init\<lparr>children := rev (children pr) @ children init\<rparr>) \<and>
    (\<forall>i. i \<noteq> 0 \<longrightarrow> proc_at i s' = map_option (\<lambda>q. (if i \<in> set (children pr) then q\<lparr>ppid := 0\<rparr> else q)
        \<lparr>children := if i = p then [] else children q\<rparr>) (proc_at i s))"
proof -
  note len = familyD(1) [OF fam p(1)]
  have cs: "\<forall>c\<in>set (children pr). c \<noteq> 0 \<and> proc_at c s \<noteq> None" "distinct (children pr)" "pid init = 0"
    using familyD [OF fam p(1)] familyD(2) [OF fam init] by fastforce+
  from reparent_loop_spec [OF E len init cs(3,1,2)] obtain s1 where s1:
    "reparent_loop E 0 (children pr) s = Some (0, s1)" "length (sos_procs s1) = MAX_PROCS"
    "proc_at 0 s1 = Some (init\<lparr>children := rev (children pr) @ children init\<rparr>)"
    "\<forall>i. i \<noteq> 0 \<longrightarrow> proc_at i s1 = map_option (\<lambda>q. if i \<in> set (children pr) then q\<lparr>ppid := 0\<rparr> else q) (proc_at i s)" by blast
  then have "proc_at p s1 \<noteq> None" using p by auto
  then obtain s' where s': "upd_proc p (\<lambda>q. q\<lparr>children := []\<rparr>) s1 = Some s'" using upd_proc_ex by blast
  note u = proc_at_upd_proc [OF s']
  have "proc_reparent_children E p 0 s = Some (0, s')"
    using get_proc_at [OF len init] p s1(1) s' by (simp add: proc_reparent_children_def)
  moreover have "proc_at i s' = map_option (\<lambda>q. (if i \<in> set (children pr) then q\<lparr>ppid := 0\<rparr> else q)
        \<lparr>children := if i = p then [] else children q\<rparr>) (proc_at i s)" if "i \<noteq> 0" for i
    using u(1) [of i] s1(4) that p by (cases "proc_at i s") auto
  ultimately show ?thesis using u s1(2,3) p by auto
qed
lemma reparent_children_family:
  assumes E: "mallocs_succeed E" and fam: "family s" and p: "proc_at p s = Some pr" "p \<noteq> 0" and init: "proc_at 0 s = Some init"
    and r: "proc_reparent_children E p 0 s = Some (0, s')"
  shows "family s'"
proof -
  from reparent_children_spec [OF E fam p init] r have len: "length (sos_procs s') = MAX_PROCS"
    and at0: "proc_at 0 s' = Some (init\<lparr>children := rev (children pr) @ children init\<rparr>)"
    and at: "\<And>i. i \<noteq> 0 \<Longrightarrow> proc_at i s' = map_option (\<lambda>q. (if i \<in> set (children pr) then q\<lparr>ppid := 0\<rparr> else q)
        \<lparr>children := if i = p then [] else children q\<rparr>) (proc_at i s)" by auto
  note kids = familyD(5) [OF fam p(1)] and kids0 = familyD(5) [OF fam init]
  have disj: "set (children pr) \<inter> set (children init) = {}" using kids kids0 p(2) by fastforce
  have "pid q = i \<and> distinct (children q) \<and> (\<forall>c\<in>set (children q). \<exists>ch. proc_at c s' = Some ch \<and> ppid ch = i)"
    if q: "proc_at i s' = Some q" for i q
  proof (cases "i = 0")
    case True
    have "\<exists>ch. proc_at c s' = Some ch \<and> ppid ch = 0" if c: "c \<in> set (children pr) \<union> set (children init)" for c
    proof -
      have "c \<noteq> 0" using c familyD(6) [OF fam p(1)] familyD(6) [OF fam init] by auto
      moreover obtain ch where ch: "proc_at c s = Some ch" "c \<in> set (children pr) \<or> ppid ch = 0"
        using c kids [of c] kids0 [of c] by blast
      ultimately have "proc_at c s' = Some ((if c \<in> set (children pr) then ch\<lparr>ppid := 0\<rparr> else ch)
          \<lparr>children := if c = p then [] else children ch\<rparr>)" using at by simp
      with ch(2) show ?thesis by auto
    qed
    moreover have "distinct (rev (children pr) @ children init)"
      using disj familyD(3) [OF fam p(1)] familyD(3) [OF fam init] by auto
    ultimately show ?thesis using q True at0 familyD(2) [OF fam init] by auto
  next
    case False
    with q at obtain q0 where q0: "proc_at i s = Some q0" "pid q = pid q0"
      "children q = (if i = p then [] else children q0)" by (auto split: if_splits)
    have "\<exists>ch. proc_at c s' = Some ch \<and> ppid ch = i" if c: "c \<in> set (children q0)" "i \<noteq> p" for c
    proof -
      obtain ch where ch: "proc_at c s = Some ch" "ppid ch = i" using familyD(5) [OF fam q0(1) c(1)] by blast
      moreover have "c \<noteq> 0" using familyD(6) [OF fam q0(1)] c by auto
      moreover have "c \<notin> set (children pr)" using kids [of c] ch c by auto
      ultimately have "proc_at c s' = Some (ch\<lparr>children := if c = p then [] else children ch\<rparr>)" using at by simp
      with ch(2) show ?thesis by simp
    qed
    then show ?thesis using q0 familyD(2,3) [OF fam q0(1)] by auto
  qed
  moreover have "ppid init = - 1" using fam init by (simp add: family_def)
  ultimately show ?thesis unfolding family_def using len at0 by auto
qed

lemma proc_destroy_spec:
  assumes fam: "family s" and p: "proc_at p s = Some pr" "children pr = []" "ppid pr \<noteq> p"
    and parent: "proc_at (ppid pr) s = Some par"
  shows "\<exists>s'. proc_destroy p s = Some s' \<and> length (sos_procs s') = MAX_PROCS \<and>
    (\<forall>i. proc_at i s' = (if i = p then None
       else if i = ppid pr then Some (par\<lparr>children := remove1 p (children par)\<rparr>) else proc_at i s))"
proof -
  note len = familyD(1) [OF fam p(1)] and pid = familyD(2) [OF fam p(1)]
  obtain s1 where s1: "upd_proc (ppid pr) (\<lambda>q. q\<lparr>children := remove1 (pid pr) (children q)\<rparr>) s = Some s1"
    using upd_proc_ex [OF parent] by blast
  note u = proc_at_upd_proc [OF s1]
  have p1: "proc_at p s1 = Some pr" using u(1) [of p] p by simp
  define s' where "s' = s1\<lparr>sos_procs := (sos_procs s1)[nat p := None]\<rparr>"
  have range: "0 \<le> p" "nat p < length (sos_procs s1)" using proc_at_range [OF p1] by auto
  have "proc_destroy p s = Some s'"
    using p pid s1 p1 range get_proc_at [OF len parent] by (simp add: proc_destroy_def arr_set_def s'_def)
  moreover have "proc_at i s' = (if i = p then None else proc_at i s1)" for i
    using range by (auto simp: s'_def proc_at_def arr_get_def nth_list_update)
  ultimately show ?thesis using u len parent pid by (auto simp: s'_def)
qed

lemma proc_destroy_family:
  assumes fam: "family s" and p: "proc_at p s = Some pr" "children pr = []" "ppid pr \<noteq> p"
    and parent: "proc_at (ppid pr) s = Some par" and r: "proc_destroy p s = Some s'"
  shows "family s'" and "\<forall>i q. proc_at i s' = Some q \<longrightarrow> p \<notin> set (children q)"
proof -
  from proc_destroy_spec [OF fam p parent] r have len: "length (sos_procs s') = MAX_PROCS"
    and at: "\<And>i. proc_at i s' = (if i = p then None
       else if i = ppid pr then Some (par\<lparr>children := remove1 p (children par)\<rparr>) else proc_at i s)" by auto
  have old: "\<exists>q0. proc_at i s = Some q0 \<and> pid q = pid q0 \<and> ppid q = ppid q0 \<and> children q = remove1 p (children q0)"
    if q: "proc_at i s' = Some q" for i q
  proof (cases "i = ppid pr")
    case True
    with q at parent show ?thesis by (auto split: if_splits)
  next
    case False
    with q at have q': "i \<noteq> p" "proc_at i s = Some q" by (auto split: if_splits)
    have "p \<notin> set (children q)" using familyD(5) [OF fam q'(2), of p] p False by auto
    with q' show ?thesis by (auto simp: remove1_idem)
  qed
  show "\<forall>i q. proc_at i s' = Some q \<longrightarrow> p \<notin> set (children q)"
    using old familyD(3) [OF fam] by fastforce
  have "pid q = i \<and> distinct (children q) \<and> (\<forall>c\<in>set (children q). \<exists>ch. proc_at c s' = Some ch \<and> ppid ch = i)"
    if q: "proc_at i s' = Some q" for i q
  proof -
    obtain q0 where q0: "proc_at i s = Some q0" "pid q = pid q0" "children q = remove1 p (children q0)" using old [OF q] by blast
    note d = familyD(2,3) [OF fam q0(1)]
    have "\<exists>ch. proc_at c s' = Some ch \<and> ppid ch = i" if "c \<in> set (children q0)" "c \<noteq> p" for c
      using familyD(5) [OF fam q0(1) that(1)] at [of c] that parent by auto
    then show ?thesis using q0 d by auto
  qed
  moreover have "ppid init = - 1" if "proc_at 0 s' = Some init" for init
    using old [OF that] fam by (auto simp: family_def)
  ultimately show "family s'" unfolding family_def using len by blast
qed

section \<open>What deleting leaves of the process table\<close>

text \<open>The operations a deletion uses do not write the process table.\<close>

lemma for_loop_procs:
  assumes "for_loop body n i s = Some s'" "\<And>k t t'. body k t = Some t' \<Longrightarrow> g t' = g t"
  shows "g s' = g s"
  using assms(1) by (induction n arbitrary: i s) (auto simp: bind_eq_Some_conv dest: assms(2))

lemma sos_ut_free_procs: "sos_ut_free a n s = Some s' \<Longrightarrow> sos_procs s' = sos_procs s"
  by (auto simp: sos_ut_free_def bind_eq_Some_conv)

lemma frame_free_ut_procs: "frame_free_ut E f s = Some s' \<Longrightarrow> sos_procs s' = sos_procs s"
  by (auto simp: frame_free_ut_def bind_eq_Some_conv ask_def Let_def split: if_splits dest!: sos_ut_free_procs)

lemma frame_free_procs:
  assumes "frame_free E f s = Some s'"
  shows "sos_procs s' = sos_procs s"
proof -
  have loop: "sos_procs t' = sos_procs t"
    if "for_loop (\<lambda>i s. do { f \<leftarrow> arr_get (free_frames s) (int i); frame_free_ut E f s }) n k t = Some t'" for n k t t'
    by (rule for_loop_procs [OF that]) (auto simp: bind_eq_Some_conv dest: frame_free_ut_procs)
  show ?thesis using assms
    by (auto simp: frame_free_def bind_eq_Some_conv split: option.splits if_splits dest!: frame_free_ut_procs loop [simplified])
qed

lemma pagefile_free_add_procs: "pagefile_free_add k s = Some s' \<Longrightarrow> sos_procs s' = sos_procs s"
  by (auto simp: pagefile_free_add_def bind_eq_Some_conv)

lemma page_destroy_procs: "page_destroy E cap s = Some (r, s') \<Longrightarrow> sos_procs s' = sos_procs s"
  by (auto simp: page_destroy_def bind_eq_Some_conv ask_def Let_def split: if_splits
      dest!: pagefile_free_add_procs frame_free_procs)

lemma page_table_loop_procs: "page_table_loop E t n i s = Some (r, s') \<Longrightarrow> sos_procs s' = sos_procs s"
  by (induction n arbitrary: i s) (auto simp: bind_eq_Some_conv Let_def split: if_splits dest!: page_destroy_procs)

lemma page_table_destroy_procs: "page_table_destroy E t s = Some (r, s') \<Longrightarrow> sos_procs s' = sos_procs s"
  by (auto simp: page_table_destroy_def bind_eq_Some_conv split: if_splits dest!: page_table_loop_procs frame_free_procs)

lemma directory_loop_procs: "directory_loop E t n i s = Some (r, s') \<Longrightarrow> sos_procs s' = sos_procs s"
  by (induction n arbitrary: i s) (auto simp: bind_eq_Some_conv Let_def split: if_splits dest!: page_table_destroy_procs)

lemma cap_table_loop_procs: "sos_procs (snd (cap_table_loop E t n i s)) = sos_procs s"
  by (induction n arbitrary: i s) (simp_all add: ask_def Let_def)

lemma page_directory_destroy_procs:
  assumes "page_directory_destroy E d s = Some (r, s')"
  shows "sos_procs s' = sos_procs s"
proof -
  have loop: "sos_procs t' = sos_procs t" if "for_loop (\<lambda>i s. frame_free E (of_nat i) s) n k t = Some t'" for n k t t'
    by (rule for_loop_procs [OF that]) (rule frame_free_procs)
  show ?thesis using assms
    by (auto simp: page_directory_destroy_def bind_eq_Some_conv Let_def case_prod_beta cap_table_loop_procs
        split: option.splits if_splits dest!: directory_loop_procs frame_free_procs loop)
qed

lemma as_destroy_procs: "as_destroy E as s = Some (r, s') \<Longrightarrow> sos_procs s' = sos_procs s"
  by (auto simp: as_destroy_def bind_eq_Some_conv ask_def Let_def split: if_splits
      dest!: page_directory_destroy_procs sos_ut_free_procs)

lemma sos_serial_close_procs: "sos_serial_close v m s = Some (r, s') \<Longrightarrow> sos_procs s' = sos_procs s"
  by (cases "vnodes s v") (auto simp: sos_serial_close_def split: if_split_asm)

lemma sos_nfs_close_procs:
  assumes "sos_nfs_close v m s = Some (r, s')"
  shows "sos_procs s' = sos_procs s"
proof -
  from assms have "\<exists>x. s' = s\<lparr>vnodes := x\<rparr>"
    unfolding sos_nfs_close_def by (cases "vnodes s v") (simp_all only: bind.simps Let_def option.simps prod.simps split: if_split_asm, blast+)
  then show ?thesis by auto
qed

lemma vfs_close_procs:
  assumes "vfs_close v m s = Some s'"
  shows "sos_procs s' = sos_procs s"
proof -
  from assms obtain node r where "vnodes s v = Some node" "vop_close v m s = Some (r, s')"
    by (auto simp: vfs_close_def vop_close_def bind_eq_Some_conv)
  then show ?thesis
    by (cases "vn_ops node") (auto simp: vop_close_def dest: sos_serial_close_procs sos_nfs_close_procs)
qed

lemma fdtable_destroy_procs:
  assumes "fdtable_destroy t s = Some (r, s')"
  shows "sos_procs s' = sos_procs s"
proof -
  define body where "body = (\<lambda>fd (table, s). do {
       (f, table) \<leftarrow> fdtable_close_fd table (int fd);
       case f of None \<Rightarrow> Some (table, s) | Some f \<Rightarrow> do { s \<leftarrow> file_close f s; Some (table, s) } })"
  have "fdtable_destroy t s = for_loop body PROCESS_MAX_FILES 0 (t, s) \<bind> (\<lambda>(_, s). Some (0, s))"
    by (simp add: fdtable_destroy_def body_def)
  with assms obtain x where x: "for_loop body PROCESS_MAX_FILES 0 (t, s) = Some x" "s' = snd x"
    by (cases "for_loop body PROCESS_MAX_FILES 0 (t, s)") (auto simp: case_prod_beta)
  have "sos_procs (snd y') = sos_procs (snd y)" if y: "body k y = Some y'" for k y y'
  proof (cases "fdtable_close_fd (fst y) (int k)")
    case None
    with y show ?thesis by (simp add: body_def case_prod_beta)
  next
    case (Some z)
    then show ?thesis
    proof (cases "fst z")
      case None
      with Some y show ?thesis by (auto simp: body_def case_prod_beta)
    next
      case (Some f)
      with \<open>fdtable_close_fd (fst y) (int k) = Some z\<close> y show ?thesis
        by (auto simp: body_def case_prod_beta file_close_def bind_eq_Some_conv dest: vfs_close_procs)
    qed
  qed
  from for_loop_procs [OF x(1), of "\<lambda>x. sos_procs (snd x)"] this x(2) show ?thesis by simp
qed

text \<open>Only the process in slot \<open>p\<close> changes, by \<open>f\<close>.\<close>

definition changes :: "int \<Rightarrow> (proc \<Rightarrow> proc) \<Rightarrow> sos \<Rightarrow> sos \<Rightarrow> bool" where
  "changes p f s s' \<longleftrightarrow> length (sos_procs s') = length (sos_procs s) \<and>
     (\<forall>i. proc_at i s' = (if i = p then map_option f (proc_at p s) else proc_at i s))"

lemma changes_upd: "upd_proc p f s = Some s' \<Longrightarrow> changes p f s s'"
  using proc_at_upd_proc [of p f s s'] by (simp add: changes_def)

lemma changes_same: "sos_procs s' = sos_procs s \<Longrightarrow> changes p (\<lambda>q. q) s s'"
  unfolding changes_def using proc_at_cong [of s' s] by (simp add: option.map_ident)

lemma changes_trans: "changes p f s t \<Longrightarrow> changes p g t u \<Longrightarrow> changes p (\<lambda>q. g (f q)) s u"
  by (auto simp: changes_def option.map_comp o_def)

lemma changes_ask: "changes p (\<lambda>q. q) s (snd (ask E c s))"
  by (rule changes_same) simp

lemma changes_cond_ask: "changes p (\<lambda>q. q) s (snd (if b then ask E c s else (r, s)))"
  by (rule changes_same) simp

lemma delete_tcb_changes:
  assumes "delete_tcb E p s = Some (True, s')"
  shows "changes p (\<lambda>q. q\<lparr>tcb_cap := 0, tcb_addr := 0\<rparr>) s s'"
proof -
  from assms obtain v where v: "proc_at p s = Some v" by (auto simp: delete_tcb_def bind_eq_Some_conv)
  define s1 where "s1 = snd (if tcb_cap v \<noteq> 0 then ask E (K_tcb_suspend (tcb_cap v)) s else (0, s))"
  define s2 where "s2 = snd (if tcb_cap v \<noteq> 0 then ask E (K_delete_cap (tcb_cap v)) s1 else (0, s1))"
  from assms v obtain s3 s4 where s3: "upd_proc p (\<lambda>q. q\<lparr>tcb_cap := 0\<rparr>) s2 = Some s3"
    and s4: "free_tcb v s3 = Some s4"
    and s': "upd_proc p (\<lambda>q. q\<lparr>tcb_addr := 0\<rparr>) s4 = Some s'"
    by (auto simp: delete_tcb_def Let_def case_prod_beta bind_eq_Some_conv s1_def s2_def split: if_split_asm)
  have "sos_procs s4 = sos_procs s3" using s4 by (auto simp: free_tcb_def split: if_split_asm dest: sos_ut_free_procs)
  then show ?thesis
    using changes_trans [OF changes_trans [OF changes_trans [OF changes_trans [OF changes_cond_ask changes_cond_ask]
          changes_upd [OF s3 [unfolded s2_def s1_def]]] changes_same] changes_upd [OF s']] by simp
qed

lemma delete_ipc_buffer_changes:
  assumes "delete_ipc_buffer E p s = Some (True, s')"
  shows "changes p (\<lambda>q. q\<lparr>ipc_buffer_cap := 0\<rparr>) s s'"
proof -
  from assms obtain v where v: "proc_at p s = Some v" by (auto simp: delete_ipc_buffer_def bind_eq_Some_conv)
  define s1 where "s1 = snd (if ipc_buffer_cap v \<noteq> 0 then ask E (K_page_unmap (ipc_buffer_cap v)) s else (0, s))"
  define s2 where "s2 = snd (if ipc_buffer_cap v \<noteq> 0 then ask E (K_delete_cap (ipc_buffer_cap v)) s1 else (0, s1))"
  from assms v have s': "upd_proc p (\<lambda>q. q\<lparr>ipc_buffer_cap := 0\<rparr>) s2 = Some s'"
    by (auto simp: delete_ipc_buffer_def Let_def case_prod_beta bind_eq_Some_conv s1_def s2_def split: if_split_asm)
  show ?thesis
    using changes_trans [OF changes_trans [OF changes_cond_ask changes_cond_ask]
          changes_upd [OF s' [unfolded s2_def s1_def]]] by simp
qed

lemma delete_spaces_changes:
  assumes "delete_spaces E p s = Some (True, s')"
  shows "changes p (\<lambda>q. q\<lparr>croot := 0, p_addrspace := None, file_table := None\<rparr>) s s'"
proof -
  from assms obtain v where v: "proc_at p s = Some v" by (auto simp: delete_spaces_def bind_eq_Some_conv)
  define s1 where "s1 = snd (if croot v \<noteq> 0 then ask E (K_cspace_destroy (croot v)) s else (0, s))"
  from assms v obtain s2 s3 s4 s5 r r' where s2: "upd_proc p (\<lambda>q. q\<lparr>croot := 0\<rparr>) s1 = Some s2"
    and s3: "(case p_addrspace v of None \<Rightarrow> Some (0, s2) | Some as \<Rightarrow> as_destroy E as s2) = Some (r, s3)"
    and s4: "upd_proc p (\<lambda>q. q\<lparr>p_addrspace := None\<rparr>) s3 = Some s4"
    and s5: "(case file_table v of None \<Rightarrow> Some (0, s4) | Some fdt \<Rightarrow> fdtable_destroy fdt s4) = Some (r', s5)"
    and s': "upd_proc p (\<lambda>q. q\<lparr>file_table := None\<rparr>) s5 = Some s'"
    by (auto simp: delete_spaces_def Let_def case_prod_beta bind_eq_Some_conv s1_def split: if_split_asm)
  have "sos_procs s3 = sos_procs s2" using s3 by (auto split: option.split_asm dest: as_destroy_procs)
  then have 1: "changes p (\<lambda>q. q\<lparr>croot := 0\<rparr>) s s3"
    using changes_trans [OF changes_trans [OF changes_cond_ask changes_upd [OF s2 [unfolded s1_def]]] changes_same] by simp
  have "sos_procs s5 = sos_procs s4" using s5 by (auto split: option.split_asm dest: fdtable_destroy_procs)
  from changes_trans [OF changes_trans [OF 1 changes_upd [OF s4]] changes_same [OF this]] changes_upd [OF s']
  show ?thesis using changes_trans by fastforce
qed

lemma family_changes:
  assumes ch: "changes p f s s'" and f: "\<And>q. pid (f q) = pid q \<and> ppid (f q) = ppid q \<and> children (f q) = children q"
    and fam: "family s"
  shows "family s'"
proof -
  have at: "proc_at i s' = map_option (if i = p then f else (\<lambda>q. q)) (proc_at i s)" for i
    using ch by (simp add: changes_def option.map_ident)
  have old: "\<exists>q0. proc_at i s = Some q0 \<and> pid q = pid q0 \<and> ppid q = ppid q0 \<and> children q = children q0"
    if "proc_at i s' = Some q" for i q
    using that f unfolding at by (auto split: if_split_asm)
  have new: "\<exists>q. proc_at i s' = Some q \<and> ppid q = ppid q0" if "proc_at i s = Some q0" for i q0
    using that f unfolding at by simp
  have "pid q = i \<and> distinct (children q) \<and> (\<forall>c\<in>set (children q). \<exists>ch. proc_at c s' = Some ch \<and> ppid ch = i)"
    if q: "proc_at i s' = Some q" for i q
  proof -
    obtain q0 where q0: "proc_at i s = Some q0" "pid q = pid q0" "children q = children q0" using old [OF q] by blast
    have "\<exists>ch. proc_at c s' = Some ch \<and> ppid ch = i" if c: "c \<in> set (children q0)" for c
      using familyD(5) [OF fam q0(1) c] new by metis
    then show ?thesis using q0 familyD(2,3) [OF fam q0(1)] by simp
  qed
  moreover have "ppid init = - 1" if "proc_at 0 s' = Some init" for init
    using old [OF that] fam by (auto simp: family_def)
  moreover have "length (sos_procs s') = MAX_PROCS" using ch fam by (simp add: changes_def family_def)
  ultimately show ?thesis unfolding family_def by blast
qed

text \<open>What a process holds after it was deleted.\<close>

definition released :: "proc \<Rightarrow> proc" where
  "released q = q\<lparr>p_state := ZOMBIE, tcb_cap := 0, tcb_addr := 0, ipc_buffer_cap := 0, croot := 0, p_addrspace := None,
     file_table := None\<rparr>"

lemma do_proc_delete_cases:
  assumes "do_proc_delete E p s = Some (0, s')"
  obtains t where "changes p released s t" "proc_reparent_children E p 0 t = Some (0, s')"
proof -
  from assms obtain s1 s2 s3 s4 r where s1: "proc_mark p ZOMBIE s = Some s1" and s2: "delete_tcb E p s1 = Some (True, s2)"
    and s3: "delete_ipc_buffer E p s2 = Some (True, s3)" and s4: "delete_spaces E p s3 = Some (True, s4)"
    and r: "proc_reparent_children E p 0 s4 = Some (r, s')" "r = 0"
    by (auto simp: do_proc_delete_def bind_eq_Some_conv split: if_split_asm)
  have "changes p (\<lambda>q. q\<lparr>p_state := ZOMBIE\<rparr>) s s1" using s1 changes_upd by (simp add: proc_mark_def)
  from changes_trans [OF changes_trans [OF changes_trans [OF this delete_tcb_changes [OF s2]] delete_ipc_buffer_changes [OF s3]]
      delete_spaces_changes [OF s4]]
  have "changes p released s s4" unfolding released_def [abs_def] .
  with r that show thesis by simp
qed


text \<open>
  C32: destroying a process without children whose parent is alive never runs into an assertion: it frees
  the slot, takes the process out of its parent's list and keeps the tree of processes well formed, so
  that no process lists it any more.
\<close>

theorem proc_destroy_frees_slot:
  assumes fam: "family s" and p: "proc_at p s = Some pr" "children pr = []" "ppid pr \<noteq> p"
    and parent: "proc_at (ppid pr) s = Some par"
  shows "\<exists>s'. proc_destroy p s = Some s' \<and> family s' \<and> get_proc p s' = Some None \<and>
    (\<forall>i q. proc_at i s' = Some q \<longrightarrow> p \<notin> set (children q)) \<and>
    proc_at (ppid pr) s' = Some (par\<lparr>children := remove1 p (children par)\<rparr>)"
proof -
  from proc_destroy_spec [OF assms] obtain s' where s': "proc_destroy p s = Some s'" "length (sos_procs s') = MAX_PROCS"
    "\<And>i. proc_at i s' = (if i = p then None
       else if i = ppid pr then Some (par\<lparr>children := remove1 p (children par)\<rparr>) else proc_at i s)" by blast
  have range: "0 \<le> p" "nat p < length (sos_procs s')" using proc_at_range [OF p(1)] familyD(1) [OF fam p(1)] s'(2) by auto
  have none: "proc_at p s' = None" using s'(3) by simp
  have "arr_get (sos_procs s') p = Some None"
    using range none by (cases "sos_procs s' ! nat p") (simp_all add: proc_at_def arr_get_def)
  then have "get_proc p s' = Some None" by (simp add: get_proc_def)
  with s' p proc_destroy_family [OF assms s'(1)] show ?thesis by auto
qed

section \<open>An example\<close>

text \<open>The init process, a process 1 with a thread, and its child 2; a kernel that grants every request.\<close>

definition example_member :: "int \<Rightarrow> int \<Rightarrow> int list \<Rightarrow> proc" where
  "example_member i parent kids = example_proc\<lparr>pid := i, ppid := parent, children := kids, p_addrspace := None, file_table := None\<rparr>"

definition example_family :: sos where
  "example_family = initial_sos\<lparr>sos_procs := [Some (example_member 0 (- 1) [1]),
     Some ((example_member 1 0 [2])\<lparr>tcb_cap := 5, ipc_buffer_cap := 6, croot := 7\<rparr>), Some (example_member 2 1 [])]
     @ replicate 13 None\<rparr>"

definition obliging :: sos_env where
  "obliging = failing_server\<lparr>answer := (\<lambda>_ c. if c = K_malloc then 1 else 0)\<rparr>"

lemma obliging_simps [simp]: "mallocs_succeed obliging" "ask obliging c s = ((if c = K_malloc then 1 else 0), s\<lparr>klog := c # klog s\<rparr>)"
  by (simp_all add: mallocs_succeed_def obliging_def ask_def)

lemma example_procs [simp]:
  "proc_at 0 example_family = Some (example_member 0 (- 1) [1])"
  "proc_at 1 example_family = Some ((example_member 1 0 [2])\<lparr>tcb_cap := 5, ipc_buffer_cap := 6, croot := 7\<rparr>)"
  "proc_at 2 example_family = Some (example_member 2 1 [])"
  by (simp_all add: example_family_def proc_at_def arr_get_def)

lemma example_others: "proc_at i example_family = Some q \<Longrightarrow> i \<in> {0, 1, 2}"
proof -
  assume q: "proc_at i example_family = Some q"
  then have i: "0 \<le> i" "nat i < 16" using proc_at_range [OF q] by (auto simp: example_family_def)
  have "nat i < 3"
  proof (rule ccontr)
    assume "\<not> nat i < 3"
    then have "sos_procs example_family ! nat i = None" using i by (simp add: example_family_def nth_append)
    with q i show False by (simp add: proc_at_def arr_get_def split: if_split_asm)
  qed
  with i show ?thesis by auto
qed

lemma family_example: "family example_family"
proof -
  have "pid q = i \<and> distinct (children q) \<and> (\<forall>c\<in>set (children q). \<exists>ch. proc_at c example_family = Some ch \<and> ppid ch = i)"
    if "proc_at i example_family = Some q" for i q
    using example_others [OF that] that by (auto simp: example_member_def)
  moreover have "length (sos_procs example_family) = MAX_PROCS" by (simp add: example_family_def MAX_PROCS_def)
  ultimately show ?thesis unfolding family_def by (auto simp: example_member_def)
qed

lemma example_delete: "\<exists>s'. do_proc_delete obliging 1 example_family = Some (0, s')"
  by (simp add: do_proc_delete_def proc_mark_def upd_proc_def set_proc_def proc_at_def arr_get_def arr_set_def
      example_family_def example_member_def example_proc_def delete_tcb_def free_tcb_def delete_ipc_buffer_def
      delete_spaces_def proc_reparent_children_def get_proc_def ISINRANGE_iff MAX_PROCS_def do_malloc_def Let_def)


theorem proc_destroy_frees_slot_witness:
  "\<exists>s'. proc_destroy 2 example_family = Some s' \<and> get_proc 2 s' = Some None \<and>
     (\<exists>q. proc_at 1 s' = Some q \<and> children q = [])"
  using proc_destroy_frees_slot [OF family_example example_procs(3)] by (auto simp: example_member_def)

end
