(* ===== verification/Dma.thy ===== *)
theory Dma
  imports FrameTable Nfs
begin

text \<open>
  The memory for device drivers (\<^verbatim>\<open>dma.c\<close>): a pool from which buffers are handed out one after the
  other and never taken back. The frames behind a buffer are mapped when it is first handed out.
\<close>

section \<open>Definitions\<close>

definition DMA_VSTART :: u32 where "DMA_VSTART = 0x10000000"
definition DMA_SIZE_BITS :: nat where "DMA_SIZE_BITS = 22"
definition DMA_VEND :: u32 where "DMA_VEND = DMA_VSTART + push_bit DMA_SIZE_BITS 1"
definition DMA_ALIGN_BITS :: u32 where "DMA_ALIGN_BITS = 7"

text \<open>The rounding is to a multiple of the number of bits.\<close>

definition DMA_ALIGN :: "u32 \<Rightarrow> u32" where "DMA_ALIGN a = ROUND_UP a DMA_ALIGN_BITS"

record dma_state =
  dma_caps :: "u32 list"
  dma_pstart :: u32
  dma_pend :: u32
  dma_pnext :: u32
  alloc_cached :: int

definition DMA_PAGES :: "dma_state \<Rightarrow> u32" where
  "DMA_PAGES d = drop_bit seL4_PageBits (dma_pend d - dma_pstart d)"

definition PHYS :: "dma_state \<Rightarrow> u32 \<Rightarrow> u32" where "PHYS d vaddr = vaddr - DMA_VSTART + dma_pstart d"
definition VIRT :: "dma_state \<Rightarrow> u32 \<Rightarrow> u32" where "VIRT d paddr = paddr + DMA_VSTART - dma_pstart d"

definition PAGE_OFFSET :: "u32 \<Rightarrow> u32" where "PAGE_OFFSET a = a AND mask seL4_PageBits"

text \<open>The body of the loop in \<^verbatim>\<open>_dma_fill\<close>, with the position of \<^verbatim>\<open>caps\<close> in the array.\<close>

definition dma_fill_page :: "sos_env \<Rightarrow> u32 \<Rightarrow> nat \<Rightarrow> dma_state \<Rightarrow> sos \<Rightarrow> (dma_state \<times> sos) option" where
  "dma_fill_page E pstart i d s = do {
     cap \<leftarrow> arr_get (dma_caps d) (int i);
     if cap = 0 then do {
       let (err, cap, s) = cspace_ut_retype_addr E pstart seL4_PageBits s;
       c_assert (err = 0);
       caps \<leftarrow> arr_set (dma_caps d) (int i) cap;
       (err, pt_cap, s) \<leftarrow> map_page E cap seL4_CapInitThreadPD (VIRT d pstart) seL4_AllRights s;
       c_assert (err = 0);
       Some (d\<lparr>dma_caps := caps\<rparr>, s) }
     else Some (d, s) }"

partial_function (option) dma_fill_loop :: "sos_env \<Rightarrow> u32 \<Rightarrow> nat \<Rightarrow> u32 \<Rightarrow> dma_state \<Rightarrow> sos \<Rightarrow> (dma_state \<times> sos) option" where
  [code]: "dma_fill_loop E pstart i pend d s =
     (if pstart < pend then do {
        (d, s) \<leftarrow> dma_fill_page E pstart i d s;
        dma_fill_loop E (pstart + BIT seL4_PageBits) (Suc i) pend d s }
      else Some (d, s))"

definition dma_fill :: "sos_env \<Rightarrow> u32 \<Rightarrow> u32 \<Rightarrow> dma_state \<Rightarrow> sos \<Rightarrow> (dma_state \<times> sos) option" where
  "dma_fill E pstart pend d s =
     dma_fill_loop E (pstart - PAGE_OFFSET pstart) (unat (drop_bit seL4_PageBits (pstart - dma_pstart d))) pend d s"

definition dma_init :: "sos_env \<Rightarrow> u32 \<Rightarrow> nat \<Rightarrow> dma_state \<Rightarrow> sos \<Rightarrow> (int \<times> dma_state \<times> sos) option" where
  "dma_init E dma_paddr_start sizebits d s = do {
     c_assert (dma_pstart d = 0);
     let d = d\<lparr>dma_pstart := dma_paddr_start, dma_pnext := dma_paddr_start, dma_pend := dma_paddr_start + BIT sizebits\<rparr>;
     let (ok, s) = do_malloc E s;
     c_assert ok;
     Some (0, d\<lparr>dma_caps := replicate (unat (DMA_PAGES d)) 0\<rparr>, s) }"

partial_function (option) cache_foreach :: "sos_env \<Rightarrow> u32 \<Rightarrow> u32 \<Rightarrow> sos \<Rightarrow> sos option" where
  [code]: "cache_foreach E addr end' s =
     (if addr < end' then
        let nxt = MIN2 (PAGE_ALIGN_4K (addr + PAGE_SIZE_4K)) end'; (err, s) = ask E (K_cache_op addr nxt) s in
        if err \<noteq> 0 then None else cache_foreach E nxt end' s
      else Some s)"

text \<open>The three operations differ only in the call they make for each page.\<close>

definition sos_dma_cache_op :: "sos_env \<Rightarrow> u32 \<Rightarrow> u32 \<Rightarrow> sos \<Rightarrow> sos option" where
  "sos_dma_cache_op E addr sz s = cache_foreach E addr (addr + sz) s"

definition sos_dma_malloc ::
  "sos_env \<Rightarrow> u32 \<Rightarrow> u32 \<Rightarrow> int \<Rightarrow> dma_state \<Rightarrow> sos \<Rightarrow> (u32 \<times> dma_state \<times> sos) option" where
  "sos_dma_malloc E sz align cached d s = do {
     c_assert (dma_pstart d \<noteq> 0);
     let d = d\<lparr>dma_pnext := DMA_ALIGN (dma_pnext d)\<rparr>;
     (dma_addr, d, s) \<leftarrow>
       (if dma_pnext d < dma_pend d then do {
          let d = (if alloc_cached d \<noteq> cached \<and> PAGE_OFFSET (dma_pnext d) \<noteq> 0
                   then d\<lparr>dma_pnext := ROUND_UP (dma_pnext d) (BIT seL4_PageBits)\<rparr> else d);
          c_assert (align \<noteq> 0);
          let d = d\<lparr>dma_pnext := ROUND_UP (dma_pnext d) align, alloc_cached := cached\<rparr>;
          (d, s) \<leftarrow> dma_fill E (dma_pnext d) (dma_pnext d + sz) d s;
          Some (VIRT d (dma_pnext d), d\<lparr>dma_pnext := dma_pnext d + sz\<rparr>, s) }
        else Some (0, d, s));
     s \<leftarrow> sos_dma_cache_op E dma_addr sz s;
     Some (dma_addr, d, s) }"

definition sos_dma_pin :: "u32 \<Rightarrow> dma_state \<Rightarrow> u32" where
  "sos_dma_pin addr d = (if addr < DMA_VSTART \<or> addr \<ge> DMA_VEND then 0 else PHYS d addr)"

section \<open>Buffers are fresh and mapped\<close>

text \<open>What filling leaves of the state: capabilities are only added.\<close>

definition filled :: "dma_state \<Rightarrow> dma_state \<Rightarrow> bool" where
  "filled d d' \<longleftrightarrow> length (dma_caps d') = length (dma_caps d) \<and> dma_pstart d' = dma_pstart d \<and> dma_pend d' = dma_pend d \<and>
     dma_pnext d' = dma_pnext d \<and> (\<forall>j<length (dma_caps d). dma_caps d ! j \<noteq> 0 \<longrightarrow> dma_caps d' ! j \<noteq> 0)"

lemma filled_refl [simp]: "filled d d" by (simp add: filled_def)

lemma filled_trans: "filled a b \<Longrightarrow> filled b c \<Longrightarrow> filled a c" by (simp add: filled_def)

lemma retype_cap: "cspace_ut_retype_addr E a n s = (0, cap, s') \<Longrightarrow> cap \<noteq> 0"
  by (auto simp: cspace_ut_retype_addr_def split: prod.splits if_splits)

lemma fill_page_filled:
  assumes "dma_fill_page E pstart i d s = Some (d', s')"
  shows "filled d d' \<and> i < length (dma_caps d) \<and> dma_caps d' ! i \<noteq> 0"
proof -
  from assms have i: "i < length (dma_caps d)" by (auto simp: dma_fill_page_def arr_get_def bind_eq_Some_conv split: if_splits)
  show ?thesis
  proof (cases "dma_caps d ! i = 0")
    case True
    obtain err c t where rt: "cspace_ut_retype_addr E pstart seL4_PageBits s = (err, c, t)" by (metis prod_cases3)
    with assms True i have "err = 0" "d' = d\<lparr>dma_caps := (dma_caps d)[i := c]\<rparr>"
      by (auto simp: dma_fill_page_def bind_eq_Some_conv arr_set_def arr_get_def split: if_splits)
    moreover from this rt have "c \<noteq> 0" using retype_cap by blast
    ultimately show ?thesis using i by (auto simp: filled_def nth_list_update)
  next
    case False
    with assms i show ?thesis by (auto simp: dma_fill_page_def arr_get_def)
  qed
qed

lemma fill_loop_filled:
  assumes "dma_fill_loop E pstart i pend d s = Some (d', s')" and "unat pend + 4096 \<le> 2 ^ 32"
  shows "filled d d' \<and> (\<forall>x. unat pstart \<le> x \<and> x < unat pend \<longrightarrow>
    i + (x - unat pstart) div 4096 < length (dma_caps d) \<and> dma_caps d' ! (i + (x - unat pstart) div 4096) \<noteq> 0)"
  using assms
proof (induction "unat pend - unat pstart" arbitrary: pstart i d s rule: less_induct)
  case less
  show ?case
  proof (cases "pstart < pend")
    case False
    with less.prems show ?thesis by (auto simp: dma_fill_loop.simps word_less_nat_alt)
  next
    case True
    then have lt: "unat pstart < unat pend" by (simp add: word_less_nat_alt)
    from True less.prems obtain d1 s1 where page: "dma_fill_page E pstart i d s = Some (d1, s1)"
      and rest: "dma_fill_loop E (pstart + BIT seL4_PageBits) (Suc i) pend d1 s1 = Some (d', s')"
      by (subst (asm) dma_fill_loop.simps) (auto simp: bind_eq_Some_conv)
    have next': "unat (pstart + BIT seL4_PageBits) = unat pstart + 4096"
      using lt less.prems(2) by (simp add: BIT_def seL4_PageBits_def unat_word_ariths)
    note p = fill_page_filled [OF page]
    have "unat pend - unat (pstart + BIT seL4_PageBits) < unat pend - unat pstart" using lt next' by simp
    note ih = less.hyps [OF this rest less.prems(2), unfolded next']
    have "filled d d'" using p ih filled_trans by blast
    moreover have "i + (x - unat pstart) div 4096 < length (dma_caps d) \<and> dma_caps d' ! (i + (x - unat pstart) div 4096) \<noteq> 0"
      if x: "unat pstart \<le> x" "x < unat pend" for x
    proof (cases "x < unat pstart + 4096")
      case True
      with x have "(x - unat pstart) div 4096 = 0" by simp
      then show ?thesis using p ih by (simp add: filled_def)
    next
      case False
      then have "(x - unat pstart) div 4096 = Suc ((x - (unat pstart + 4096)) div 4096)"
        using le_div_geq [of 4096 "x - unat pstart"] by simp
      then show ?thesis using ih x False p by (auto simp: filled_def)
    qed
    ultimately show ?thesis by blast
  qed
qed

lemma ROUND_UP_unat:
  assumes b: "b \<noteq> 0" and w: "unat n + unat b \<le> 2 ^ 32"
  shows "unat n \<le> unat (ROUND_UP n b)" "unat (ROUND_UP n b) < unat n + unat b" "unat b dvd unat (ROUND_UP n b)"
proof -
  have b': "0 < unat b" using b by (simp add: unat_gt_0)
  have m: "unat (n mod b) = unat n mod unat b" by (simp add: unat_mod)
  have u: "unat (ROUND_UP n b) = (if unat n mod unat b = 0 then unat n else unat n + (unat b - unat n mod unat b))"
  proof (cases "n mod b = 0")
    case True
    with m show ?thesis by (simp add: ROUND_UP_def)
  next
    case False
    with m have nz: "unat n mod unat b \<noteq> 0" by (metis unat_eq_0)
    have "n mod b \<le> b" using b' by (simp add: word_le_nat_alt m less_imp_le)
    then have "unat (b - n mod b) = unat b - unat n mod unat b" by (simp add: unat_sub m)
    moreover have "unat b - unat n mod unat b < unat b" using b' nz by simp
    then have "unat n + (unat b - unat n mod unat b) < 2 ^ 32" using w by linarith
    ultimately show ?thesis using False nz by (simp add: ROUND_UP_def unat_plus_if')
  qed
  show "unat n \<le> unat (ROUND_UP n b)" unfolding u by simp
  show "unat (ROUND_UP n b) < unat n + unat b" unfolding u using b' by auto
  have "unat b dvd unat n + (unat b - unat n mod unat b)"
  proof -
    have "unat n + (unat b - unat n mod unat b) = (unat n div unat b) * unat b + unat b"
      using div_mult_mod_eq [of "unat n" "unat b"] b' mod_less_divisor [OF b', of "unat n"] by linarith
    then show ?thesis by simp
  qed
  then show "unat b dvd unat (ROUND_UP n b)" unfolding u by (auto simp: mod_eq_0_iff_dvd)
qed

lemma page_index:
  assumes "m mod 4096 = (0 :: nat)" "m \<le> q" "q - q mod 4096 \<le> x"
  shows "(q - m) div 4096 + (x - (q - q mod 4096)) div 4096 = (x - m) div 4096"
proof -
  from assms(1) obtain k where k: "m = 4096 * k" by auto
  define j where "j = q div 4096"
  have q: "q - q mod 4096 = 4096 * j" by (simp add: j_def minus_mod_eq_mult_div)
  have "k \<le> j" using assms(2) k unfolding j_def by simp
  moreover obtain y where y: "x = 4096 * j + y" using assms(3) q by (metis le_Suc_ex)
  moreover obtain z where "q = 4096 * j + z" "z < 4096" unfolding j_def by (metis mod_less_divisor mult_div_mod_eq zero_less_numeral)
  moreover from \<open>k \<le> j\<close> obtain l where "j = k + l" using le_Suc_ex by blast
  ultimately have "q - m = 4096 * l + z" "x - m = 4096 * l + y" "x - (q - q mod 4096) = y" "z < 4096"
    using k q by simp_all
  then show ?thesis by simp
qed

text \<open>Where the next buffer starts.\<close>

definition dma_place :: "u32 \<Rightarrow> int \<Rightarrow> dma_state \<Rightarrow> u32" where
  "dma_place align cached d =
     (let p = DMA_ALIGN (dma_pnext d)
      in ROUND_UP (if alloc_cached d \<noteq> cached \<and> PAGE_OFFSET p \<noteq> 0 then ROUND_UP p (BIT seL4_PageBits) else p) align)"

lemma dma_place_bounds:
  assumes "align \<noteq> 0" "unat (dma_pnext d) + unat align + 4104 \<le> 2 ^ 32"
  shows "unat (dma_pnext d) \<le> unat (dma_place align cached d)"
    "unat (dma_place align cached d) < unat (dma_pnext d) + unat align + 4103"
    "unat align dvd unat (dma_place align cached d)"
proof -
  define p where "p = DMA_ALIGN (dma_pnext d)"
  have p: "unat (dma_pnext d) \<le> unat p" "unat p < unat (dma_pnext d) + 7"
    using ROUND_UP_unat [of 7 "dma_pnext d"] assms(2) by (auto simp: p_def DMA_ALIGN_def DMA_ALIGN_BITS_def)
  define q where "q = (if alloc_cached d \<noteq> cached \<and> PAGE_OFFSET p \<noteq> 0 then ROUND_UP p (BIT seL4_PageBits) else p)"
  have q: "unat p \<le> unat q" "unat q < unat p + 4096"
    using ROUND_UP_unat [of 4096 p] assms(2) p by (auto simp: q_def BIT_def seL4_PageBits_def)
  have "dma_place align cached d = ROUND_UP q align" by (simp add: dma_place_def p_def q_def Let_def)
  with ROUND_UP_unat [of align q] assms p q
  show "unat (dma_pnext d) \<le> unat (dma_place align cached d)"
    "unat (dma_place align cached d) < unat (dma_pnext d) + unat align + 4103"
    "unat align dvd unat (dma_place align cached d)" by auto
qed

lemma sos_dma_malloc_cases:
  assumes "sos_dma_malloc E sz align cached d s = Some (a, d', s')" "a \<noteq> 0"
  obtains d1 t where "align \<noteq> 0"
    "dma_fill E (dma_place align cached d) (dma_place align cached d + sz)
       (d\<lparr>dma_pnext := dma_place align cached d, alloc_cached := cached\<rparr>) s = Some (d1, t)"
    "a = VIRT d1 (dma_pnext d1)" "d' = d1\<lparr>dma_pnext := dma_pnext d1 + sz\<rparr>"
proof -
  from assms have "align \<noteq> 0 \<and> (\<exists>d1 t. dma_fill E (dma_place align cached d) (dma_place align cached d + sz)
       (d\<lparr>dma_pnext := dma_place align cached d, alloc_cached := cached\<rparr>) s = Some (d1, t) \<and>
       a = VIRT d1 (dma_pnext d1) \<and> d' = d1\<lparr>dma_pnext := dma_pnext d1 + sz\<rparr>)"
    by (auto simp: sos_dma_malloc_def dma_place_def bind_eq_Some_conv Let_def split: if_splits)
  then show thesis using that by blast
qed

text \<open>
  C35: a buffer \<^verbatim>\<open>sos_dma_malloc\<close> hands out starts at or after the end of all earlier ones, so buffers
  never overlap; it has the requested alignment; its physical address is what \<^verbatim>\<open>PHYS\<close> computes from the
  address returned; and every frame it touches has a capability in the table.
\<close>

theorem sos_dma_malloc_fresh:
  assumes r: "sos_dma_malloc E sz align cached d s = Some (a, d', s')" and a: "a \<noteq> 0"
    and pool: "unat (dma_pstart d) mod 4096 = 0" "dma_pstart d \<le> dma_pnext d"
    and room: "unat (dma_pnext d) + unat align + unat sz + 8200 \<le> 2 ^ 32"
  shows "unat (dma_pnext d) \<le> unat (PHYS d' a) \<and> unat align dvd unat (PHYS d' a) \<and>
    unat (PHYS d' a) + unat sz = unat (dma_pnext d') \<and> dma_pstart d' = dma_pstart d \<and>
    (\<forall>x. unat (PHYS d' a) \<le> x \<and> x < unat (PHYS d' a) + unat sz \<longrightarrow>
       (x - unat (dma_pstart d)) div 4096 < length (dma_caps d) \<and>
       dma_caps d' ! ((x - unat (dma_pstart d)) div 4096) \<noteq> 0)"
proof -
  define q where "q = dma_place align cached d"
  from sos_dma_malloc_cases [OF r a] obtain d1 t where al: "align \<noteq> 0"
    and fill: "dma_fill E q (q + sz) (d\<lparr>dma_pnext := q, alloc_cached := cached\<rparr>) s = Some (d1, t)"
    and res: "a = VIRT d1 (dma_pnext d1)" "d' = d1\<lparr>dma_pnext := dma_pnext d1 + sz\<rparr>" unfolding q_def .
  note q = dma_place_bounds [OF al, of d cached, folded q_def]
  have end': "unat (q + sz) = unat q + unat sz" using q(2) room by (simp add: unat_word_ariths)
  have off: "unat (q - PAGE_OFFSET q) = unat q - unat q mod 4096"
  proof -
    have m: "unat (PAGE_OFFSET q) = unat q mod 4096"
      using unat_page_offset [of q] by (simp add: PAGE_OFFSET_def seL4_PageBits_def PAGE_MASK_4K_eq mask_eq_exp_minus_1)
    then have "PAGE_OFFSET q \<le> q" by (simp add: word_le_nat_alt)
    with m show ?thesis by (simp add: unat_sub)
  qed
  have ge: "unat (dma_pstart d) \<le> unat q" using pool(2) q(1) room by (simp add: word_le_nat_alt)
  then have idx: "unat (drop_bit seL4_PageBits (q - dma_pstart d)) = (unat q - unat (dma_pstart d)) div 4096"
    by (simp add: unat_drop_bit_eq drop_bit_eq_div seL4_PageBits_def unat_div unat_sub word_le_nat_alt)
  have "unat (q + sz) + 4096 \<le> 2 ^ 32" using end' q(2) room by simp
  note f = fill_loop_filled [OF fill [unfolded dma_fill_def] this, unfolded off end', simplified, unfolded idx]
  then have d1: "dma_pnext d1 = q" "dma_pstart d1 = dma_pstart d" by (simp_all add: filled_def)
  have phys: "PHYS d' a = q" by (simp add: PHYS_def VIRT_def res d1)
  have "(x - unat (dma_pstart d)) div 4096 < length (dma_caps d) \<and> dma_caps d' ! ((x - unat (dma_pstart d)) div 4096) \<noteq> 0"
    if "unat q \<le> x" "x < unat q + unat sz" for x
  proof -
    have "unat q - unat q mod 4096 \<le> x" using that by simp
    with f that page_index [OF pool(1) ge, of x] show ?thesis by (auto simp: res)
  qed
  then show ?thesis unfolding phys using q room end' by (simp add: res d1)
qed

text \<open>A page-aligned pool and a kernel that grants every request.\<close>

definition dma_example :: dma_state where
  "dma_example = \<lparr>dma_caps = replicate 4 0, dma_pstart = 0x4000, dma_pend = 0x8000, dma_pnext = 0x4000, alloc_cached = 0\<rparr>"

definition granting :: sos_env where
  "granting = \<lparr>answer = (\<lambda>_ c. case c of K_retype a n \<Rightarrow> 5 | _ \<Rightarrow> 0),
     nfs_byte = (\<lambda>_ _. 0), nfs_names = (\<lambda>_. []), nfs_attr = (\<lambda>_. \<lparr>fa_type = 0, fa_mode = 0, fa_size = 0, fa_ctime = (0, 0), fa_atime = (0, 0)\<rparr>),
     interfere = (\<lambda>_ s. s), clk_env = example_env\<rparr>"

lemma granting_ask [simp]: "ask granting c s = ((case c of K_retype a n \<Rightarrow> 5 | _ \<Rightarrow> 0), s\<lparr>klog := c # klog s\<rparr>)"
  by (simp add: ask_def granting_def)

lemma cache_foreach_unroll:
  "\<not> a < e \<Longrightarrow> cache_foreach E a e s = Some s"
  "a < e \<Longrightarrow> cache_foreach granting a e s = cache_foreach granting (MIN2 (PAGE_ALIGN_4K (a + PAGE_SIZE_4K)) e) e
     (s\<lparr>klog := K_cache_op a (MIN2 (PAGE_ALIGN_4K (a + PAGE_SIZE_4K)) e) # klog s\<rparr>)"
  by (simp_all add: cache_foreach.simps [of _ a] Let_def)

lemma dma_fill_loop_unroll:
  "\<not> a < e \<Longrightarrow> dma_fill_loop E a i e d s = Some (d, s)"
  "a < e \<Longrightarrow> dma_fill_loop E a i e d s = dma_fill_page E a i d s \<bind> (\<lambda>(d, s). dma_fill_loop E (a + BIT seL4_PageBits) (Suc i) e d s)"
  by (simp_all add: dma_fill_loop.simps [of _ a])

lemma granting_fill_page:
  "i < length (dma_caps d) \<Longrightarrow> dma_caps d ! i = 0 \<Longrightarrow>
   dma_fill_page granting a i d s = Some (d\<lparr>dma_caps := (dma_caps d)[i := 5]\<rparr>,
     s\<lparr>klog := K_page_map 5 seL4_CapInitThreadPD (VIRT d a) seL4_AllRights # K_retype a seL4_PageBits # klog s\<rparr>)"
  by (simp add: dma_fill_page_def arr_get_def arr_set_def cspace_ut_retype_addr_def map_page_def seL4_FailedLookup_def)

lemma dma_example_call:
  "\<exists>d' s'. sos_dma_malloc granting 0x1100 32 0 dma_example s = Some (0x10000020, d', s')"
  by (simp add: sos_dma_malloc_def dma_example_def DMA_ALIGN_def DMA_ALIGN_BITS_def ROUND_UP_def PAGE_OFFSET_def
      Let_def dma_fill_def dma_fill_loop_unroll granting_fill_page VIRT_def DMA_VSTART_def BIT_def seL4_PageBits_def
      sos_dma_cache_op_def cache_foreach_unroll PAGE_ALIGN_4K_def MIN2_def PAGE_SIZE_4K_eq PAGE_MASK_4K_eq mask_eq_exp_minus_1)

theorem sos_dma_malloc_fresh_witness:
  "\<exists>d' s'. sos_dma_malloc granting 0x1100 32 0 dma_example initial_sos = Some (0x10000020, d', s') \<and>
     unat (dma_pnext d') = 0x5120 \<and> dma_caps d' ! 1 \<noteq> 0"
proof -
  obtain d' s' where call: "sos_dma_malloc granting 0x1100 32 0 dma_example initial_sos = Some (0x10000020, d', s')"
    using dma_example_call by blast
  have "(0x10000020 :: u32) \<noteq> 0" by simp
  from sos_dma_malloc_fresh [OF call this] have f: "dma_pstart d' = 0x4000" "unat (PHYS d' 0x10000020) + 0x1100 = unat (dma_pnext d')"
    "\<forall>x. unat (PHYS d' 0x10000020) \<le> x \<and> x < unat (PHYS d' 0x10000020) + 0x1100 \<longrightarrow>
       dma_caps d' ! ((x - 0x4000) div 4096) \<noteq> 0"
    by (auto simp: dma_example_def word_le_nat_alt)
  have p: "unat (PHYS d' 0x10000020) = 0x4020" by (simp add: PHYS_def DMA_VSTART_def f(1))
  then have "unat (PHYS d' 0x10000020) \<le> 0x5000 \<and> 0x5000 < unat (PHYS d' 0x10000020) + 0x1100" by simp
  with f(3) have "dma_caps d' ! ((0x5000 - 0x4000) div 4096) \<noteq> 0" by blast
  then have "dma_caps d' ! 1 \<noteq> 0" by simp
  with call f(2) p show ?thesis by auto
qed

end
