(* ===== verification/Coro.thy ===== *)
theory Coro
  imports Sos_Prelude
begin

text \<open>
  The coroutines (\<^verbatim>\<open>coro/picoro.c\<close>): the intrusive lists of running and idle coroutines. A coroutine is
  its address; the null pointer is 0. Saving a context and jumping to another (\<^verbatim>\<open>setjmp\<close>, \<^verbatim>\<open>longjmp\<close>)
  is what \<^verbatim>\<open>pass\<close> does: control goes to the head of the running list, and the value handed over is
  \<open>saved\<close>. A coroutine that \<^verbatim>\<open>coroutine_start\<close> creates lives on the stack, at the next address.
\<close>

section \<open>Definitions\<close>

type_synonym coro = nat

text \<open>\<open>forked\<close> tells the coroutines that are past the fork at the start of \<^verbatim>\<open>coroutine_main\<close>.\<close>

record coro_state =
  coro_next :: "coro \<Rightarrow> coro"
  running :: coro
  idle :: coro
  saved :: nat
  next_stack :: coro
  forked :: "coro \<Rightarrow> bool"

definition first :: coro where "first = 1"

definition coro_init :: coro_state where
  "coro_init = \<lparr>coro_next = (\<lambda>_. 0), running = first, idle = 0, saved = 0, next_stack = 2, forked = (\<lambda>_. False)\<rparr>"

definition resumable :: "coro \<Rightarrow> coro_state \<Rightarrow> bool" where
  "resumable c st \<longleftrightarrow> c \<noteq> 0 \<and> coro_next st c = 0"

text \<open>\<^verbatim>\<open>push\<close> and \<^verbatim>\<open>pop\<close>, on either list: the head of the list is read and written by the caller.\<close>

definition push :: "coro \<Rightarrow> coro \<Rightarrow> coro_state \<Rightarrow> coro_state" where
  "push l c st = st\<lparr>coro_next := (coro_next st)(c := l)\<rparr>"

definition pop :: "coro \<Rightarrow> coro_state \<Rightarrow> (coro \<times> coro_state) option" where
  "pop c st = do {
     c_assert (c \<noteq> 0);
     Some (coro_next st c, st\<lparr>coro_next := (coro_next st)(c := 0)\<rparr>) }"

definition push_running :: "coro \<Rightarrow> coro_state \<Rightarrow> coro_state" where
  "push_running c st = (push (running st) c st)\<lparr>running := c\<rparr>"

definition push_idle :: "coro \<Rightarrow> coro_state \<Rightarrow> coro_state" where
  "push_idle c st = (push (idle st) c st)\<lparr>idle := c\<rparr>"

definition pop_running :: "coro_state \<Rightarrow> (coro \<times> coro_state) option" where
  "pop_running st = do { (l, st') \<leftarrow> pop (running st) st; Some (running st, st'\<lparr>running := l\<rparr>) }"

definition pop_idle :: "coro_state \<Rightarrow> (coro \<times> coro_state) option" where
  "pop_idle st = do { (l, st') \<leftarrow> pop (idle st) st; Some (idle st, st'\<lparr>idle := l\<rparr>) }"

definition pass :: "nat \<Rightarrow> coro_state \<Rightarrow> coro_state option" where
  "pass arg st = do {
     c_assert (running st \<noteq> 0);
     Some (st\<lparr>saved := arg\<rparr>) }"

definition resume :: "coro \<Rightarrow> nat \<Rightarrow> coro_state \<Rightarrow> coro_state option" where
  "resume c arg st = do {
     c_assert (resumable c st);
     pass arg (push_running c st) }"

definition yield :: "nat \<Rightarrow> coro_state \<Rightarrow> coro_state option" where
  "yield arg st = do {
     (c, st) \<leftarrow> pop_running st;
     pass arg st }"

text \<open>
  \<^verbatim>\<open>coroutine_start\<close> and the first two statements of \<^verbatim>\<open>coroutine_main\<close>: the new coroutine makes itself idle
  and gives control back to the one that forked it.
\<close>

definition coroutine_start :: "coro_state \<Rightarrow> coro_state option" where
  "coroutine_start st =
     (let me = next_stack st in
      pass me (push_idle me (st\<lparr>next_stack := me + 1, forked := (forked st)(me := False)\<rparr>)))"

text \<open>
  \<^verbatim>\<open>coroutine_main\<close> from where it gets a function to where it waits for the argument: the first time it
  forks the next idle coroutine, and each time it yields its own address.
\<close>

definition coroutine_get_fun :: "coro \<Rightarrow> coro_state \<Rightarrow> coro_state option" where
  "coroutine_get_fun me st = do {
     st \<leftarrow> (if \<not> forked st me then do {
              st \<leftarrow> coroutine_start st;
              Some (st\<lparr>forked := (forked st)(me := True)\<rparr>) }
            else Some st);
     yield me st }"

definition coroutine :: "nat \<Rightarrow> coro_state \<Rightarrow> (coro \<times> coro_state) option" where
  "coroutine fun_ptr st = do {
     st \<leftarrow> (if idle st = 0 then coroutine_start st else Some st);
     (c, st) \<leftarrow> pop_idle st;
     st \<leftarrow> resume c fun_ptr st;
     st \<leftarrow> coroutine_get_fun c st;
     Some (saved st, st) }"

text \<open>The end of the loop body in \<^verbatim>\<open>coroutine_main\<close>: the function has returned \<open>ret\<close>.\<close>

definition coroutine_end :: "nat \<Rightarrow> coro_state \<Rightarrow> coro_state option" where
  "coroutine_end ret st = do {
     (c, st) \<leftarrow> pop_running st;
     pass ret (push_idle c st) }"

definition coro_getcur :: "coro_state \<Rightarrow> coro" where
  "coro_getcur st = running st"

text \<open>A coroutine the program knows: one that \<^verbatim>\<open>coroutine\<close> has returned.\<close>

definition visible :: "coro_state \<Rightarrow> coro \<Rightarrow> bool" where
  "visible st c \<longleftrightarrow> first < c \<and> c < next_stack st \<and> forked st c"

text \<open>What the program can do: create, resume one it knows, yield, and return from a coroutine's function.\<close>

inductive coro_step :: "coro_state \<Rightarrow> coro_state \<Rightarrow> bool" where
  step_coroutine: "coroutine f st = Some (c, st') \<Longrightarrow> coro_step st st'"
| step_resume: "visible st c \<Longrightarrow> resume c arg st = Some st' \<Longrightarrow> coro_step st st'"
| step_yield: "yield arg st = Some st' \<Longrightarrow> coro_step st st'"
| step_end: "running st \<noteq> first \<Longrightarrow> coroutine_end ret st = Some st' \<Longrightarrow> coro_step st st'"

inductive coro_reachable :: "coro_state \<Rightarrow> bool" where
  reach_init: "coro_reachable coro_init"
| reach_step: "coro_reachable st \<Longrightarrow> coro_step st st' \<Longrightarrow> coro_reachable st'"

section \<open>The lists\<close>

fun coro_list :: "(coro \<Rightarrow> coro) \<Rightarrow> coro \<Rightarrow> coro list \<Rightarrow> bool" where
  "coro_list nxt a [] \<longleftrightarrow> a = 0"
| "coro_list nxt a (c # cs) \<longleftrightarrow> a = c \<and> c \<noteq> 0 \<and> coro_list nxt (nxt c) cs"

text \<open>
  The invariant, with the coroutines on the two lists: the running list ends in \<^const>\<open>first\<close>; the last
  idle coroutine is the only one that has not forked yet; whatever is on neither list has no successor.
\<close>

definition coro_lists :: "coro_state \<Rightarrow> coro list \<Rightarrow> coro list \<Rightarrow> bool" where
  "coro_lists st rs is \<longleftrightarrow>
     coro_list (coro_next st) (running st) rs \<and> coro_list (coro_next st) (idle st) is \<and>
     rs \<noteq> [] \<and> last rs = first \<and> distinct (rs @ is) \<and>
     (\<forall>c\<in>set rs - {first}. visible st c) \<and> (\<forall>c\<in>set (butlast is). visible st c) \<and>
     (if is = [] then next_stack st = 2 else first < last is \<and> last is < next_stack st \<and> \<not> forked st (last is)) \<and>
     (\<forall>c. c \<notin> set (rs @ is) \<longrightarrow> coro_next st c = 0) \<and>
     {c. first < c \<and> c < next_stack st \<and> \<not> forked st c} \<subseteq> (if is = [] then {} else {last is})"

lemma coro_list_cong: "coro_list n a cs \<Longrightarrow> (\<And>c. c \<in> set cs \<Longrightarrow> m c = n c) \<Longrightarrow> coro_list m a cs"
  by (induction cs arbitrary: a) auto

lemma coro_list_next:
  assumes "coro_list n a cs" "c \<in> set cs" "distinct cs"
  shows "n c = 0 \<longleftrightarrow> c = last cs"
  using assms
proof (induction cs arbitrary: a)
  case (Cons x xs)
  then show ?case by (cases xs) auto
qed simp

lemma coro_list_fun_upd [simp]: "c \<notin> set cs \<Longrightarrow> coro_list (n(c := x)) a cs = coro_list n a cs"
  by (induction cs arbitrary: a) auto

lemma coro_list_head: "coro_list n a cs \<Longrightarrow> cs \<noteq> [] \<Longrightarrow> hd cs = a \<and> a \<noteq> 0"
  by (cases cs) auto

lemma visible_resumable_iff:
  assumes "coro_lists st rs is" "visible st c"
  shows "resumable c st \<longleftrightarrow> c \<notin> set rs \<and> c \<notin> set is"
proof -
  note inv = assms(1) [unfolded coro_lists_def]
  have c: "c \<noteq> 0" "c \<noteq> first" "forked st c" using assms(2) by (auto simp: visible_def first_def)
  have "coro_next st c \<noteq> 0" if "c \<in> set rs"
    using coro_list_next [of "coro_next st" "running st" rs c] inv that c by auto
  moreover have "coro_next st c \<noteq> 0" if "c \<in> set is"
    using coro_list_next [of "coro_next st" "idle st" "is" c] inv that c by (auto split: if_splits)
  moreover have "coro_next st c = 0" if "c \<notin> set rs" "c \<notin> set is" using inv that by simp
  ultimately show ?thesis using c by (auto simp: resumable_def)
qed

lemmas coro_defs = push_def pop_def push_running_def push_idle_def pop_running_def pop_idle_def pass_def
  resume_def yield_def coroutine_start_def coroutine_get_fun_def coroutine_end_def

lemma resume_lists:
  assumes inv: "coro_lists st rs is" and v: "visible st c" and r: "resume c arg st = Some st'"
  shows "coro_lists st' (c # rs) is"
proof -
  from r have "resumable c st"
    and st': "st' = st\<lparr>coro_next := (coro_next st)(c := running st), running := c, saved := arg\<rparr>"
    by (auto simp: coro_defs bind_eq_Some_conv split: if_splits)
  with visible_resumable_iff [OF inv v] have "c \<notin> set rs" "c \<notin> set is" by auto
  moreover have "c \<noteq> 0" using v by (simp add: visible_def first_def)
  ultimately show ?thesis using inv v by (auto simp: coro_lists_def st' visible_def)
qed

text \<open>A list with more than one coroutine, taken apart.\<close>

lemma running_split:
  assumes inv: "coro_lists st rs is" and r: "coro_next st (running st) \<noteq> 0"
  obtains rs' where "rs = running st # rs'" "rs' \<noteq> []" "last rs' = first" "coro_list (coro_next st) (coro_next st (running st)) rs'"
proof -
  from inv obtain rs' where rs: "rs = running st # rs'" by (cases rs) (auto simp: coro_lists_def)
  have "coro_list (coro_next st) (coro_next st (running st)) rs'" using inv rs by (simp add: coro_lists_def)
  moreover from this r have "rs' \<noteq> []" by auto
  ultimately show thesis using inv rs by (intro that) (auto simp: coro_lists_def)
qed

lemma yield_lists:
  assumes inv: "coro_lists st rs is" and r: "yield arg st = Some st'"
  shows "coro_lists st' (tl rs) is"
proof -
  from r have n: "coro_next st (running st) \<noteq> 0"
    and st': "st' = st\<lparr>coro_next := (coro_next st)(running st := 0), running := coro_next st (running st), saved := arg\<rparr>"
    by (auto simp: coro_defs bind_eq_Some_conv split: if_splits)
  from running_split [OF inv n] obtain rs' where rs: "rs = running st # rs'" "rs' \<noteq> []" "last rs' = first"
    "coro_list (coro_next st) (coro_next st (running st)) rs'" .
  from inv rs show ?thesis by (auto simp: coro_lists_def st' visible_def)
qed

lemma end_lists:
  assumes inv: "coro_lists st rs is" and nf: "running st \<noteq> first" and r: "coroutine_end ret st = Some st'"
  shows "coro_lists st' (tl rs) (running st # is)"
proof -
  from r have n: "coro_next st (running st) \<noteq> 0"
    and st': "st' = st\<lparr>coro_next := (coro_next st)(running st := idle st), running := coro_next st (running st),
                       idle := running st, saved := ret\<rparr>"
    by (auto simp: coro_defs bind_eq_Some_conv split: if_splits)
  from running_split [OF inv n] obtain rs' where rs: "rs = running st # rs'" "rs' \<noteq> []" "last rs' = first"
    "coro_list (coro_next st) (coro_next st (running st)) rs'" .
  from inv rs nf have v: "visible st (running st)" by (auto simp: coro_lists_def)
  with inv have "is \<noteq> []" by (auto simp: coro_lists_def visible_def first_def)
  with inv rs v show ?thesis by (auto simp: coro_lists_def st' visible_def first_def)
qed

lemma start_lists:
  assumes inv: "coro_lists st rs []"
  shows "\<exists>st'. coroutine_start st = Some st' \<and> coro_lists st' rs [next_stack st]"
proof -
  have "running st \<noteq> 0" using inv coro_list_head [of "coro_next st" "running st" rs] by (simp add: coro_lists_def)
  moreover have "2 \<notin> set rs" "next_stack st = 2" using inv by (auto simp: coro_lists_def visible_def first_def)
  ultimately show ?thesis using inv by (auto simp: coro_defs coro_lists_def visible_def first_def)
qed

lemma coroutine_reuse:
  assumes inv: "coro_lists st rs (c # is)" and f: "forked st c"
  shows "\<exists>st'. coroutine f st = Some (c, st') \<and> coro_lists st' rs is \<and> visible st' c \<and> c \<notin> set (rs @ is)"
proof -
  have c: "idle st = c" "c \<noteq> 0" "c \<notin> set rs" "c \<notin> set is" using inv by (auto simp: coro_lists_def)
  have r: "running st \<noteq> 0" using inv coro_list_head [of "coro_next st" "running st" rs] by (simp add: coro_lists_def)
  have "is \<noteq> []" using inv f by (auto simp: coro_lists_def)
  define st' where "st' = st\<lparr>coro_next := (coro_next st)(c := 0), idle := coro_next st c, saved := c\<rparr>"
  have "coroutine f st = Some (c, st')" using c r f by (simp add: coroutine_def coro_defs resumable_def st'_def)
  moreover have "coro_lists st' rs is" using inv c \<open>is \<noteq> []\<close> by (auto simp: coro_lists_def st'_def visible_def)
  moreover have "visible st' c" using inv \<open>is \<noteq> []\<close> by (auto simp: coro_lists_def st'_def visible_def)
  ultimately show ?thesis using c by auto
qed

lemma running_range: "coro_lists st rs is \<Longrightarrow> x \<in> set rs \<Longrightarrow> x = first \<or> x < next_stack st"
  unfolding coro_lists_def visible_def by blast

lemma coroutine_fork:
  assumes inv: "coro_lists st rs [c]"
  shows "\<exists>st'. coroutine f st = Some (c, st') \<and> coro_lists st' rs [next_stack st] \<and> visible st' c \<and> c \<notin> set (rs @ [next_stack st])"
proof -
  have c: "idle st = c" "c \<noteq> 0" "c \<notin> set rs" "\<not> forked st c" "first < c" "c < next_stack st" "coro_next st c = 0"
    using inv by (auto simp: coro_lists_def)
  have "running st \<noteq> 0" using inv coro_list_head [of "coro_next st" "running st" rs] by (simp add: coro_lists_def)
  moreover have "next_stack st \<notin> set rs" using running_range [OF inv, of "next_stack st"] c by auto
  ultimately have r: "running st \<noteq> 0" "next_stack st \<notin> set rs" "next_stack st \<noteq> c" "first < next_stack st"
    using c by auto
  define st' where "st' = st\<lparr>coro_next := (coro_next st)(c := 0, next_stack st := 0), idle := next_stack st, saved := c,
    next_stack := next_stack st + 1, forked := (forked st)(next_stack st := False, c := True)\<rparr>"
  have "coroutine f st = Some (c, st')"
    using c r by (simp add: coroutine_def coro_defs resumable_def st'_def Let_def fun_upd_twist)
  moreover have "coro_lists st' rs [next_stack st]"
  proof -
    from inv have L: "coro_list (coro_next st) (running st) rs" "rs \<noteq> []" "last rs = first" "distinct rs"
      and V: "\<forall>x\<in>set rs - {first}. visible st x" and N: "\<forall>x. x \<notin> set rs \<and> x \<noteq> c \<longrightarrow> coro_next st x = 0"
      and F: "{x. first < x \<and> x < next_stack st \<and> \<not> forked st x} \<subseteq> {c}"
      by (simp_all add: coro_lists_def)
    have "coro_list (coro_next st') (running st') rs" "coro_list (coro_next st') (idle st') [next_stack st]"
      using L c r by (simp_all add: st'_def)
    moreover have "\<forall>x\<in>set rs - {first}. visible st' x" using V r c by (auto simp: st'_def visible_def less_Suc_eq)
    moreover have "\<forall>x. x \<notin> set (rs @ [next_stack st]) \<longrightarrow> coro_next st' x = 0" using N by (simp add: st'_def)
    moreover have "{x. first < x \<and> x < next_stack st' \<and> \<not> forked st' x} \<subseteq> {next_stack st}"
      using F by (auto simp: st'_def less_Suc_eq)
    moreover have "first < next_stack st \<and> next_stack st < next_stack st' \<and> \<not> forked st' (next_stack st)"
      using r by (simp add: st'_def)
    moreover have "distinct (rs @ [next_stack st])" using L r by simp
    ultimately show ?thesis unfolding coro_lists_def using L by simp
  qed
  moreover have "visible st' c" using c r by (simp add: st'_def visible_def)
  ultimately show ?thesis using c r by auto
qed

lemma coroutine_lists:
  assumes inv: "coro_lists st rs is"
  shows "\<exists>c st' is'. coroutine f st = Some (c, st') \<and> coro_lists st' rs is' \<and> visible st' c \<and> c \<notin> set (rs @ is')"
proof (cases "is")
  case Nil
  with inv have "idle st = 0" by (simp add: coro_lists_def)
  from start_lists inv Nil obtain st1 where st1: "coroutine_start st = Some st1" "coro_lists st1 rs [next_stack st]" by blast
  then have "idle st1 \<noteq> 0" using coro_list_head [of "coro_next st1" "idle st1" "[next_stack st]"] by (simp add: coro_lists_def)
  with st1 \<open>idle st = 0\<close> have "coroutine f st = coroutine f st1" by (simp add: coroutine_def)
  with coroutine_fork [OF st1(2)] show ?thesis by metis
next
  case (Cons c is')
  show ?thesis
  proof (cases "forked st c")
    case True
    with coroutine_reuse inv Cons show ?thesis by blast
  next
    case False
    with inv Cons have "is' = []" by (cases is') (auto simp: coro_lists_def visible_def)
    with coroutine_fork inv Cons show ?thesis by blast
  qed
qed

lemma reachable_lists: "coro_reachable st \<Longrightarrow> \<exists>rs is. coro_lists st rs is"
proof (induction rule: coro_reachable.induct)
  case reach_init
  have "coro_lists coro_init [first] []" by (simp add: coro_lists_def coro_init_def first_def)
  then show ?case by blast
next
  case (reach_step st st')
  from reach_step.IH obtain rs "is" where inv: "coro_lists st rs is" by blast
  from reach_step.hyps(2) show ?case
  proof cases
    case (step_coroutine f c)
    with coroutine_lists [OF inv, of f] show ?thesis by auto
  qed (use resume_lists [OF inv] yield_lists [OF inv] end_lists [OF inv] in blast)+
qed

section \<open>Properties\<close>

text \<open>
  C33: in every state the program can reach by creating coroutines, resuming the ones it was given,
  yielding and returning, a coroutine it was given is resumable exactly when it is on neither list; the
  initial context is at the end of the running list; and creating a coroutine always succeeds and gives
  one that can be resumed.
\<close>

theorem resumable_iff_off_lists:
  assumes "coro_reachable st"
  shows "\<exists>rs is. coro_list (coro_next st) (running st) rs \<and> coro_list (coro_next st) (idle st) is \<and>
    last rs = first \<and> distinct (rs @ is) \<and>
    (\<forall>c. visible st c \<longrightarrow> (resumable c st \<longleftrightarrow> c \<notin> set rs \<and> c \<notin> set is)) \<and>
    (\<forall>f. \<exists>c st'. coroutine f st = Some (c, st') \<and> visible st' c \<and> resumable c st' \<and> running st' = running st)"
proof -
  from reachable_lists [OF assms] obtain rs "is" where inv: "coro_lists st rs is" by blast
  have "\<exists>c st'. coroutine f st = Some (c, st') \<and> visible st' c \<and> resumable c st' \<and> running st' = running st" for f
  proof -
    from coroutine_lists [OF inv, of f] obtain c st' is' where
      c: "coroutine f st = Some (c, st')" "coro_lists st' rs is'" "visible st' c" "c \<notin> set (rs @ is')" by blast
    have "running st' = running st"
      using inv c(2) coro_list_head [of _ _ rs] unfolding coro_lists_def by metis
    with c visible_resumable_iff [OF c(2,3)] show ?thesis by auto
  qed
  then show ?thesis using inv visible_resumable_iff [OF inv] unfolding coro_lists_def by blast
qed

text \<open>After one coroutine has been created and has been resumed, it is running.\<close>

theorem resumable_iff_off_lists_witness:
  "\<exists>c st. coroutine 7 coro_init = Some (c, st) \<and> resumable c st \<and>
     (\<exists>st'. resume c 9 st = Some st' \<and> \<not> resumable c st' \<and> coro_getcur st' = c)"
proof -
  obtain c st where c: "coroutine 7 coro_init = Some (c, st)" "visible st c" "resumable c st"
    using resumable_iff_off_lists [OF reach_init] by blast
  then have "\<exists>st'. resume c 9 st = Some st'" using c(2) by (simp add: coro_defs visible_def first_def)
  then obtain st' where r: "resume c 9 st = Some st'" by blast
  have "coro_reachable st'"
    using reach_init c r by (blast intro: reach_step step_coroutine step_resume)
  from resumable_iff_off_lists [OF this] obtain rs "is" where l: "coro_list (coro_next st') (running st') rs" "last rs = first"
    "\<forall>c. visible st' c \<longrightarrow> (resumable c st' \<longleftrightarrow> c \<notin> set rs \<and> c \<notin> set is)" by blast
  have s: "running st' = c" "visible st' c" using r c by (auto simp: coro_defs visible_def bind_eq_Some_conv split: if_splits)
  then have "c \<noteq> 0" by (simp add: visible_def)
  with l s have "c \<in> set rs" by (cases rs) auto
  with l s c r show ?thesis by (auto simp: coro_getcur_def)
qed

end
