(* ===== verification/FdTable.thy ===== *)
theory FdTable
  imports Vfs
begin

text \<open>
  What the descriptor table of a process (\<^verbatim>\<open>vfs/file.c\<close>) promises to the system calls, as an interface,
  and that the array implementation keeps the promise.
\<close>

section \<open>The interface\<close>

text \<open>
  Looking up a descriptor gives its open file, if there is one; the outer option is a crash. Descriptors
  below \<open>size\<close> are valid.
\<close>

locale descriptor_table =
  fixes look :: "'t \<Rightarrow> int \<Rightarrow> 'f option option"
    and ins :: "'t \<Rightarrow> int \<Rightarrow> 'f option \<Rightarrow> 't option"
    and cls :: "'t \<Rightarrow> int \<Rightarrow> ('f option \<times> 't) option"
    and unused :: "'t \<Rightarrow> (int \<times> int) option"
    and invar :: "'t \<Rightarrow> bool"
    and size :: int
  assumes look_valid: "invar t \<Longrightarrow> 0 \<le> fd \<Longrightarrow> fd < size \<Longrightarrow> look t fd \<noteq> None"
    and look_inject: "invar t \<Longrightarrow> invar u \<Longrightarrow> (\<And>fd. 0 \<le> fd \<Longrightarrow> fd < size \<Longrightarrow> look t fd = look u fd) \<Longrightarrow> t = u"
    and unused_free: "invar t \<Longrightarrow> (\<exists>fd. unused t = Some (0, fd) \<and> 0 \<le> fd \<and> fd < size \<and> look t fd = Some None) \<or>
      (\<exists>fd. unused t = Some (1, fd) \<and> (\<forall>i. 0 \<le> i \<and> i < size \<longrightarrow> look t i \<noteq> Some None))"
    and ins_free: "invar t \<Longrightarrow> 0 \<le> fd \<Longrightarrow> fd < size \<Longrightarrow> look t fd = Some None \<Longrightarrow>
      \<exists>u. ins t fd (Some f) = Some u \<and> invar u \<and> (\<forall>i. look u i = (if i = fd then Some (Some f) else look t i))"
    and cls_used: "invar t \<Longrightarrow> 0 \<le> fd \<Longrightarrow> fd < size \<Longrightarrow> look t fd = Some (Some f) \<Longrightarrow>
      \<exists>u. cls t fd = Some (Some f, u) \<and> invar u \<and> (\<forall>i. look u i = (if i = fd then Some None else look t i))"
    and cls_free: "invar t \<Longrightarrow> look t fd = Some None \<Longrightarrow> cls t fd = Some (None, t)"
begin

text \<open>A client that takes an unused descriptor can store a file there, and closing it undoes that.\<close>

lemma open_close:
  assumes t: "invar t" and fd: "unused t = Some (0, fd)"
  shows "0 \<le> fd \<and> fd < size \<and> (\<exists>u. ins t fd (Some f) = Some u \<and> invar u \<and> look u fd = Some (Some f) \<and>
    (\<forall>i. i \<noteq> fd \<longrightarrow> look u i = look t i) \<and> cls u fd = Some (Some f, t))"
proof -
  from unused_free [OF t] fd have r: "0 \<le> fd" "fd < size" "look t fd = Some None" by auto
  from ins_free [OF t r] obtain u where u: "ins t fd (Some f) = Some u" "invar u"
    "\<forall>i. look u i = (if i = fd then Some (Some f) else look t i)" by blast
  have "look u fd = Some (Some f)" using u(3) by simp
  from cls_used [OF u(2) r(1,2) this] obtain v where v: "cls u fd = Some (Some f, v)" "invar v"
    "\<forall>i. look v i = (if i = fd then Some None else look u i)" by blast
  have eq: "look v i = look t i" for i
    using v(3) [rule_format, of i] u(3) [rule_format, of i] r(3) by (cases "i = fd") simp_all
  have "v = t" by (rule look_inject [OF v(2) t]) (rule eq)
  moreover have "\<forall>i. i \<noteq> fd \<longrightarrow> look u i = look t i" using u(3) by simp
  ultimately show ?thesis using u(1,2) v(1) r(1,2) \<open>look u fd = Some (Some f)\<close> by blast
qed

text \<open>There is an unused descriptor unless all are in use.\<close>

lemma unused_iff:
  assumes "invar t"
  shows "(\<exists>fd. unused t = Some (0, fd)) \<longleftrightarrow> (\<exists>i. 0 \<le> i \<and> i < size \<and> look t i = Some None)"
  using unused_free [OF assms] by fastforce

end

section \<open>The array implementation\<close>

definition fdtable_ok :: "file_t option list \<Rightarrow> bool" where
  "fdtable_ok t \<longleftrightarrow> length t = PROCESS_MAX_FILES"

lemma fdtable_get_eq:
  "fdtable_ok t \<Longrightarrow> fdtable_get t fd = (if fd < 0 \<or> 16 < fd then Some None else if fd = 16 then None else Some (t ! nat fd))"
  by (auto simp: fdtable_get_def fdtable_ok_def PROCESS_MAX_FILES_def ISINRANGE_iff arr_get_def)

lemma unused_index_spec:
  assumes "length t = i + n"
  shows "(\<exists>k. i \<le> k \<and> k < i + n \<and> t ! k = None \<and> unused_index t n i = Some (int k)) \<or>
    ((\<forall>k. i \<le> k \<and> k < i + n \<longrightarrow> t ! k \<noteq> None) \<and> unused_index t n i = Some (- 1))"
  using assms
proof (induction n arbitrary: i)
  case (Suc n)
  show ?case
  proof (cases "t ! i")
    case None
    with Suc.prems show ?thesis by (intro disjI1 exI [of _ i]) simp
  next
    case (Some f)
    have "length t = Suc i + n" using Suc.prems by simp
    from Suc.IH [OF this] show ?thesis
    proof (elim disjE exE conjE)
      fix k
      assume "Suc i \<le> k" "k < Suc i + n" "t ! k = None" "unused_index t n (Suc i) = Some (int k)"
      with Some Suc.prems show ?thesis by (intro disjI1 exI [of _ k]) simp
    next
      assume all: "\<forall>k. Suc i \<le> k \<and> k < Suc i + n \<longrightarrow> t ! k \<noteq> None" and r: "unused_index t n (Suc i) = Some (- 1)"
      have "t ! k \<noteq> None" if "i \<le> k" "k < i + Suc n" for k using all Some that by (cases "k = i") auto
      with r Some Suc.prems show ?thesis by simp
    qed
  qed
qed auto

lemma fdtable_unused:
  assumes t: "fdtable_ok t"
  shows "(\<exists>fd. fdtable_get_unused_fd t = Some (0, fd) \<and> 0 \<le> fd \<and> fd < 16 \<and> fdtable_get t fd = Some None) \<or>
    (\<exists>fd. fdtable_get_unused_fd t = Some (1, fd) \<and> (\<forall>i. 0 \<le> i \<and> i < 16 \<longrightarrow> fdtable_get t i \<noteq> Some None))"
proof -
  have len: "length t = 0 + 16" using t by (simp add: fdtable_ok_def PROCESS_MAX_FILES_def)
  note un = fdtable_get_unused_fd_def fdtable_next_unused_index_def PROCESS_MAX_FILES_def
  from unused_index_spec [OF len] show ?thesis
  proof (elim disjE exE conjE)
    fix k
    assume "k < 0 + 16" "t ! k = None" "unused_index t 16 0 = Some (int k)"
    then show ?thesis by (intro disjI1 exI [of _ "int k"]) (simp add: un fdtable_get_eq [OF t])
  next
    assume all: "\<forall>k. 0 \<le> k \<and> k < 0 + 16 \<longrightarrow> t ! k \<noteq> None" and r: "unused_index t 16 0 = Some (- 1)"
    have "fdtable_get t i \<noteq> Some None" if "0 \<le> i" "i < 16" for i
      using all [rule_format, of "nat i"] that by (simp add: fdtable_get_eq [OF t])
    with r show ?thesis by (intro disjI2 exI [of _ "- 1"]) (simp add: un)
  qed
qed

interpretation fd: descriptor_table fdtable_get fdtable_insert fdtable_close_fd fdtable_get_unused_fd fdtable_ok 16
proof
  fix t u :: "file_t option list" and fd :: int and f
  assume t: "fdtable_ok t"
  then have len: "length t = 16" by (simp add: fdtable_ok_def PROCESS_MAX_FILES_def)
  show "0 \<le> fd \<Longrightarrow> fd < 16 \<Longrightarrow> fdtable_get t fd \<noteq> None" using fdtable_get_eq [OF t] by simp
  show "t = u" if u: "fdtable_ok u" and eq: "\<And>fd. 0 \<le> fd \<Longrightarrow> fd < 16 \<Longrightarrow> fdtable_get t fd = fdtable_get u fd"
  proof (rule nth_equalityI)
    show "length t = length u" using t u by (simp add: fdtable_ok_def)
    fix i
    assume "i < length t"
    with eq [of "int i"] fdtable_get_eq [OF t] fdtable_get_eq [OF u] len show "t ! i = u ! i" by simp
  qed
  show "(\<exists>fd. fdtable_get_unused_fd t = Some (0, fd) \<and> 0 \<le> fd \<and> fd < 16 \<and> fdtable_get t fd = Some None) \<or>
      (\<exists>fd. fdtable_get_unused_fd t = Some (1, fd) \<and> (\<forall>i. 0 \<le> i \<and> i < 16 \<longrightarrow> fdtable_get t i \<noteq> Some None))"
    by (rule fdtable_unused [OF t])
  show "\<exists>u. fdtable_insert t fd (Some f) = Some u \<and> fdtable_ok u \<and>
      (\<forall>i. fdtable_get u i = (if i = fd then Some (Some f) else fdtable_get t i))"
    if "0 \<le> fd" "fd < 16" "fdtable_get t fd = Some None"
  proof -
    have ok: "fdtable_ok (t[nat fd := Some f])" using t by (simp add: fdtable_ok_def)
    have "t ! nat fd = None" using that fdtable_get_eq [OF t] by simp
    then have "fdtable_insert t fd (Some f) = Some (t[nat fd := Some f])"
      using that len by (simp add: fdtable_insert_def arr_get_def arr_set_def)
    then show ?thesis using ok that fdtable_get_eq [OF t] fdtable_get_eq [OF ok] len by auto
  qed
  show "\<exists>u. fdtable_close_fd t fd = Some (Some f, u) \<and> fdtable_ok u \<and>
      (\<forall>i. fdtable_get u i = (if i = fd then Some None else fdtable_get t i))"
    if "0 \<le> fd" "fd < 16" "fdtable_get t fd = Some (Some f)"
  proof -
    have ok: "fdtable_ok (t[nat fd := None])" using t by (simp add: fdtable_ok_def)
    have "t ! nat fd = Some f" using that fdtable_get_eq [OF t] by simp
    then have "fdtable_close_fd t fd = Some (Some f, t[nat fd := None])"
      using that len by (simp add: fdtable_close_fd_def arr_get_def arr_set_def PROCESS_MAX_FILES_def ISINRANGE_iff)
    then show ?thesis using ok that fdtable_get_eq [OF t] fdtable_get_eq [OF ok] len by auto
  qed
  show "fdtable_close_fd t fd = Some (None, t)" if "fdtable_get t fd = Some None"
    using that by (auto simp: fdtable_close_fd_def fdtable_get_def split: if_splits)
qed

text \<open>
  C38: the operations on a descriptor table keep its shape and agree with each other. Unless all
  sixteen descriptors are in use, \<^verbatim>\<open>fdtable_get_unused_fd\<close> finds one; inserting a file there hits no
  assertion, changes the lookup of that descriptor only, and closing the descriptor returns the
  file and restores the table.
\<close>

theorem fdtable_operations:
  assumes "fdtable_ok t"
  shows "((\<exists>fd. fdtable_get_unused_fd t = Some (0, fd)) \<longleftrightarrow> (\<exists>i. 0 \<le> i \<and> i < 16 \<and> fdtable_get t i = Some None)) \<and>
    (\<forall>fd f. fdtable_get_unused_fd t = Some (0, fd) \<longrightarrow>
      (\<exists>u. fdtable_insert t fd (Some f) = Some u \<and> fdtable_ok u \<and> fdtable_get u fd = Some (Some f) \<and>
        (\<forall>i. i \<noteq> fd \<longrightarrow> fdtable_get u i = fdtable_get t i) \<and> fdtable_close_fd u fd = Some (Some f, t)))"
  using fd.unused_iff [OF assms] fd.open_close [OF assms] by blast

theorem fdtable_operations_witness:
  "\<exists>u. fdtable_insert (replicate 16 None) 0 (Some \<lparr>fp = 0, vn = 3, mode = O_RDONLY\<rparr>) = Some u \<and>
     fdtable_close_fd u 0 = Some (Some \<lparr>fp = 0, vn = 3, mode = O_RDONLY\<rparr>, replicate 16 None)"
proof -
  have ok: "fdtable_ok (replicate 16 None)" by (simp add: fdtable_ok_def PROCESS_MAX_FILES_def)
  have "fdtable_get_unused_fd (replicate 16 None) = Some (0, 0)" by code_simp
  with fdtable_operations [OF ok] show ?thesis by blast
qed

end
