(* ===== verification/Dispatch.thy ===== *)
theory Dispatch
  imports Syscalls FdTable ProcTree
begin

text \<open>
  The error paths of the system call dispatcher (\<^verbatim>\<open>syscall/syscall.c\<close>), from the message of the client
  to the reply.
\<close>

section \<open>Lemmas\<close>

text \<open>The calls the dispatcher makes before it looks at the number: reading it and saving the reply capability.\<close>

abbreviation entry_log :: "sos \<Rightarrow> kcall list" where
  "entry_log s \<equiv> K_save_reply # K_get_mr 0 # klog s"

abbreviation syscall_number_of :: "sos_env \<Rightarrow> sos \<Rightarrow> u32" where
  "syscall_number_of E s \<equiv> answer E (klog s) (K_get_mr 0)"

abbreviation reply_cap_of :: "sos_env \<Rightarrow> sos \<Rightarrow> u32" where
  "reply_cap_of E s \<equiv> answer E (K_get_mr 0 # klog s) K_save_reply"

lemma get_proc_klog [simp]: "get_proc p (s\<lparr>klog := l\<rparr>) = get_proc p s"
  by (simp add: get_proc_def)

lemma proc_at_klog [simp]: "proc_at p (s\<lparr>klog := l\<rparr>) = proc_at p s"
  by (simp add: proc_at_def)

lemma proc_at_of_get_proc: "get_proc p s = Some (Some pr) \<Longrightarrow> proc_at p s = Some pr"
  by (simp add: get_proc_def proc_at_def split: if_splits)

lemma upd_proc_eq:
  "proc_at p s = Some pr \<Longrightarrow> upd_proc p f s = Some (s\<lparr>sos_procs := (sos_procs s)[nat p := Some (f pr)]\<rparr>)"
  using proc_at_range [of p s pr] by (simp add: upd_proc_def set_proc_def arr_set_def)

lemma proc_at_updated:
  assumes "proc_at p s = Some pr"
  shows "proc_at p (s\<lparr>sos_procs := (sos_procs s)[nat p := Some q]\<rparr>) = Some q"
  unfolding proc_at_def arr_get_def using proc_at_range [OF assms] by simp

lemma block_proc_eq:
  assumes "proc_at p s = Some pr"
  shows "block_proc p s = Some (s\<lparr>sos_procs := (sos_procs s)[nat p := Some (pr\<lparr>p_state := BLOCKED, blocked_ref := blocked_ref pr + 1\<rparr>)]\<rparr>)"
  by (simp add: block_proc_def proc_mark_def upd_proc_eq [OF assms] upd_proc_eq [OF proc_at_updated [OF assms]])

lemma unblock_proc_eq:
  assumes "proc_at p s = Some pr"
  shows "unblock_proc p s = Some (s\<lparr>sos_procs := (sos_procs s)[nat p := Some (pr\<lparr>p_state := RUNNING, blocked_ref := blocked_ref pr - 1\<rparr>)]\<rparr>)"
  by (simp add: unblock_proc_def proc_mark_def upd_proc_eq [OF assms] upd_proc_eq [OF proc_at_updated [OF assms]])

lemma table_length [simp]: "length (syscall_table hdr) = 15"
  by (simp add: syscall_table_def)

lemma slot_same:
  assumes "proc_at p s = Some pr"
  shows "(sos_procs s)[nat p := Some pr] = sos_procs s"
proof -
  have "sos_procs s ! nat p = Some pr"
    using assms proc_at_range [OF assms] unfolding proc_at_def arr_get_def by simp
  then show ?thesis by (metis list_update_id)
qed

section \<open>Unknown system calls\<close>

text \<open>
  A request with a number that is not in the table changes nothing in the server: the client gets a
  reply of one word, which is -1, and the saved reply capability is released.
\<close>

lemma handle_syscall_unknown:
  assumes "get_proc (sint caller) s = Some (Some pr)" "14 < syscall_number_of E s" "reply_cap_of E s \<noteq> 0"
  shows "handle_syscall E hdr caller s =
    Some (s\<lparr>klog := [K_free_slot (reply_cap_of E s), K_send (reply_cap_of E s) 1, K_set_mr 0 (- 1)] @ entry_log s\<rparr>)"
proof -
  have "\<not> syscall_number_of E s \<le> of_nat (length (syscall_table hdr)) - 1" using assms(2) by (simp add: not_le)
  then show ?thesis
    unfolding handle_syscall_def get_mr_def ask_def Let_def prod.case get_proc_klog assms(1)
    using assms(3) by (simp del: table_length add: set_mr_def ask_def)
qed

definition asking :: "u32 \<Rightarrow> u32 \<Rightarrow> sos_env" where
  "asking n arg = failing_server\<lparr>answer := (\<lambda>_ c. if c = K_get_mr 0 then n else if c = K_get_mr 1 then arg else if c = K_save_reply then 9 else 0)\<rparr>"

definition example_client :: sos where
  "example_client = initial_sos\<lparr>sos_procs := Some (example_proc\<lparr>file_table := Some (replicate 16 None)\<rparr>) # replicate 15 None\<rparr>"

lemma example_client_proc: "get_proc 0 example_client = Some (Some (example_proc\<lparr>file_table := Some (replicate 16 None)\<rparr>))"
  by (simp add: get_proc_def ISINRANGE_iff arr_get_def example_client_def MAX_PROCS_def)

section \<open>Closing a descriptor that is not open\<close>

lemma syscall_close_invalid:
  assumes "proc_at p s = Some pr" "file_table pr = Some t" "fd = answer E (klog s) (K_get_mr 1)"
  shows "fdtable_ok t \<Longrightarrow> fdtable_get t (sint fd) = Some None \<Longrightarrow>
      syscall_close E p s = Some (1, s\<lparr>klog := K_set_mr 0 (- 1) # K_get_mr 1 # klog s\<rparr>)"
    and "fdtable_ok t \<Longrightarrow> sint fd = 16 \<Longrightarrow> syscall_close E p s = None"
proof -
  have eq: "syscall_close E p s = fdtable_close_fd t (sint fd) \<bind> (\<lambda>(f, u). case f of
      None \<Rightarrow> message_reply E (- 1) (s\<lparr>klog := K_get_mr 1 # klog s\<rparr>)
    | Some f \<Rightarrow> set_fdtable p u (s\<lparr>klog := K_get_mr 1 # klog s\<rparr>) \<bind> (\<lambda>s. file_close f s \<bind> message_reply E 0))"
    using assms by (simp add: syscall_close_def get_mr_def ask_def proc_fdtable_def del: One_nat_def)
  show "syscall_close E p s = Some (1, s\<lparr>klog := K_set_mr 0 (- 1) # K_get_mr 1 # klog s\<rparr>)"
    if "fdtable_ok t" "fdtable_get t (sint fd) = Some None"
    unfolding eq fd.cls_free [OF that] by (simp add: message_reply_def set_mr_def ask_def)
  show "syscall_close E p s = None" if "fdtable_ok t" "sint fd = 16"
    unfolding eq that(2) using that(1)
    by (simp add: fdtable_close_fd_def ISINRANGE_iff arr_get_def fdtable_ok_def PROCESS_MAX_FILES_def)
qed

lemma handle_syscall_close:
  assumes "get_proc (sint caller) s = Some (Some pr)" "syscall_number_of E s = 3" "reply_cap_of E s \<noteq> 0"
  defines "s1 \<equiv> s\<lparr>klog := entry_log s, sos_procs := (sos_procs s)[nat (sint caller) := Some (pr\<lparr>p_state := BLOCKED, blocked_ref := blocked_ref pr + 1\<rparr>)]\<rparr>"
  shows "syscall_close E (sint caller) s1 = None \<Longrightarrow> handle_syscall E hdr caller s = None"
    and "syscall_close E (sint caller) s1 = Some (1, s1\<lparr>klog := l\<rparr>) \<Longrightarrow> p_state pr = RUNNING \<Longrightarrow> \<not> kill_flag pr \<Longrightarrow>
      handle_syscall E hdr caller s = Some (s\<lparr>klog := K_free_slot (reply_cap_of E s) # K_send (reply_cap_of E s) 1 # l\<rparr>)"
proof -
  let ?p = "sint caller" and ?s0 = "s\<lparr>klog := entry_log s\<rparr>"
  have at: "proc_at ?p s = Some pr" by (rule proc_at_of_get_proc [OF assms(1)])
  have number: "(3 :: u32) \<le> of_nat (length (syscall_table hdr)) - 1"
    and handler: "arr_get (syscall_table hdr) (uint (3 :: u32)) = Some syscall_close"
    by (simp_all add: syscall_table_def arr_get_def)
  have block: "block_proc ?p ?s0 = Some s1" using at block_proc_eq [of ?p ?s0 pr] by (simp add: s1_def)
  note unfold = handle_syscall_def get_mr_def ask_def Let_def prod.case get_proc_klog assms(1) assms(2)
    if_P [OF number] handler bind.bind_lunit
  show "handle_syscall E hdr caller s = None" if "syscall_close E ?p s1 = None"
    unfolding unfold using assms(3) by (simp del: table_length One_nat_def add: block that)
  show "handle_syscall E hdr caller s = Some (s\<lparr>klog := K_free_slot (reply_cap_of E s) # K_send (reply_cap_of E s) 1 # l\<rparr>)"
    if close: "syscall_close E ?p s1 = Some (1, s1\<lparr>klog := l\<rparr>)" and run: "p_state pr = RUNNING" "\<not> kill_flag pr"
  proof -
    let ?q = "pr\<lparr>p_state := BLOCKED, blocked_ref := blocked_ref pr + 1\<rparr>"
    have q: "proc_at ?p (s1\<lparr>klog := l\<rparr>) = Some ?q" 
      using proc_at_updated [OF at, of ?q] by (simp add: s1_def proc_at_def)
    have "?q\<lparr>p_state := RUNNING, blocked_ref := blocked_ref ?q - 1\<rparr> = pr" using run(1) by simp
    then have unblock: "unblock_proc ?p (s1\<lparr>klog := l\<rparr>) = Some (s\<lparr>klog := l\<rparr>)"
      using unblock_proc_eq [OF q] slot_same [OF at] by (simp add: s1_def)
    show ?thesis unfolding unfold using assms(3) run(2)
      by (simp del: table_length One_nat_def add: block close unblock at)
  qed
qed

text \<open>
  C39: closing a descriptor that is out of range or not open leaves the server as it was and replies
  -1. The number one past the table is not caught by the range test: the handler reads past the
  end of the descriptor table, so any process can do this to the server.
\<close>

theorem handle_syscall_close_invalid:
  assumes "get_proc (sint caller) s = Some (Some pr)" "p_state pr = RUNNING" "\<not> kill_flag pr"
    and "file_table pr = Some t" "fdtable_ok t" "syscall_number_of E s = 3" "reply_cap_of E s \<noteq> 0"
    and "fd = sint (answer E (entry_log s) (K_get_mr 1))"
  shows "(fdtable_get t fd = Some None \<longrightarrow> handle_syscall E hdr caller s =
      Some (s\<lparr>klog := [K_free_slot (reply_cap_of E s), K_send (reply_cap_of E s) 1, K_set_mr 0 (- 1), K_get_mr 1] @ entry_log s\<rparr>)) \<and>
    (fd = 16 \<longrightarrow> handle_syscall E hdr caller s = None)"
proof -
  let ?q = "pr\<lparr>p_state := BLOCKED, blocked_ref := blocked_ref pr + 1\<rparr>"
  let ?s1 = "s\<lparr>klog := entry_log s, sos_procs := (sos_procs s)[nat (sint caller) := Some ?q]\<rparr>"
  have "proc_at (sint caller) ?s1 = Some ?q"
    using proc_at_updated [OF proc_at_of_get_proc [OF assms(1)]] by (simp add: proc_at_def)
  note close = syscall_close_invalid [OF this, where E = E, simplified, OF assms(4) refl assms(5)]
  note handle = handle_syscall_close [OF assms(1,6,7)]
  show ?thesis using close handle(1) handle(2) [OF _ assms(2,3)] assms(8) by simp
qed

theorem handle_syscall_close_invalid_witness:
  "handle_syscall (asking 3 5) 0 0 example_client =
     Some (example_client\<lparr>klog := [K_free_slot 9, K_send 9 1, K_set_mr 0 (- 1), K_get_mr 1, K_save_reply, K_get_mr 0]\<rparr>) \<and>
   handle_syscall (asking 3 16) 0 0 example_client = None"
proof -
  have t: "fdtable_ok (replicate 16 None)" by (simp add: fdtable_ok_def PROCESS_MAX_FILES_def)
  have "klog example_client = []" by (simp add: example_client_def initial_sos_def)
  then show ?thesis
    using handle_syscall_close_invalid [of 0 example_client _ "replicate 16 None" "asking 3 5" 5 0]
      handle_syscall_close_invalid [of 0 example_client _ "replicate 16 None" "asking 3 16" 16 0]
      example_client_proc t fdtable_get_eq [OF t, of 5]
    by (simp add: asking_def example_proc_def)
qed

end
