(* ===== verification/Boot.thy ===== *)
theory Boot
  imports Events Dma UtTable UtAlloc_Sub
begin

text \<open>
  Bringing the server up (\<^verbatim>\<open>main.c\<close>): memory set aside before the untyped allocator gets the rest, and
  the order in which the subsystems are initialised. Every \<^verbatim>\<open>conditional_panic\<close> is an assertion.
\<close>

section \<open>Definitions\<close>

definition CLOCK_GPT :: u32 where "CLOCK_GPT = 0x2098000"
definition CLOCK_GPT_SIZE :: u32 where "CLOCK_GPT_SIZE = 4 * 10"

text \<open>
  The first half of \<^verbatim>\<open>sos_init\<close>: memory for DMA, the page file bitmap and the frame table is taken from
  the start of the untyped range. The result is the three addresses with the sizes of the last two, and
  the range that is left.
\<close>

definition reserve_memory :: "ut_table \<Rightarrow> (u32 \<times> u32 \<times> nat \<times> u32 \<times> nat \<times> u32 \<times> u32 \<times> ut_table) option" where
  "reserve_memory ut = do {
     let (dma_addr, ut) = ut_steal_mem DMA_SIZE_BITS ut;
     c_assert (dma_addr \<noteq> 0);
     let pagefile_table_size_in_bits = LOG_BASE_2 (nearest_power_of_two (PAGEFILE_MAX_PAGES div 8));
     let (pagefile_metadata_table, ut) = ut_steal_mem pagefile_table_size_in_bits ut;
     c_assert (pagefile_metadata_table \<noteq> 0);
     let (low, high) = ut_find_memory ut;
     let n_pages = BYTES_TO_4K_PAGES (high - low);
     let frame_table_size_in_bits = LOG_BASE_2 (nearest_power_of_two (16 * n_pages));
     let (frame_table_paddr, ut) = ut_steal_mem frame_table_size_in_bits ut;
     c_assert (frame_table_paddr \<noteq> 0);
     let (low, high) = ut_find_memory ut;
     Some (dma_addr, pagefile_metadata_table, pagefile_table_size_in_bits,
           frame_table_paddr, frame_table_size_in_bits, low, high, ut) }"

text \<open>
  The network driver maps its device memory first; \<open>virt\<close> is the address in the device window that it
  leaves for the timer. The badged capability is handed to the timer driver's interrupt set-up, whose
  answer the clock environment gives.
\<close>

definition sos_driver_init :: "sos_env \<Rightarrow> u32 \<Rightarrow> sos \<Rightarrow> sos option" where
  "sos_driver_init E virt s = do {
     (network_cap, s) \<leftarrow> badge_irq_ep E (sos_interrupt_ep_cap s) IRQ_BADGE_NETWORK s;
     let s = snd (ask E (K_network_init network_cap) s);
     (vaddr, _, s) \<leftarrow> map_device E CLOCK_GPT CLOCK_GPT_SIZE virt s;
     let s = s\<lparr>clock := init_timer (clk_env E) vaddr (clock s)\<rparr>;
     (_, s) \<leftarrow> badge_irq_ep E (sos_interrupt_ep_cap s) IRQ_BADGE_TIMER s;
     (err, clk) \<leftarrow> start_timer (clk_env E) (clock s);
     c_assert (err = 0);
     Some (s\<lparr>clock := clk\<rparr>) }"

text \<open>
  The C library's \<^verbatim>\<open>qsort\<close>, the boot information of the kernel, the success of the allocator's
  \<^verbatim>\<open>malloc\<close> calls and the content of fresh memory are parameters.
\<close>

definition sos_init ::
  "sos_env \<Rightarrow> ((int \<Rightarrow> int \<Rightarrow> int) \<Rightarrow> int list \<Rightarrow> int list) \<Rightarrow> seL4_BootInfo option \<Rightarrow> (nat \<Rightarrow> bool) \<Rightarrow> u32 \<Rightarrow> ring_buffer_t \<Rightarrow>
   ut_table \<Rightarrow> dma_state \<Rightarrow> sos \<Rightarrow> (ut_table \<times> dma_state \<times> sos) option" where
  "sos_init E qsort boot_info mok virt junk ut d s = do {
     c_assert (boot_info \<noteq> None);
     (err, ut) \<leftarrow> ut_table_init qsort boot_info ut;
     c_assert (err = 0);
     (dma_addr, pagefile_table, pagefile_bits, frame_table_paddr, frame_table_bits, low, high, ut) \<leftarrow> reserve_memory ut;
     allocator \<leftarrow> ut_allocator_init mok low high (ut_state s);
     let s = s\<lparr>ut_state := allocator\<rparr>;
     let (err, s) = ask E K_cspace_bootstrap s;
     c_assert (err = 0);
     (err, d, s) \<leftarrow> dma_init E dma_addr DMA_SIZE_BITS d s;
     c_assert (err = 0);
     (err, s) \<leftarrow> frame_table_init E frame_table_paddr frame_table_bits low high s;
     c_assert (err = 0);
     s \<leftarrow> sos_ipc_init E s;
     let (err, s) = vfs_init E s;
     c_assert (err = 0);
     s \<leftarrow> sos_driver_init E virt s;
     let (err, s) = sos_serial_init E junk s;
     c_assert (err = 0);
     (err, s) \<leftarrow> sos_nfs_init E s;
     c_assert (err = 0);
     (err, s) \<leftarrow> init_pager E pagefile_table pagefile_bits s;
     c_assert (err = 0);
     Some (ut, d, s) }"

text \<open>Up to the call of \<^verbatim>\<open>event_loop\<close>, which is a relation on states.\<close>

definition main ::
  "sos_env \<Rightarrow> ((int \<Rightarrow> int \<Rightarrow> int) \<Rightarrow> int list \<Rightarrow> int list) \<Rightarrow> seL4_BootInfo option \<Rightarrow> (nat \<Rightarrow> bool) \<Rightarrow> u32 \<Rightarrow> ring_buffer_t \<Rightarrow>
   ut_table \<Rightarrow> dma_state \<Rightarrow> sos \<Rightarrow> (ut_table \<times> dma_state \<times> sos) option" where
  "main E qsort boot_info mok virt junk ut d s = do {
     (ut, d, s) \<leftarrow> sos_init E qsort boot_info mok virt junk ut d s;
     (init, s) \<leftarrow> proc_bootstrap E s;
     c_assert (init = 0);
     Some (ut, d, s) }"

section \<open>The reserved areas\<close>

lemma LOG_BASE_2_power:
  assumes "unat x = 2 ^ k" "k \<le> 31"
  shows "LOG_BASE_2 x = k"
proof -
  have "x = 2 ^ k" using assms unat_two_exp [of k] by (simp add: word_unat_eq_iff)
  moreover have "\<forall>k\<in>set [0..<32]. LOG_BASE_2 (2 ^ k) = k" by code_simp
  ultimately show ?thesis using assms(2) by simp
qed

text \<open>The size in bits of a table of \<open>v\<close> bytes.\<close>

lemma table_bits:
  assumes "2 \<le> unat v" "unat v \<le> 2 ^ 31"
  defines "k \<equiv> LOG_BASE_2 (nearest_power_of_two v)"
  shows "k \<le> 31" "2 ^ (k - 1) < unat v" "unat v \<le> 2 ^ k"
proof -
  from nearest_power_of_two_spec [OF assms(1,2)] obtain j
    where "j \<le> 31" "unat (nearest_power_of_two v) = 2 ^ j" "2 ^ (j - 1) < unat v" "unat v \<le> 2 ^ j" by blast
  moreover from this have "k = j" unfolding k_def by (intro LOG_BASE_2_power)
  ultimately show "k \<le> 31" "2 ^ (k - 1) < unat v" "unat v \<le> 2 ^ k" by simp_all
qed

lemma pagefile_bits: "LOG_BASE_2 (nearest_power_of_two (PAGEFILE_MAX_PAGES div 8)) = 12"
  by code_simp

lemma frame_table_bytes:
  assumes "unat b \<le> 2 ^ 31"
  shows "unat (16 * BYTES_TO_4K_PAGES b) = 16 * (unat b div 4096 + (if unat b mod 4096 > 0 then 1 else 0))"
proof -
  have "(0 < b mod 4096) = (0 < unat b mod 4096)" by (simp add: word_less_nat_alt unat_mod)
  moreover have "unat b div 4096 \<le> 2 ^ 19" using assms by simp
  ultimately show ?thesis by (simp add: BYTES_TO_4K_PAGES_def PAGE_SIZE_4K_def PAGE_BITS_4K_def BIT_def unat_word_ariths unat_div)
qed

text \<open>Taking a block that is there.\<close>

lemma steal_block:
  assumes "s \<le> 30" "unat (ut_high ut) \<le> 2 ^ 31" "unat (ut_low ut) \<le> unat (ut_high ut)"
    and "ut_steal_mem s ut = (paddr, ut')" "paddr \<noteq> 0"
  shows "unat paddr mod 2 ^ s = 0" "unat (ut_low ut) \<le> unat paddr" "unat (ut_low ut') = unat paddr + 2 ^ s"
    "unat (ut_low ut') \<le> unat (ut_high ut')" "ut_high ut' = ut_high ut"
proof -
  have "(2 :: nat) ^ s \<le> 2 ^ 30" using assms(1) by (intro power_increasing) simp_all
  then have "unat (ut_low ut) + 2 * 2 ^ s \<le> 2 ^ 32" using assms(2,3) by simp
  from ut_steal_mem_spec [OF _ this assms(4)] assms(1,5)
  show "unat paddr mod 2 ^ s = 0" "unat (ut_low ut) \<le> unat paddr" "unat (ut_low ut') = unat paddr + 2 ^ s"
    "unat (ut_low ut') \<le> unat (ut_high ut')" "ut_high ut' = ut_high ut" by auto
qed

lemma frame_table_bits:
  assumes "unat b \<le> 2 ^ 31" "0 < unat b"
  defines "k \<equiv> LOG_BASE_2 (nearest_power_of_two (16 * BYTES_TO_4K_PAGES b))"
  shows "k \<le> 30" "unat b \<le> 256 * 2 ^ k" "2 ^ 21 < unat b \<Longrightarrow> 14 \<le> k"
proof -
  let ?v = "16 * BYTES_TO_4K_PAGES b"
  note v = frame_table_bytes [OF assms(1)]
  have split: "unat b = unat b div 4096 * 4096 + unat b mod 4096" "unat b mod 4096 < 4096" by simp_all
  have up: "unat b \<le> 256 * unat ?v" using split unfolding v by (auto split: if_splits)
  have "unat b div 4096 \<le> 2 ^ 19" using assms(1) by simp
  then have hi: "unat ?v \<le> 2 ^ 24" unfolding v by simp
  have lo: "2 \<le> unat ?v" using up assms(2) v by auto
  note k = table_bits [OF lo order_trans [OF hi], simplified, folded k_def]
  show "unat b \<le> 256 * 2 ^ k" using up k(3) by simp
  show "k \<le> 30"
  proof (rule ccontr)
    assume "\<not> k \<le> 30"
    then have "(2 :: nat) ^ 30 \<le> 2 ^ (k - 1)" by (intro power_increasing) simp_all
    with k(2) hi show False by simp
  qed
  show "14 \<le> k" if "2 ^ 21 < unat b"
  proof (rule ccontr)
    assume "\<not> 14 \<le> k"
    then have "(2 :: nat) ^ k \<le> 2 ^ 13" by (intro power_increasing) simp_all
    with up k(3) that show False by simp
  qed
qed

text \<open>An address after an aligned block of at least a slab is the start of a slab.\<close>

lemma FLOOR14_after:
  assumes "unat p mod 2 ^ k = 0" "unat low = unat p + 2 ^ k" "14 \<le> k"
  shows "FLOOR14 low = low"
proof -
  have "(2 :: nat) ^ 14 dvd 2 ^ k" using assms(3) by (rule le_imp_power_dvd)
  moreover have "2 ^ k dvd unat low" using assms(1,2) by (simp add: mod_eq_0_iff_dvd)
  ultimately have "2 ^ 14 dvd unat low" by (rule dvd_trans)
  then show ?thesis unfolding FLOOR14_def word_unat_eq_iff unat_word_align by (rule dvd_div_mult_self)
qed

lemma reserve_memory_elim:
  assumes "reserve_memory ut = Some (dma, pf, pb, ft, fb, low, high, ut')"
  obtains u1 u2
  where "ut_steal_mem DMA_SIZE_BITS ut = (dma, u1)" "dma \<noteq> 0" "ut_steal_mem 12 u1 = (pf, u2)" "pf \<noteq> 0"
    "ut_steal_mem fb u2 = (ft, ut')" "ft \<noteq> 0" "pb = 12"
    "fb = LOG_BASE_2 (nearest_power_of_two (16 * BYTES_TO_4K_PAGES (ut_high u2 - ut_low u2)))"
    "low = ut_low ut'" "high = ut_high ut'"
proof -
  obtain a1 u1 where s1: "ut_steal_mem DMA_SIZE_BITS ut = (a1, u1)" by (rule prod.exhaust)
  obtain a2 u2 where s2: "ut_steal_mem 12 u1 = (a2, u2)" by (rule prod.exhaust)
  let ?k = "LOG_BASE_2 (nearest_power_of_two (16 * BYTES_TO_4K_PAGES (ut_high u2 - ut_low u2)))"
  obtain a3 u3 where s3: "ut_steal_mem ?k u2 = (a3, u3)" by (rule prod.exhaust)
  have "a1 \<noteq> 0 \<and> a2 \<noteq> 0 \<and> a3 \<noteq> 0 \<and> (a1, a2, 12, a3, ?k, ut_low u3, ut_high u3, u3) = (dma, pf, pb, ft, fb, low, high, ut')"
    using assms unfolding reserve_memory_def pagefile_bits ut_find_memory_def Let_def s1 s2 s3 prod.case c_assert_bind
    by (simp only: split: if_splits) auto
  then show ?thesis using s1 s2 s3 by (intro that [of u1 u2]) auto
qed

text \<open>
  C40: the memory set aside at boot is safe from the allocator. The areas for DMA, for the page file
  bitmap and for the frame table are aligned to their sizes and follow each other without overlap inside
  the untyped range; the frame table has an entry of 16 bytes for every page that was free when it was
  sized; and the rest, which the allocator gets, starts at the end of the frame table. With more than
  2 MB left, the rounding of the allocator's base to a slab does not reach back into the frame table.
\<close>

theorem reserve_memory_disjoint:
  assumes "unat (ut_low ut) \<le> unat (ut_high ut)" "unat (ut_high ut) \<le> 2 ^ 31"
    and "reserve_memory ut = Some (dma, pf, pb, ft, fb, low, high, ut')"
  shows "unat (ut_low ut) \<le> unat dma \<and> unat dma + 2 ^ DMA_SIZE_BITS \<le> unat pf \<and> unat pf + 2 ^ pb \<le> unat ft \<and>
    unat low = unat ft + 2 ^ fb \<and> unat low \<le> unat high \<and> high = ut_high ut \<and>
    unat dma mod 2 ^ DMA_SIZE_BITS = 0 \<and> unat pf mod 2 ^ pb = 0 \<and> unat ft mod 2 ^ fb = 0 \<and>
    16 * ((unat high - (unat pf + 2 ^ pb)) div 4096) \<le> 2 ^ fb \<and>
    (2 ^ 21 < unat high - unat low \<longrightarrow> FLOOR14 low = low)"
proof -
  obtain u1 u2
    where s1: "ut_steal_mem DMA_SIZE_BITS ut = (dma, u1)" "dma \<noteq> 0" and s2: "ut_steal_mem 12 u1 = (pf, u2)" "pf \<noteq> 0"
      and s3: "ut_steal_mem fb u2 = (ft, ut')" "ft \<noteq> 0"
      and eq: "pb = 12" "fb = LOG_BASE_2 (nearest_power_of_two (16 * BYTES_TO_4K_PAGES (ut_high u2 - ut_low u2)))"
        "low = ut_low ut'" "high = ut_high ut'"
    using assms(3) by (rule reserve_memory_elim)
  have "DMA_SIZE_BITS \<le> 30" by (simp add: DMA_SIZE_BITS_def)
  note b1 = steal_block [OF this assms(2,1) s1]
  have "unat (ut_high u1) \<le> 2 ^ 31" using b1(5) assms(2) by simp
  note b2 = steal_block [OF _ this b1(4) s2, simplified]
  have h2: "unat (ut_high u2) \<le> 2 ^ 31" using b1(5) b2(5) assms(2) by simp
  let ?b = "ut_high u2 - ut_low u2"
  have b: "unat ?b = unat (ut_high u2) - unat (ut_low u2)" using b2(4) by (simp add: unat_sub word_le_nat_alt)
  have pos: "0 < unat ?b"
  proof (rule ccontr)
    assume "\<not> 0 < unat ?b"
    then have "?b = 0" by (simp add: unat_eq_0)
    moreover have "LOG_BASE_2 (nearest_power_of_two (16 * BYTES_TO_4K_PAGES 0)) = 0" by code_simp
    ultimately have "fb = 0" using eq(2) by simp
    with steal_block(2-5) [OF _ h2 b2(4) s3] b \<open>?b = 0\<close> show False by simp
  qed
  have le: "unat ?b \<le> 2 ^ 31" using b h2 by simp
  note k = frame_table_bits [OF le pos, folded eq(2)]
  note b3 = steal_block [OF k(1) h2 b2(4) s3]
  have "16 * (unat ?b div 4096) \<le> 2 ^ fb" using k(2) by linarith
  moreover have "FLOOR14 low = low" if left: "2 ^ 21 < unat high - unat low"
  proof (rule FLOOR14_after [OF b3(1)])
    show "unat low = unat ft + 2 ^ fb" using b3(3) eq(3) by simp
    have "2 ^ 21 < unat ?b" using left b b3(2,3,5) eq(3,4) by simp
    then show "14 \<le> fb" by (rule k(3))
  qed
  moreover have "high = ut_high ut" using eq(4) b1(5) b2(5) b3(5) by simp
  moreover have "unat ?b = unat high - (unat pf + 2 ^ pb)" using b b2(3) b3(5) eq(1,4) by simp
  ultimately show ?thesis using b1(1-3) b2(1-3) b3(1-4) eq(1,3,4) by simp
qed

theorem reserve_memory_disjoint_witness:
  "\<exists>dma pf pb ft fb low high ut'.
     reserve_memory \<lparr>ut_map = [], ut_count = 0, ut_low = 0x10001000, ut_high = 0x20000000\<rparr> =
       Some (dma, pf, pb, ft, fb, low, high, ut') \<and> unat dma + 2 ^ DMA_SIZE_BITS \<le> unat pf \<and> FLOOR14 low = low"
proof -
  let ?ut = "\<lparr>ut_map = [], ut_count = 0, ut_low = 0x10001000, ut_high = 0x20000000\<rparr>"
  have r: "reserve_memory ?ut = Some (0x10400000, 0x10800000, 12, 0x10900000, 20, 0x10A00000, 0x20000000,
    ?ut\<lparr>ut_low := 0x10A00000\<rparr>)" by code_simp
  with reserve_memory_disjoint [OF _ _ r] show ?thesis by simp
qed

end
