(* ===== verification/Spec2Isabelle.thy ===== *)
theory Spec2Isabelle
  imports UtAlloc_Sub UtTable RingBuf Lists Pq Clock UtilsMath Vfs PageMap Elf Events ProcTree Dma Coro FdTable Dispatch Boot
begin

text \<open>
  SOS, a simple operating system personality on the seL4 microkernel: one server (\<^verbatim>\<open>apps/sos/src\<close>) that gives
  its clients processes, virtual memory with demand paging, files over NFS, a console and timers, and the
  libraries it is built from (\<^verbatim>\<open>libclock\<close>, \<^verbatim>\<open>libutils\<close>, \<^verbatim>\<open>libelf\<close>, \<^verbatim>\<open>libserial\<close>). Paths below are relative
  to \<^verbatim>\<open>apps/sos/src\<close> where they do not start with the name of a library.

  \<^bold>\<open>The program.\<close> \<^verbatim>\<open>main\<close> finds the untyped memory the kernel left, sets areas aside for DMA, the page file
  bitmap and the frame table, gives the rest to the untyped allocator, and brings up the other parts. The event
  loop then waits for messages: an interrupt goes to the network or the timer driver, a fault to the virtual
  memory system, and any other message to the system call dispatcher. Requests run as coroutines, which yield
  while they wait for the NFS server, the console, a timer or another process.

  \<^bold>\<open>How C becomes HOL.\<close> A C function is a HOL function into an option type; \<^const>\<open>None\<close> is a run that hits a
  failed assertion or panic, indexes outside an array, or dereferences a null pointer. Error codes that the
  program returns are ordinary results. State is passed explicitly. Integers that can wrap are 32-bit or 64-bit
  words. Enumerations are datatypes, structures records, pointers that may be null options. The libraries,
  the untyped memory manager, DMA and the coroutines have state records of their own; the rest of the server is one record \<open>sos\<close> of \<^verbatim>\<open>Sos_State\<close> with the globals
  of all its files. The kernel, the capability space manager, the C allocator, the NFS library and the devices
  are a record \<open>sos_env\<close>: each call is a value of \<open>kcall\<close>, is put on the log \<open>klog\<close>, and is answered by an arbitrary
  function of the log. What other coroutines do while one waits is the arbitrary function \<open>interfere\<close>.

  \<^bold>\<open>Theories.\<close>
  \<^item> \<^verbatim>\<open>Sos_Prelude\<close>: assertions, arrays, counted loops and facts on words; \<^verbatim>\<open>Blocks\<close>: aligned blocks and partitions.
  \<^item> \<^verbatim>\<open>Bitfield\<close>, \<^verbatim>\<open>UtAlloc\<close>, \<^verbatim>\<open>UtAlloc_Sub\<close>, \<^verbatim>\<open>UtTable\<close>: \<^verbatim>\<open>ut_manager/\<close>. The live and free blocks partition the
    arena before and after every allocation and release; the table translates addresses of the largest
    contiguous range.
  \<^item> \<^verbatim>\<open>RingBuf\<close>, \<^verbatim>\<open>Lists\<close>, \<^verbatim>\<open>UtilsMath\<close>: \<^verbatim>\<open>libutils\<close>. The buffer refines a bounded queue that drops its oldest
    byte; list operations over a node store agree with those on HOL lists; the arithmetic routines agree with
    unbounded arithmetic.
  \<^item> \<^verbatim>\<open>Pq\<close>, \<^verbatim>\<open>Clock\<close>: \<^verbatim>\<open>libclock\<close>. The effect of each queue operation on the multiset of events, two
    defects of the heap, the 64-bit time across a roll-over, and the return of the interrupt handler.
  \<^item> \<^verbatim>\<open>Sos_State\<close>, \<^verbatim>\<open>AddrSpace\<close>, \<^verbatim>\<open>FrameTable\<close>, \<^verbatim>\<open>PageDir\<close>, \<^verbatim>\<open>Pager\<close>, \<^verbatim>\<open>Vm\<close>, \<^verbatim>\<open>PageMap\<close>: \<^verbatim>\<open>vm/\<close> and \<^verbatim>\<open>mapping.c\<close>.
    Regions stay apart when stack and heap grow; the two-level page table refines a map from pages to entries;
    victim selection ends when some frame is not pinned, and does not when all are.
  \<^item> \<^verbatim>\<open>Nfs\<close>, \<^verbatim>\<open>Vfs\<close>, \<^verbatim>\<open>FdTable\<close>: \<^verbatim>\<open>fs/\<close>, \<^verbatim>\<open>vfs/\<close>, \<^verbatim>\<open>dev/\<close> and \<^verbatim>\<open>libserial\<close>. A write to a willing server is
    complete; the descriptor table keeps its contract.
  \<^item> \<^verbatim>\<open>Elf\<close>, \<^verbatim>\<open>Loader\<close>: \<^verbatim>\<open>libelf\<close> and \<^verbatim>\<open>proc/elf.c\<close>. The reported memory bounds are tight.
  \<^item> \<^verbatim>\<open>Proc\<close>, \<^verbatim>\<open>ProcTree\<close>: \<^verbatim>\<open>proc/proc.c\<close>. The search for a process id ends with the first free slot; deletion and
    destruction keep the process tree.
  \<^item> \<^verbatim>\<open>Syscalls\<close>, \<^verbatim>\<open>Dispatch\<close>: \<^verbatim>\<open>syscall/\<close>. All fifteen handlers and the dispatcher, with error paths from message
    to reply.
  \<^item> \<^verbatim>\<open>Events\<close>, \<^verbatim>\<open>Boot\<close>: \<^verbatim>\<open>event.c\<close>, the fault handler, \<^verbatim>\<open>main.c\<close>. The event loop is an inductive relation, since it
    does not end; badges round-trip; the areas reserved at boot are disjoint from each other and from the
    memory the allocator is given.
  \<^item> \<^verbatim>\<open>Dma\<close>: \<^verbatim>\<open>dma.c\<close>; \<^verbatim>\<open>Coro\<close>: \<^verbatim>\<open>coro/picoro.c\<close> as a step relation with an invariant on all reachable states.

  \<^bold>\<open>Interfaces.\<close> The locales \<open>bit_pool\<close> (bitmaps, for the allocator), \<open>byte_fifo\<close> (the ring buffer) and
  \<open>descriptor_table\<close> (for the system calls) state what a client may rely on; each is interpreted on the
  definitions that model the code.

  \<^bold>\<open>Loops.\<close> No model uses fuel. Loops with a measure are total functions. Loops that may run for ever are partial
  functions, for which not returning is \<^const>\<open>None\<close>; that they return is a theorem for the timer interrupt, the
  search for a process id, the search for a victim, the list traversals and the NFS write. It is not proved for the
  read and write system calls, the NFS read and list loops, the loader, the DMA and cache loops in general, and the
  wait for the page file at boot, which depend on the environment or on unchecked arguments.

  \<^bold>\<open>Not modelled.\<close>
  \<^item> \<^verbatim>\<open>elf_loadFile\<close> and the printing functions of \<^verbatim>\<open>libelf\<close>, which the server does not use.
  \<^item> \<^verbatim>\<open>network.c\<close>, the C library glue in \<^verbatim>\<open>sys/\<close>, and \<^verbatim>\<open>tests.c\<close>: device and protocol I/O, stubs and diagnostics.
  \<^item> The kernel, \<^verbatim>\<open>libsel4cspace\<close>, \<^verbatim>\<open>libnfs\<close>, \<^verbatim>\<open>liblwip\<close>, \<^verbatim>\<open>libethdrivers\<close>, \<^verbatim>\<open>libplatsupport\<close>, \<^verbatim>\<open>libmuslc\<close>: separate
    programs many times the size of the server, which appear only through their answers.
  \<^item> \<^verbatim>\<open>libsos\<close>, the shell and the other user programs: clients, whose requests are answers of the environment.
  \<^item> The C heap, for most objects of the server: \<^verbatim>\<open>malloc\<close> succeeds or fails, and the object is a field of the state.
    Leaks and most uses after free are therefore not visible in a theorem; vnodes have addresses and are removed.
  \<^item> Switching stacks: a coroutine's interaction with the others is the interference at its yield points, and the
    lists of \<^verbatim>\<open>Coro\<close> are a separate model.
\<close>

end
